(* ===== verification/Cachefly_Prelude.thy ===== *)
theory Cachefly_Prelude
  imports Main "HOL-Library.Word" "HOL-Library.Signed_Division" "HOL-Library.Multiset"
begin

text \<open>
  Shared vocabulary of the development: the names the model gives to the machine types of the
  C++ sources, the two's complement arithmetic of \<open>std::int64_t\<close>, the byte constants of the
  wire formats, and generic lemmas on lists that several components use.

  \<^item> \<open>std::string\<close>, \<open>std::string_view\<close> and \<open>std::vector<char>\<close> are \<open>string\<close>: a HOL
    \<open>char\<close> is exactly one byte.
  \<^item> \<open>std::size_t\<close> and \<open>std::uint64_t\<close> counters are \<open>64 word\<close>, so \<open>+\<close> and \<open>-\<close> wrap as they do
    in the code.
  \<^item> \<open>std::int64_t\<close> and the \<open>std::chrono\<close> representations built on it are \<open>int\<close>, with
    \<open>wrap64\<close> written wherever the code adds, subtracts or scales them without a guard.  Signed
    overflow is undefined in C++; \<open>wrap64\<close> is the value the two's complement instruction leaves.
\<close>

named_theorems store_simps \<open>unfolding rules for the operations of the store\<close>
named_theorems inv_intros \<open>preservation rules for the well-formedness invariants\<close>

type_synonym size_t = "64 word"
type_synonym uint64 = "64 word"
type_synonym time_point = int
type_synonym milliseconds = int

text \<open>The exceptions the sources throw; a fallible operation returns \<open>std_exception + 'a\<close>.\<close>

datatype std_exception =
    invalid_argument string
  | runtime_error string
  | out_of_range string
  | length_error string
  | overflow_error string
  | logic_error string
  | system_error int string

text \<open>The values of \<open>errno\<close> the sources compare with; on Linux \<open>EWOULDBLOCK\<close> is \<open>EAGAIN\<close>.\<close>

definition ENOENT :: int where "ENOENT = 2"
definition EINTR :: int where "EINTR = 4"
definition EAGAIN :: int where "EAGAIN = 11"
definition EEXIST :: int where "EEXIST = 17"
definition ECONNABORTED :: int where "ECONNABORTED = 103"

subsection \<open>Two's complement arithmetic on 64 bits\<close>

definition INT64_MAX :: int where
  "INT64_MAX = 9223372036854775807"

definition INT64_MIN :: int where
  "INT64_MIN = -9223372036854775808"

definition SIZE_T_MAX :: size_t where
  "SIZE_T_MAX = -1"

text \<open>\<open>max_size()\<close> of a \<open>std::vector\<close> of pointers or threads: the largest number of 8-byte elements \<open>reserve\<close> does not refuse at once.\<close>

definition vector_limit :: int where
  "vector_limit = 1152921504606846975"

definition in_int64 :: "int \<Rightarrow> bool" where
  "in_int64 i \<longleftrightarrow> INT64_MIN \<le> i \<and> i \<le> INT64_MAX"

definition wrap64 :: "int \<Rightarrow> int" where
  "wrap64 i = (i + 2 ^ 63) mod 2 ^ 64 - 2 ^ 63"

lemma wrap64_in_range [simp]: "in_int64 i \<Longrightarrow> wrap64 i = i"
  by (simp add: in_int64_def INT64_MIN_def INT64_MAX_def wrap64_def)

lemma in_int64_wrap64 [simp]: "in_int64 (wrap64 i)"
proof -
  have "0 \<le> (i + 2 ^ 63) mod 2 ^ 64" and "(i + 2 ^ 63) mod 2 ^ 64 < (2 ^ 64 :: int)"
    by simp_all
  then show ?thesis
    by (simp add: in_int64_def INT64_MIN_def INT64_MAX_def wrap64_def)
qed

lemma wrap64_idem [simp]: "wrap64 (wrap64 i) = wrap64 i"
  by simp

lemma unat_SIZE_T_MAX: "unat SIZE_T_MAX = 2 ^ 64 - 1"
  by (simp add: SIZE_T_MAX_def unsigned_minus_1_eq_mask mask_eq_exp_minus_1)

subsection \<open>Bytes of the wire formats\<close>

abbreviation CR :: char where
  "CR \<equiv> CHR 0x0D"

abbreviation LF :: char where
  "LF \<equiv> CHR 0x0A"

abbreviation CRLF :: string where
  "CRLF \<equiv> [CR, LF]"

subsection \<open>Lists\<close>

lemma sum_list_map_mset:
  fixes f :: "'a \<Rightarrow> 'b::comm_monoid_add"
  shows "mset xs = mset ys \<Longrightarrow> sum_list (map f xs) = sum_list (map f ys)"
  by (metis mset_map sum_mset_sum_list)

lemma sum_list_update:
  fixes f :: "'a \<Rightarrow> nat"
  shows "j < length xs \<Longrightarrow> sum_list (map f (xs[j := y])) + f (xs ! j) = sum_list (map f xs) + f y"
proof (induction xs arbitrary: j)
  case (Cons x xs)
  then show ?case by (cases j) (auto simp: add.assoc)
qed simp

lemma length_filter_neq_Suc:
  "distinct (map fst xs) \<Longrightarrow> p \<in> set xs \<Longrightarrow>
    Suc (length (filter (\<lambda>q. fst q \<noteq> fst p) xs)) = length xs"
proof (induction xs)
  case Nil
  then show ?case by simp
next
  case (Cons x xs)
  show ?case
  proof (cases "x = p")
    case True
    with Cons.prems(1) have "fst p \<notin> fst ` set xs" by simp
    then have "\<forall>q \<in> set xs. fst q \<noteq> fst p" by (metis imageI)
    then have "filter (\<lambda>q. fst q \<noteq> fst p) xs = xs" by (simp add: filter_id_conv)
    with True show ?thesis by simp
  next
    case False
    with Cons.prems have "p \<in> set xs" "fst x \<noteq> fst p" by auto
    with Cons show ?thesis by simp
  qed
qed

lemma nth_mod_mem [simp]: "xs \<noteq> [] \<Longrightarrow> xs ! (n mod length xs) \<in> set xs"
  by (simp add: nth_mem)

end
