(* ===== verification/Charconv.thy ===== *)
theory Charconv
  imports Cachefly_Prelude
begin

text \<open>
  The decimal conversions of the standard library that the sources rely on: \<open>std::to_string\<close> and
  \<open>std::from_chars\<close> for \<open>std::int64_t\<close>, and the \<open>ParseInteger\<close> helper that
  src/src/resp/resp_parser.cpp and src/src/command/command_executor.cpp define on top of it.
  The main fact is the round trip \<open>ParseInteger_to_string\<close>.
\<close>

definition is_digit :: "char \<Rightarrow> bool" where
  "is_digit c \<longleftrightarrow> 48 \<le> (of_char c :: nat) \<and> (of_char c :: nat) \<le> 57"

definition digit_value :: "char \<Rightarrow> nat" where
  "digit_value c = of_char c - 48"

definition digit_char :: "nat \<Rightarrow> char" where
  "digit_char d = char_of (48 + d)"

definition decimal_value :: "string \<Rightarrow> nat" where
  "decimal_value cs = foldl (\<lambda>a c. 10 * a + digit_value c) 0 cs"

fun to_string_nat :: "nat \<Rightarrow> string" where
  "to_string_nat n =
     (if n < 10 then [digit_char n] else to_string_nat (n div 10) @ [digit_char (n mod 10)])"

declare to_string_nat.simps [simp del]

definition to_string :: "int \<Rightarrow> string" where
  "to_string i = (if i < 0 then CHR ''-'' # to_string_nat (nat (- i)) else to_string_nat (nat i))"

text \<open>
  \<open>std::from_chars\<close> reads an optional minus sign and the longest run of digits (no plus sign, no
  leading blanks).  The result carries the number of characters the returned pointer has passed.
\<close>

datatype from_chars_result = Parsed int nat | InvalidArgument | ResultOutOfRange nat

definition from_chars :: "string \<Rightarrow> from_chars_result" where
  "from_chars text =
     (let negative = (text \<noteq> [] \<and> hd text = CHR ''-'');
          body = (if negative then tl text else text);
          ds = takeWhile is_digit body;
          n = length ds + (if negative then 1 else 0);
          v = (if negative then - int (decimal_value ds) else int (decimal_value ds))
      in if ds = [] then InvalidArgument
         else if in_int64 v then Parsed v n else ResultOutOfRange n)"

text \<open>src/src/resp/resp_parser.cpp, src/src/command/command_executor.cpp: \<open>ParseInteger\<close>.\<close>

definition ParseInteger :: "string \<Rightarrow> int option" where
  "ParseInteger text =
     (if text = [] then None
      else case from_chars text of
             Parsed v n \<Rightarrow> if n = length text then Some v else None
           | _ \<Rightarrow> None)"

subsection \<open>Digits\<close>

lemma of_char_digit_char [simp]: "d < 10 \<Longrightarrow> (of_char (digit_char d) :: nat) = 48 + d"
  by (simp add: digit_char_def)

lemma is_digit_digit_char [simp]: "d < 10 \<Longrightarrow> is_digit (digit_char d)"
  by (simp add: is_digit_def)

lemma digit_value_digit_char [simp]: "d < 10 \<Longrightarrow> digit_value (digit_char d) = d"
  by (simp add: digit_value_def)

lemma not_digit_special [simp]:
  "\<not> is_digit CR" "\<not> is_digit LF" "\<not> is_digit (CHR ''-'')"
  by (simp_all add: is_digit_def)

lemma decimal_value_snoc [simp]:
  "decimal_value (cs @ [c]) = 10 * decimal_value cs + digit_value c"
  by (simp add: decimal_value_def)

lemma to_string_nat_nonempty [simp]: "to_string_nat n \<noteq> []"
  by (subst to_string_nat.simps) simp

lemma to_string_nat_digits: "\<forall>c \<in> set (to_string_nat n). is_digit c"
proof (induction n rule: to_string_nat.induct)
  case (1 n)
  then show ?case
    by (subst to_string_nat.simps) auto
qed

lemma decimal_value_to_string_nat [simp]: "decimal_value (to_string_nat n) = n"
proof (induction n rule: to_string_nat.induct)
  case (1 n)
  show ?case
  proof (cases "n < 10")
    case True
    then show ?thesis by (simp add: to_string_nat.simps [of n] decimal_value_def)
  next
    case False
    with 1 show ?thesis by (simp add: to_string_nat.simps [of n])
  qed
qed

lemma takeWhile_to_string_nat [simp]: "takeWhile is_digit (to_string_nat n) = to_string_nat n"
  using to_string_nat_digits by (simp add: takeWhile_eq_all_conv)

lemma hd_to_string_nat_not_minus [simp]: "hd (to_string_nat n) \<noteq> CHR ''-''"
proof -
  have "hd (to_string_nat n) \<in> set (to_string_nat n)" by simp
  then have "is_digit (hd (to_string_nat n))" using to_string_nat_digits by blast
  then show ?thesis by (auto simp del: hd_in_set)
qed

lemma to_string_nonempty [simp]: "to_string i \<noteq> []"
  by (simp add: to_string_def)

subsection \<open>The round trip\<close>

lemma from_chars_to_string:
  "in_int64 i \<Longrightarrow> from_chars (to_string i) = Parsed i (length (to_string i))"
  by (simp add: from_chars_def to_string_def Let_def)

lemma ParseInteger_to_string: "in_int64 i \<Longrightarrow> ParseInteger (to_string i) = Some i"
  by (simp add: ParseInteger_def from_chars_to_string)

lemma ParseInteger_range: "ParseInteger cs = Some i \<Longrightarrow> in_int64 i"
  by (auto simp: ParseInteger_def from_chars_def Let_def split: if_splits)

lemma to_string_nat_notin [simp]: "\<not> is_digit c \<Longrightarrow> c \<notin> set (to_string_nat n)"
  using to_string_nat_digits by blast

lemma to_string_no_line_break [simp]: "CR \<notin> set (to_string i)" "LF \<notin> set (to_string i)"
  by (simp_all add: to_string_def)

end
