(* ===== verification/Resp_Value.thy ===== *)
theory Resp_Value
  imports Charconv
begin

text \<open>
  RESP values and their encoding: src/include/cachefly/resp/resp_value.h and
  src/src/resp/resp_value.cpp.  The C++ \<open>struct Value\<close> is a tag with one payload field per
  kind; its static constructors fill exactly the field that the tag selects, so the model is a
  tagged union.
\<close>

datatype Value =
    SimpleString string
  | ErrorValue string
  | Integer int
  | BulkString string
  | Array "Value list"
  | Null

definition SanitizeError :: "string \<Rightarrow> string" where
  "SanitizeError message = map (\<lambda>c. if c = CR \<or> c = LF then CHR '' '' else c) message"

fun Encode :: "Value \<Rightarrow> string" where
  "Encode (SimpleString s) = ''+'' @ s @ CRLF"
| "Encode (ErrorValue s) = ''-'' @ SanitizeError s @ CRLF"
| "Encode (Integer i) = '':'' @ to_string i @ CRLF"
| "Encode (BulkString s) = ''$'' @ to_string (int (length s)) @ CRLF @ s @ CRLF"
| "Encode (Array vs) = ''*'' @ to_string (int (length vs)) @ CRLF @ concat (map Encode vs)"
| "Encode Null = ''$-1'' @ CRLF"

definition EncodeCommand :: "string list \<Rightarrow> string" where
  "EncodeCommand arguments = Encode (Array (map BulkString arguments))"

subsection \<open>Sanitised errors\<close>

lemma SanitizeError_no_line_break [simp]:
  "CR \<notin> set (SanitizeError s)" "LF \<notin> set (SanitizeError s)"
  by (auto simp: SanitizeError_def)

lemma SanitizeError_length [simp]: "length (SanitizeError s) = length s"
  by (simp add: SanitizeError_def)

lemma SanitizeError_id: "CR \<notin> set s \<Longrightarrow> LF \<notin> set s \<Longrightarrow> SanitizeError s = s"
  unfolding SanitizeError_def by (rule map_idI) auto

lemma SanitizeError_idem [simp]: "SanitizeError (SanitizeError s) = SanitizeError s"
  by (simp add: SanitizeError_id)

lemma Encode_nonempty [simp]: "Encode v \<noteq> []"
  by (cases v) simp_all

text \<open>What a reader gets back from an encoded value: errors come back sanitised.\<close>

fun wire_value :: "Value \<Rightarrow> Value" where
  "wire_value (ErrorValue s) = ErrorValue (SanitizeError s)"
| "wire_value (Array vs) = Array (map wire_value vs)"
| "wire_value v = v"

end
