(* ===== verification/Resp_Parser.thy ===== *)
theory Resp_Parser
  imports Resp_Value
begin

text \<open>
  The incremental RESP parser: src/include/cachefly/resp/resp_parser.h and
  src/src/resp/resp_parser.cpp.  An \<open>std::string_view\<close> with a \<open>cursor\<close> is the whole input
  and a \<open>nat\<close> offset; the out-parameters of the C++ functions are the arguments of the result's
  constructors.
\<close>

datatype 'a ParseResult = kComplete nat 'a | kIncomplete | kError string

record Parser =
  max_bulk_length :: nat
  max_array_length :: nat
  max_depth :: nat

definition default_parser :: Parser where
  "default_parser =
     \<lparr>max_bulk_length = 512 * 1024 * 1024, max_array_length = 1024 * 1024, max_depth = 128\<rparr>"

subsection \<open>Lines\<close>

text \<open>The offset of the first CR LF, as \<open>std::string_view::find\<close> reports it.\<close>

fun find_crlf :: "string \<Rightarrow> nat option" where
  "find_crlf (a # b # cs) = (if a = CR \<and> b = LF then Some 0 else map_option Suc (find_crlf (b # cs)))"
| "find_crlf cs = None"

definition ReadLine :: "string \<Rightarrow> nat \<Rightarrow> string ParseResult" where
  "ReadLine input cursor =
     (case find_crlf (drop cursor input) of
        None \<Rightarrow> kIncomplete
      | Some n \<Rightarrow>
          (let line = take n (drop cursor input)
           in if CR \<in> set line \<or> LF \<in> set line then kError ''invalid line terminator''
              else kComplete (cursor + n + 2) line))"

subsection \<open>Values\<close>

text \<open>The loop of the array case: \<open>n\<close> children, each read by \<open>child\<close> from where the last ended.\<close>

fun ParseElements :: "nat \<Rightarrow> (nat \<Rightarrow> Value ParseResult) \<Rightarrow> nat \<Rightarrow> Value list \<Rightarrow> Value ParseResult" where
  "ParseElements 0 child cursor elements = kComplete cursor (Array elements)"
| "ParseElements (Suc n) child cursor elements =
     (case child cursor of
        kComplete cursor' v \<Rightarrow> ParseElements n child cursor' (elements @ [v])
      | kIncomplete \<Rightarrow> kIncomplete
      | kError e \<Rightarrow> kError e)"

definition ParseLine :: "char \<Rightarrow> string \<Rightarrow> nat \<Rightarrow> Value ParseResult" where
  "ParseLine prefix input cursor =
     (case ReadLine input cursor of
        kIncomplete \<Rightarrow> kIncomplete
      | kError e \<Rightarrow> kError e
      | kComplete cursor' line \<Rightarrow>
          if prefix = CHR ''+'' then kComplete cursor' (SimpleString line)
          else if prefix = CHR ''-'' then kComplete cursor' (ErrorValue line)
          else (case ParseInteger line of
                  None \<Rightarrow> kError ''invalid RESP integer''
                | Some i \<Rightarrow> kComplete cursor' (Integer i)))"

definition ParseBulk :: "Parser \<Rightarrow> string \<Rightarrow> nat \<Rightarrow> Value ParseResult" where
  "ParseBulk p input cursor0 =
     (case ReadLine input cursor0 of
        kIncomplete \<Rightarrow> kIncomplete
      | kError e \<Rightarrow> kError e
      | kComplete cursor line \<Rightarrow>
          (case ParseInteger line of
             None \<Rightarrow> kError ''invalid bulk string length''
           | Some len \<Rightarrow>
               if len < -1 then kError ''invalid bulk string length''
               else if len = -1 then kComplete cursor Null
               else if nat len > max_bulk_length p then kError ''bulk string exceeds limit''
               else (let size = nat len; remaining = length input - cursor
                     in if remaining < size \<or> remaining - size < 2 then kIncomplete
                        else if input ! (cursor + size) \<noteq> CR \<or> input ! (cursor + size + 1) \<noteq> LF
                        then kError ''bulk string is missing CRLF''
                        else kComplete (cursor + size + 2)
                               (BulkString (take size (drop cursor input))))))"

definition ParseArray ::
    "Parser \<Rightarrow> string \<Rightarrow> nat \<Rightarrow> (nat \<Rightarrow> Value ParseResult) \<Rightarrow> Value ParseResult" where
  "ParseArray p input cursor0 child =
     (case ReadLine input cursor0 of
        kIncomplete \<Rightarrow> kIncomplete
      | kError e \<Rightarrow> kError e
      | kComplete cursor line \<Rightarrow>
          (case ParseInteger line of
             None \<Rightarrow> kError ''invalid array length''
           | Some len \<Rightarrow>
               if len < -1 then kError ''invalid array length''
               else if len = -1 then kComplete cursor Null
               else if nat len > max_array_length p then kError ''array length exceeds limit''
               else ParseElements (nat len) child cursor []))"

function ParseValue :: "Parser \<Rightarrow> string \<Rightarrow> nat \<Rightarrow> nat \<Rightarrow> Value ParseResult" where
  "ParseValue p input cursor depth =
     (if depth > max_depth p then kError ''RESP nesting depth exceeded''
      else if cursor \<ge> length input then kIncomplete
      else (let prefix = input ! cursor; cursor = Suc cursor
            in if prefix = CHR ''+'' \<or> prefix = CHR ''-'' \<or> prefix = CHR '':''
               then ParseLine prefix input cursor
               else if prefix = CHR ''$'' then ParseBulk p input cursor
               else if prefix = CHR ''*''
               then ParseArray p input cursor (\<lambda>c. ParseValue p input c (Suc depth))
               else kError ''unknown RESP type byte''))"
  by pat_completeness auto
termination
  by (relation "measure (\<lambda>(p, input, cursor, depth). Suc (max_depth p) - depth)") auto

declare ParseValue.simps [simp del]

definition Parse :: "Parser \<Rightarrow> string \<Rightarrow> Value ParseResult" where
  "Parse p input = ParseValue p input 0 0"

subsection \<open>Commands\<close>

fun string_argument :: "Value \<Rightarrow> string option" where
  "string_argument (BulkString s) = Some s"
| "string_argument (SimpleString s) = Some s"
| "string_argument _ = None"

fun string_arguments :: "Value list \<Rightarrow> string list option" where
  "string_arguments [] = Some []"
| "string_arguments (v # vs) =
     (case string_argument v of
        None \<Rightarrow> None
      | Some s \<Rightarrow> map_option (Cons s) (string_arguments vs))"

definition ParseCommand :: "Parser \<Rightarrow> string \<Rightarrow> (string list) ParseResult" where
  "ParseCommand p input =
     (case Parse p input of
        kIncomplete \<Rightarrow> kIncomplete
      | kError e \<Rightarrow> kError e
      | kComplete consumed value \<Rightarrow>
          (case value of
             Array vs \<Rightarrow>
               if vs = [] then kError ''command must be a non-empty array''
               else (case string_arguments vs of
                       None \<Rightarrow> kError ''command arguments must be strings''
                     | Some arguments \<Rightarrow> kComplete consumed arguments)
           | _ \<Rightarrow> kError ''command must be a non-empty array''))"

subsection \<open>Lines: bounds, extension, encoding\<close>

lemma find_crlf_bound: "find_crlf cs = Some n \<Longrightarrow> n + 2 \<le> length cs"
  by (induction cs arbitrary: n rule: find_crlf.induct) (auto split: if_splits)

lemma find_crlf_append: "find_crlf cs = Some n \<Longrightarrow> find_crlf (cs @ ds) = Some n"
  by (induction cs arbitrary: n rule: find_crlf.induct) (auto split: if_splits)

lemma find_crlf_line: "CR \<notin> set l \<Longrightarrow> find_crlf (l @ CRLF @ rest) = Some (length l)"
proof (induction l)
  case Nil
  then show ?case by simp
next
  case (Cons a l)
  then show ?case by (cases l) auto
qed

lemma ReadLine_bound: "ReadLine input c = kComplete c' l \<Longrightarrow> c + 2 \<le> c' \<and> c' \<le> length input"
  by (auto simp: ReadLine_def Let_def dest!: find_crlf_bound split: option.splits if_splits)

lemma ReadLine_append:
  assumes "ReadLine input c \<noteq> kIncomplete"
  shows "ReadLine (input @ rest) c = ReadLine input c"
proof -
  from assms obtain n where n: "find_crlf (drop c input) = Some n"
    by (auto simp: ReadLine_def split: option.splits)
  from find_crlf_bound [OF n] have "c \<le> length input" and "n \<le> length input - c" by auto
  then have "find_crlf (drop c (input @ rest)) = Some n"
    and "take n (drop c (input @ rest)) = take n (drop c input)"
    using find_crlf_append [OF n] by simp_all
  with n show ?thesis by (simp add: ReadLine_def del: drop_append take_append)
qed

lemma ReadLine_line:
  assumes "drop c input = l @ CRLF @ rest" and "CR \<notin> set l" and "LF \<notin> set l"
  shows "ReadLine input c = kComplete (c + length l + 2) l"
  using assms by (simp add: ReadLine_def find_crlf_line [simplified])

subsection \<open>Values: bounds\<close>

lemma ParseLine_bound: "ParseLine b input c = kComplete c' v \<Longrightarrow> c < c' \<and> c' \<le> length input"
  by (auto simp: ParseLine_def dest!: ReadLine_bound split: ParseResult.splits if_splits option.splits)

lemma ParseBulk_bound: "ParseBulk p input c = kComplete c' v \<Longrightarrow> c < c' \<and> c' \<le> length input"
  by (auto simp: ParseBulk_def Let_def dest!: ReadLine_bound
      split: ParseResult.splits if_splits option.splits)

lemma ParseElements_bound:
  assumes "\<And>c c' v. child c = kComplete c' v \<Longrightarrow> c < c' \<and> c' \<le> m"
    and "c \<le> m" and "ParseElements n child c vs = kComplete c' v"
  shows "c \<le> c' \<and> c' \<le> m"
  using assms(2,3)
proof (induction n arbitrary: c vs)
  case 0
  then show ?case by simp
next
  case (Suc n)
  then obtain c1 v1 where "child c = kComplete c1 v1"
    and "ParseElements n child c1 (vs @ [v1]) = kComplete c' v"
    by (auto split: ParseResult.splits)
  with Suc.IH [of c1 "vs @ [v1]"] assms(1) [of c c1 v1] show ?case by linarith
qed

lemma ParseArray_bound:
  assumes "\<And>c c' v. child c = kComplete c' v \<Longrightarrow> c < c' \<and> c' \<le> length input"
    and "ParseArray p input c child = kComplete c' v"
  shows "c < c' \<and> c' \<le> length input"
proof -
  from assms(2) obtain c1 l where rl: "ReadLine input c = kComplete c1 l"
    by (auto simp: ParseArray_def split: ParseResult.splits)
  from ReadLine_bound [OF rl] have c1: "c < c1" "c1 \<le> length input" by auto
  from assms(2) rl have "c1 = c' \<or> (\<exists>n. ParseElements n child c1 [] = kComplete c' v)"
    by (auto simp: ParseArray_def split: option.splits if_splits)
  moreover have "c1 \<le> c' \<and> c' \<le> length input"
    if "ParseElements n child c1 [] = kComplete c' v" for n
    using assms(1) c1(2) that by (rule ParseElements_bound)
  ultimately show ?thesis using c1 by fastforce
qed

lemma ParseValue_bound:
  "ParseValue p input c d = kComplete c' v \<Longrightarrow> c < c' \<and> c' \<le> length input"
proof (induction p input c d arbitrary: c' v rule: ParseValue.induct)
  case (1 p input c d)
  have arr: "c < c' \<and> c' \<le> length input"
    if "\<not> max_depth p < d" "c < length input" "input ! c = CHR ''*''"
      and "ParseArray p input (Suc c) (\<lambda>c. ParseValue p input c (Suc d)) = kComplete c' v"
    using ParseArray_bound [OF _ that(4)] 1(1) that(1-3) by fastforce
  show ?case
    using 1(2) arr
    by (subst (asm) ParseValue.simps)
      (auto simp: Let_def dest!: ParseLine_bound ParseBulk_bound split: if_splits)
qed

subsection \<open>Values: more input never changes a decided result\<close>

lemma ParseLine_append:
  "ParseLine b input c \<noteq> kIncomplete \<Longrightarrow> ParseLine b (input @ rest) c = ParseLine b input c"
  using ReadLine_append [of input c rest] by (auto simp: ParseLine_def split: ParseResult.splits)

lemma ParseBulk_append:
  assumes "ParseBulk p input c \<noteq> kIncomplete"
  shows "ParseBulk p (input @ rest) c = ParseBulk p input c"
proof -
  have rl: "ReadLine (input @ rest) c = ReadLine input c"
    using assms by (intro ReadLine_append) (auto simp: ParseBulk_def)
  show ?thesis
  proof (cases "ReadLine input c")
    case (kComplete c1 l)
    show ?thesis
    proof (cases "\<exists>len. ParseInteger l = Some len \<and> 0 \<le> len \<and> nat len \<le> max_bulk_length p")
      case False
      then show ?thesis by (auto simp: ParseBulk_def kComplete rl split: option.split)
    next
      case True
      then obtain len where len: "ParseInteger l = Some len" "0 \<le> len" "nat len \<le> max_bulk_length p"
        by blast
      with assms kComplete have "\<not> length input - c1 < nat len" "\<not> length input - c1 - nat len < 2"
        by (auto simp: ParseBulk_def Let_def)
      then have "c1 + nat len + 1 < length input" "c1 + nat len < length input" by linarith+
      then show ?thesis
        using len by (simp add: ParseBulk_def kComplete rl Let_def nth_append)
    qed
  qed (simp_all add: ParseBulk_def rl)
qed

lemma ParseElements_append:
  assumes "\<And>c. child c \<noteq> kIncomplete \<Longrightarrow> child' c = child c"
    and "ParseElements n child c vs \<noteq> kIncomplete"
  shows "ParseElements n child' c vs = ParseElements n child c vs"
  using assms(2)
proof (induction n arbitrary: c vs)
  case 0
  then show ?case by simp
next
  case (Suc n)
  then have "child c \<noteq> kIncomplete" by auto
  with assms(1) have "child' c = child c" by blast
  with Suc show ?case by (auto split: ParseResult.splits)
qed

lemma ParseArray_append:
  assumes "\<And>c. child c \<noteq> kIncomplete \<Longrightarrow> child' c = child c"
    and "ParseArray p input c child \<noteq> kIncomplete"
  shows "ParseArray p (input @ rest) c child' = ParseArray p input c child"
proof -
  have "ReadLine (input @ rest) c = ReadLine input c"
    using assms(2) by (intro ReadLine_append) (auto simp: ParseArray_def)
  then show ?thesis
    using assms(2) ParseElements_append [of child child', OF assms(1)]
    by (auto simp: ParseArray_def split: ParseResult.splits option.splits)
qed

lemma ParseValue_append:
  "ParseValue p input c d \<noteq> kIncomplete \<Longrightarrow>
    ParseValue p (input @ rest) c d = ParseValue p input c d"
proof (induction p input c d rule: ParseValue.induct)
  case (1 p input c d)
  show ?case
  proof (cases "max_depth p < d")
    case True
    then show ?thesis by (simp add: ParseValue.simps [of p _ c d])
  next
    case False
    with 1(2) have c: "c < length input"
      by (subst (asm) ParseValue.simps) (simp split: if_splits)
    have arr: "ParseArray p (input @ rest) (Suc c) (\<lambda>c. ParseValue p (input @ rest) c (Suc d)) =
        ParseArray p input (Suc c) (\<lambda>c. ParseValue p input c (Suc d))"
      if "input ! c = CHR ''*''"
        "ParseArray p input (Suc c) (\<lambda>c. ParseValue p input c (Suc d)) \<noteq> kIncomplete"
      using False c that 1(1) by (intro ParseArray_append) auto
    show ?thesis
      using False c 1(2) arr ParseLine_append [of _ input "Suc c" rest]
        ParseBulk_append [of p input "Suc c" rest]
      by (auto simp: ParseValue.simps [of p _ c d] Let_def nth_append split: if_splits)
  qed
qed

subsection \<open>Values: decoding an encoding\<close>

text \<open>
  What the parser accepts of what the encoder writes: simple strings without line breaks, integers
  of 64 bits, and lengths and nesting within the parser's limits.
\<close>

fun encodable :: "Parser \<Rightarrow> nat \<Rightarrow> Value \<Rightarrow> bool" where
  "encodable p d (SimpleString s) \<longleftrightarrow> d \<le> max_depth p \<and> CR \<notin> set s \<and> LF \<notin> set s"
| "encodable p d (ErrorValue s) \<longleftrightarrow> d \<le> max_depth p"
| "encodable p d (Integer i) \<longleftrightarrow> d \<le> max_depth p \<and> in_int64 i"
| "encodable p d (BulkString s) \<longleftrightarrow>
     d \<le> max_depth p \<and> length s \<le> max_bulk_length p \<and> in_int64 (int (length s))"
| "encodable p d (Array vs) \<longleftrightarrow>
     d \<le> max_depth p \<and> length vs \<le> max_array_length p \<and> in_int64 (int (length vs)) \<and>
     list_all (encodable p (Suc d)) vs"
| "encodable p d Null \<longleftrightarrow> d \<le> max_depth p"

text \<open>\<open>decodes p input d v\<close>: wherever the bytes of \<open>v\<close> stand in \<open>input\<close>, they are read as \<open>v\<close>.\<close>

definition decodes :: "Parser \<Rightarrow> string \<Rightarrow> nat \<Rightarrow> Value \<Rightarrow> bool" where
  "decodes p input d v \<longleftrightarrow>
     (\<forall>c rest. drop c input = Encode v @ rest \<longrightarrow>
        ParseValue p input c d = kComplete (c + length (Encode v)) (wire_value v))"

lemma drop_ConsD: "drop c xs = y # ys \<Longrightarrow> c < length xs \<and> xs ! c = y \<and> drop (Suc c) xs = ys"
proof -
  assume eq: "drop c xs = y # ys"
  then have "c < length xs" by (metis drop_eq_Nil linorder_not_less list.discI)
  with eq show ?thesis by (metis Cons_nth_drop_Suc list.inject)
qed

lemma drop_appendD: "drop c xs = ys @ zs \<Longrightarrow> drop (c + length ys) xs = zs"
  by (metis add.commute append_eq_conv_conj drop_drop)

lemma ParseValue_line:
  assumes "drop c input = b # l @ CRLF @ rest" and "b \<in> {CHR ''+'', CHR ''-'', CHR '':''}"
    and "CR \<notin> set l" "LF \<notin> set l" and "d \<le> max_depth p"
    and "v = (if b = CHR ''+'' then Some (SimpleString l) else if b = CHR ''-'' then Some (ErrorValue l)
              else map_option Integer (ParseInteger l))"
  shows "ParseValue p input c d =
    (case v of None \<Rightarrow> kError ''invalid RESP integer'' | Some v \<Rightarrow> kComplete (c + length l + 3) v)"
  using drop_ConsD [OF assms(1)] ReadLine_line [of "Suc c" input l rest] assms(2-6)
  by (auto simp: ParseValue.simps [of p input c d] ParseLine_def Let_def split: option.split)

lemma ParseValue_bulk:
  assumes "drop c input = CHR ''$'' # to_string (int (length s)) @ CRLF @ s @ CRLF @ rest"
    and "length s \<le> max_bulk_length p" "in_int64 (int (length s))" "d \<le> max_depth p"
  shows "ParseValue p input c d =
    kComplete (c + length (to_string (int (length s))) + length s + 5) (BulkString s)"
proof -
  define l where "l = to_string (int (length s))"
  define c1 where "c1 = Suc c + length l + 2"
  note d = drop_ConsD [OF assms(1)]
  then have rl: "ReadLine input (Suc c) = kComplete c1 l"
    unfolding c1_def l_def by (intro ReadLine_line) auto
  have s: "drop c1 input = s @ CRLF @ rest"
    using drop_appendD [of "Suc c" input "l @ CRLF" "s @ CRLF @ rest"] d by (simp add: c1_def l_def)
  have "drop (c1 + length s) input = CRLF @ rest"
    using drop_appendD [OF s] by simp
  then have crlf: "input ! (c1 + length s) = CR" "input ! Suc (c1 + length s) = LF"
    and "Suc (c1 + length s) < length input"
    using drop_ConsD [of "c1 + length s" input CR "LF # rest"]
      drop_ConsD [of "Suc (c1 + length s)" input LF rest] by auto
  then have "\<not> length input - c1 < length s" "\<not> length input - c1 - length s < 2"
    by linarith+
  with rl s crlf assms(2,3)
  have "ParseBulk p input (Suc c) = kComplete (c1 + length s + 2) (BulkString s)"
    by (simp add: ParseBulk_def ParseInteger_to_string Let_def l_def)
  with d assms(4) show ?thesis by (simp add: ParseValue.simps [of p input c d] c1_def l_def)
qed

lemma ParseElements_decodes:
  assumes "\<And>v c rest. v \<in> set vs \<Longrightarrow> drop c input = Encode v @ rest \<Longrightarrow>
      child c = kComplete (c + length (Encode v)) (wire_value v)"
    and "drop c input = concat (map Encode vs) @ rest"
  shows "ParseElements (length vs) child c acc =
    kComplete (c + length (concat (map Encode vs))) (Array (acc @ map wire_value vs))"
  using assms
proof (induction vs arbitrary: c acc)
  case Nil
  then show ?case by simp
next
  case (Cons v vs)
  have hd: "child c = kComplete (c + length (Encode v)) (wire_value v)"
    using Cons.prems by simp
  have tl: "drop (c + length (Encode v)) input = concat (map Encode vs) @ rest"
    using Cons.prems(2) by (intro drop_appendD) simp
  show ?case using Cons.IH [OF _ tl] Cons.prems(1) hd by simp
qed

lemma ParseValue_array:
  assumes "drop c input = Encode (Array vs) @ rest"
    and "\<And>v. v \<in> set vs \<Longrightarrow> decodes p input (Suc d) v"
    and "length vs \<le> max_array_length p" "in_int64 (int (length vs))" "d \<le> max_depth p"
  shows "ParseValue p input c d = kComplete (c + length (Encode (Array vs))) (wire_value (Array vs))"
proof -
  let ?l = "to_string (int (length vs))"
  let ?c = "Suc c + length ?l + 2"
  have "drop c input = CHR ''*'' # ?l @ CRLF @ concat (map Encode vs) @ rest"
    using assms(1) by simp
  note d = drop_ConsD [OF this]
  then have rl: "ReadLine input (Suc c) = kComplete ?c ?l"
    by (intro ReadLine_line) auto
  have els: "drop ?c input = concat (map Encode vs) @ rest"
    using drop_appendD [of "Suc c" input "?l @ CRLF" "concat (map Encode vs) @ rest"] d by simp
  have "ParseElements (length vs) (\<lambda>c. ParseValue p input c (Suc d)) ?c [] =
      kComplete (?c + length (concat (map Encode vs))) (Array ([] @ map wire_value vs))"
    by (rule ParseElements_decodes [OF _ els]) (use assms(2) in \<open>auto simp: decodes_def\<close>)
  then have "ParseArray p input (Suc c) (\<lambda>c. ParseValue p input c (Suc d)) =
      kComplete (?c + length (concat (map Encode vs))) (Array (map wire_value vs))"
    using rl assms(3,4) by (simp add: ParseArray_def ParseInteger_to_string)
  with d assms(5) show ?thesis by (simp add: ParseValue.simps [of p input c d])
qed

lemma ParseInteger_minus_one: "ParseInteger ''-1'' = Some (-1)"
proof -
  have "to_string (-1) = ''-1''"
    by code_simp
  then show ?thesis
    using ParseInteger_to_string [of "-1"] by (simp add: in_int64_def INT64_MIN_def INT64_MAX_def)
qed

lemma encodable_decodes: "encodable p d v \<Longrightarrow> decodes p input d v"
proof (induction p d v rule: encodable.induct)
  case (1 p d s)
  then show ?case
    by (auto simp: decodes_def ParseValue_line [of _ input "CHR ''+''" s])
next
  case (2 p d s)
  then show ?case
    by (auto simp: decodes_def ParseValue_line [of _ input "CHR ''-''" "SanitizeError s"])
next
  case (3 p d i)
  then show ?case
    by (auto simp: decodes_def ParseInteger_to_string
        ParseValue_line [of _ input "CHR '':''" "to_string i"])
next
  case (4 p d s)
  then show ?case by (auto simp: decodes_def ParseValue_bulk)
next
  case (5 p d vs)
  then show ?case
    unfolding decodes_def [of _ _ _ "Array vs"]
    by (intro allI impI ParseValue_array) (auto simp: list_all_iff)
next
  case (6 p d)
  show ?case
    unfolding decodes_def
  proof (intro allI impI)
    fix c rest
    assume "drop c input = Encode Null @ rest"
    then have d: "drop c input = CHR ''$'' # ''-1'' @ CRLF @ rest" by simp
    note dd = drop_ConsD [OF d]
    then have "ReadLine input (Suc c) = kComplete (Suc c + 4) ''-1''"
      using ReadLine_line [of "Suc c" input "''-1''" rest] by simp
    with dd 6 show "ParseValue p input c d = kComplete (c + length (Encode Null)) (wire_value Null)"
      by (simp add: ParseValue.simps [of p input c d] ParseBulk_def ParseInteger_minus_one)
  qed
qed

subsection \<open>The contract of a framed codec\<close>

text \<open>
  What the clients of the parser (the message loop of main.cpp and the replay of the append-only
  file) rely on: a frame is read back whatever follows it, a decided answer does not change when
  more bytes arrive, and a complete answer consumes at least one byte and none that is not there.
\<close>

locale framed_codec =
  fixes decode :: "string \<Rightarrow> 'a ParseResult"
    and encode :: "'b \<Rightarrow> string"
    and valid :: "'b \<Rightarrow> bool"
    and received :: "'b \<Rightarrow> 'a"
  assumes decode_encode: "valid b \<Longrightarrow> decode (encode b @ rest) = kComplete (length (encode b)) (received b)"
    and decode_append: "decode xs \<noteq> kIncomplete \<Longrightarrow> decode (xs @ ys) = decode xs"
    and decode_bound: "decode xs = kComplete n a \<Longrightarrow> 0 < n \<and> n \<le> length xs"
begin

lemma prefix_incomplete:
  assumes "valid b" and "n < length (encode b)"
  shows "decode (take n (encode b)) = kIncomplete"
proof (rule ccontr)
  assume "decode (take n (encode b)) \<noteq> kIncomplete"
  then have "decode (take n (encode b) @ drop n (encode b)) = decode (take n (encode b))"
    by (rule decode_append)
  then have "decode (take n (encode b)) = kComplete (length (encode b)) (received b)"
    using decode_encode [OF assms(1), of "[]"] by simp
  with decode_bound assms(2) show False by fastforce
qed

lemma prefix_free:
  assumes "valid a" "valid b" and "encode a @ xs = encode b @ ys"
  shows "received a = received b \<and> xs = ys"
proof -
  have "kComplete (length (encode a)) (received a) = kComplete (length (encode b)) (received b)"
    using decode_encode [OF assms(1), of xs] decode_encode [OF assms(2), of ys] assms(3) by simp
  with assms(3) show ?thesis by simp
qed

lemma encode_nonempty: "valid b \<Longrightarrow> encode b \<noteq> []"
  using decode_encode [of b "[]"] decode_bound by fastforce

end

definition valid_command :: "Parser \<Rightarrow> string list \<Rightarrow> bool" where
  "valid_command p arguments \<longleftrightarrow> arguments \<noteq> [] \<and> encodable p 0 (Array (map BulkString arguments))"

lemma Parse_append: "Parse p xs \<noteq> kIncomplete \<Longrightarrow> Parse p (xs @ ys) = Parse p xs"
  by (simp add: Parse_def ParseValue_append)

lemma Parse_bound: "Parse p xs = kComplete n v \<Longrightarrow> 0 < n \<and> n \<le> length xs"
  unfolding Parse_def by (drule ParseValue_bound) simp

lemma Parse_decodes:
  "encodable p 0 v \<Longrightarrow> Parse p (Encode v @ rest) = kComplete (length (Encode v)) (wire_value v)"
  using encodable_decodes [of p 0 v "Encode v @ rest"] by (simp add: Parse_def decodes_def)

lemma string_arguments_BulkString [simp]:
  "string_arguments (map BulkString arguments) = Some arguments"
  by (induction arguments) simp_all

lemma wire_value_BulkStrings [simp]:
  "map (wire_value \<circ> BulkString) arguments = map BulkString arguments"
  by simp

lemma ParseCommand_decodes:
  assumes "valid_command p arguments"
  shows "ParseCommand p (EncodeCommand arguments @ rest) =
    kComplete (length (EncodeCommand arguments)) arguments"
  using assms Parse_decodes [of p "Array (map BulkString arguments)" rest]
  by (simp add: ParseCommand_def EncodeCommand_def valid_command_def)

lemma ParseCommand_append:
  "ParseCommand p xs \<noteq> kIncomplete \<Longrightarrow> ParseCommand p (xs @ ys) = ParseCommand p xs"
  using Parse_append [of p xs ys] by (auto simp: ParseCommand_def split: ParseResult.splits)

lemma ParseCommand_bound: "ParseCommand p xs = kComplete n a \<Longrightarrow> 0 < n \<and> n \<le> length xs"
  using ParseValue_bound [of p xs 0 0]
  by (auto simp: ParseCommand_def Parse_def split: ParseResult.splits Value.splits if_splits option.splits)

lemma ParseCommand_nonempty: "ParseCommand p xs = kComplete n a \<Longrightarrow> a \<noteq> []"
  by (auto simp: ParseCommand_def neq_Nil_conv
      split: ParseResult.splits Value.splits if_splits option.splits)

interpretation value_frames: framed_codec "Parse p" Encode "encodable p 0" wire_value for p
  by unfold_locales (auto simp: Parse_append Parse_decodes dest: Parse_bound)

interpretation command_frames: framed_codec "ParseCommand p" EncodeCommand "valid_command p" "\<lambda>a. a" for p
  by unfold_locales (auto simp: ParseCommand_append ParseCommand_decodes dest: ParseCommand_bound)

subsection \<open>Properties\<close>

text \<open>
  C15. Round trip of the RESP codec: for every value within the parser's limits, reading the
  bytes of \<open>Encode\<close>, whatever follows them in the buffer, consumes exactly those bytes and yields
  the value (an error comes back with its line breaks replaced).
\<close>

theorem Parse_Encode:
  assumes "encodable p 0 v"
  shows "Parse p (Encode v @ rest) = kComplete (length (Encode v)) (wire_value v)"
  using assms by (rule Parse_decodes)

theorem Parse_Encode_witness:
  "encodable default_parser 0 (Array [BulkString ''GET'', Integer (-7), Array [Null, ErrorValue (''E'' @ CRLF)]]) \<and>
   Parse default_parser (Encode (Array [BulkString ''GET'', Integer (-7), Array [Null, ErrorValue (''E'' @ CRLF)]]) @ ''*'') =
     kComplete 33 (Array [BulkString ''GET'', Integer (-7), Array [Null, ErrorValue ''E  '']])"
proof -
  let ?v = "Array [BulkString ''GET'', Integer (-7), Array [Null, ErrorValue (''E'' @ CRLF)]]"
  have h: "encodable default_parser 0 ?v"
    by (simp add: default_parser_def in_int64_def INT64_MIN_def INT64_MAX_def)
  have "length (Encode ?v) = 33" by code_simp
  with h Parse_Encode [OF h, of "''*''"] show ?thesis by (simp add: SanitizeError_def)
qed

text \<open>
  C16. No early verdict: take a value within the parser's limits whose simple strings hold no line break (\<open>encodable\<close>).  On every
  strict prefix of its encoding the parser asks for more input; it neither reports an error nor hands out a
  truncated value.  This is what makes split TCP reads safe.
\<close>

theorem Parse_prefix_incomplete:
  assumes "encodable p 0 v" and "n < length (Encode v)"
  shows "Parse p (take n (Encode v)) = kIncomplete"
  using assms by (rule value_frames.prefix_incomplete)

theorem Parse_prefix_incomplete_witness:
  "encodable default_parser 0 (BulkString ''hello'') \<and> 9 < length (Encode (BulkString ''hello'')) \<and>
   Parse default_parser (''$5'' @ CRLF @ ''hello'') = kIncomplete"
proof -
  have h: "encodable default_parser 0 (BulkString ''hello'')"
    by (simp add: default_parser_def in_int64_def INT64_MIN_def INT64_MAX_def)
  have e: "Encode (BulkString ''hello'') = ''$5'' @ CRLF @ ''hello'' @ CRLF" by code_simp
  show ?thesis using h e Parse_prefix_incomplete [OF h, of 9] by simp
qed

text \<open>
  C18. Stability: once the parser has decided (a complete value or a protocol error), bytes that
  arrive later do not change the decision, and a complete value consumes between one byte and all
  of the input.
\<close>

theorem Parse_stable:
  assumes "Parse p input \<noteq> kIncomplete"
  shows "Parse p (input @ later) = Parse p input \<and>
    (\<forall>n v. Parse p input = kComplete n v \<longrightarrow> 0 < n \<and> n \<le> length input)"
  using value_frames.decode_append [OF assms, of later] value_frames.decode_bound [of p input] by blast

theorem Parse_stable_witness:
  "Parse default_parser (''?x'' @ CRLF) = kError ''unknown RESP type byte'' \<and>
   Parse default_parser (''?x'' @ CRLF @ ''+OK'' @ CRLF) = kError ''unknown RESP type byte''"
proof -
  have e: "Parse default_parser (''?x'' @ CRLF) = kError ''unknown RESP type byte''"
    by (simp add: Parse_def ParseValue.simps default_parser_def)
  show ?thesis
    using e Parse_stable [of default_parser "''?x'' @ CRLF" "''+OK'' @ CRLF"] by simp
qed

text \<open>
  C17. Round trip of commands: what \<open>EncodeCommand\<close> writes for a nonempty command within the parser's limits
  (\<open>valid_command\<close>: the number of arguments and the length of each) \<open>ParseCommand\<close> reads back as the same arguments, whatever
  follows, and a torn record of such a command is reported as incomplete, never as corrupt.
\<close>

theorem ParseCommand_EncodeCommand:
  assumes "valid_command p arguments"
  shows "ParseCommand p (EncodeCommand arguments @ rest) =
      kComplete (length (EncodeCommand arguments)) arguments \<and>
    (\<forall>n. n < length (EncodeCommand arguments) \<longrightarrow>
      ParseCommand p (take n (EncodeCommand arguments)) = kIncomplete)"
  using command_frames.decode_encode [OF assms] command_frames.prefix_incomplete [OF assms] by simp

theorem ParseCommand_EncodeCommand_witness:
  "valid_command default_parser [''SET'', ''k'', ''''] \<and>
   ParseCommand default_parser (EncodeCommand [''SET'', ''k'', '''']) =
     kComplete 26 [''SET'', ''k'', ''''] \<and>
   ParseCommand default_parser (take 25 (EncodeCommand [''SET'', ''k'', ''''])) = kIncomplete"
proof -
  have h: "valid_command default_parser [''SET'', ''k'', '''']"
    by (simp add: valid_command_def default_parser_def in_int64_def INT64_MIN_def INT64_MAX_def)
  have "length (EncodeCommand [''SET'', ''k'', '''']) = 26" by code_simp
  with h ParseCommand_EncodeCommand [OF h, of "[]"] show ?thesis by auto
qed

end
