(* ===== verification/Transition_System.thy ===== *)
theory Transition_System
  imports Cachefly_Prelude
begin

text \<open>
  Partial step functions as transition systems.  A concurrent component is a function from an action
  (a call of one of its threads, or what the operating system answers) and a state to the next state,
  \<open>None\<close> where the action cannot happen; every interleaving is a list of actions.
\<close>

inductive reaches :: "('a \<Rightarrow> 's \<Rightarrow> 's option) \<Rightarrow> 's \<Rightarrow> 's \<Rightarrow> bool" for act s0 where
  reaches_start: "reaches act s0 s0"
| reaches_step: "reaches act s0 s \<Longrightarrow> act a s = Some s' \<Longrightarrow> reaches act s0 s'"

fun run_actions :: "('a \<Rightarrow> 's \<Rightarrow> 's option) \<Rightarrow> 'a list \<Rightarrow> 's \<Rightarrow> 's option" where
  "run_actions act [] s = Some s"
| "run_actions act (a # as) s = (case act a s of None \<Rightarrow> None | Some s' \<Rightarrow> run_actions act as s')"

lemma reaches_trans: "reaches act s1 s2 \<Longrightarrow> reaches act s0 s1 \<Longrightarrow> reaches act s0 s2"
  by (induction rule: reaches.induct) (auto intro: reaches_step)

lemma run_actions_reaches: "run_actions act as s = Some s' \<Longrightarrow> reaches act s s'"
proof (induction as arbitrary: s)
  case Nil
  then show ?case by (simp add: reaches_start)
next
  case (Cons a as)
  then obtain t where t: "act a s = Some t" "run_actions act as t = Some s'"
    by (auto split: option.splits)
  have "reaches act s t" by (rule reaches_step [where s = s and a = a]) (simp_all add: reaches_start t(1))
  with Cons.IH [OF t(2)] show ?case by (rule reaches_trans)
qed

lemma run_actions_append:
  "run_actions act (as @ bs) s = (case run_actions act as s of None \<Rightarrow> None | Some t \<Rightarrow> run_actions act bs t)"
  by (induction as arbitrary: s) (simp_all split: option.split)

lemma reaches_run_actions: "reaches act s0 s \<Longrightarrow> \<exists>as. run_actions act as s0 = Some s"
proof (induction rule: reaches.induct)
  case reaches_start
  show ?case by (rule exI [of _ "[]"]) simp
next
  case (reaches_step s a s')
  then obtain as where "run_actions act as s0 = Some s" by blast
  with reaches_step.hyps show ?case
    by (intro exI [of _ "as @ [a]"]) (simp add: run_actions_append)
qed

text \<open>An inductive invariant of a step function, and what it gives on every interleaving.\<close>

locale inductive_invariant =
  fixes act :: "'a \<Rightarrow> 's \<Rightarrow> 's option"
    and I :: "'s \<Rightarrow> bool"
  assumes step: "I s \<Longrightarrow> act a s = Some s' \<Longrightarrow> I s'"
begin

lemma on_reaches: "reaches act s0 s \<Longrightarrow> I s0 \<Longrightarrow> I s"
  by (induction rule: reaches.induct) (auto intro: step)

lemma on_runs: "run_actions act as s0 = Some s \<Longrightarrow> I s0 \<Longrightarrow> I s"
  by (blast intro: on_reaches run_actions_reaches)

end

end
