(* ===== verification/Async_Dispatcher.thy ===== *)
theory Async_Dispatcher
  imports Resp_Value Transition_System
begin

text \<open>
  The dispatcher between connections and the executor: src/include/cachefly/command/async_dispatcher.h
  and src/src/command/async_dispatcher.cpp, the thread pool included.

  Sessions are shared objects, so they live in a heap and everything else holds their address.  Every
  critical section of the code is one step; a thread that has left one and not yet entered the next
  keeps where it stands and what it holds in its program counter (\<open>client\<close> for the threads that call the
  dispatcher, \<open>worker\<close> for those of the pool).  \<open>Execute\<close> runs without a lock on the thread of the worker, from the step that
  takes a command to the one that has its response, while other workers may be inside it too; so what it returns or
  throws is not computed here but the label of that step, and everything shown holds for all results.  \<open>'r\<close> stands
  for the reply callbacks.  The last four fields of the dispatcher record what has happened and decide nothing.
\<close>

subsection \<open>State\<close>

record 'r PendingCommand =
  arguments :: "string list"
  reply :: 'r

record 'r Session =
  commands :: "'r PendingCommand list"
  running :: bool
  closed :: bool

definition new_Session :: "'r Session" where
  "new_Session = \<lparr>commands = [], running = False, closed = False\<rparr>"

type_synonym SessionId = uint64
type_synonym session_ptr = nat

text \<open>
  \<open>Idle\<close>: waiting in \<open>ThreadPool::Run\<close>.  \<open>Looping\<close>: at the top of the loop of \<open>RunSession\<close>.  \<open>Executing\<close>:
  holds the command it has popped.  \<open>Checking\<close>: has the response.  \<open>Replying\<close>: about to call the reply.
\<close>

datatype 'r worker =
    Idle
  | Looping session_ptr
  | Executing session_ptr "'r PendingCommand"
  | Checking session_ptr "'r PendingCommand" string
  | Replying session_ptr "'r PendingCommand" string
  | Left

datatype 'r client =
    Returned
  | Thrown std_exception
  | Closing session_ptr
  | Submitting session_ptr "'r PendingCommand"
  | Posting session_ptr
  | StoppingPool
  | Joining

record 'r dispatcher =
  sessions :: "SessionId \<Rightarrow> session_ptr option"
  stopped :: bool
  session_heap :: "session_ptr \<Rightarrow> 'r Session"
  next_ptr :: session_ptr
  tasks :: "session_ptr list"
  pool_stopping :: bool
  workers :: "'r worker list"
  clients :: "'r client list"
  submitted :: "session_ptr \<Rightarrow> 'r PendingCommand list"
  executed :: "(session_ptr \<times> 'r PendingCommand \<times> (std_exception + Value)) list"
  replied :: "session_ptr \<Rightarrow> ('r PendingCommand \<times> string) list"
  wedged :: "session_ptr \<Rightarrow> bool"

text \<open>\<open>n_clients\<close> threads will call it; \<open>has_executor\<close> is \<open>executor != nullptr\<close>.\<close>

definition new_AsyncDispatcher :: "nat \<Rightarrow> bool \<Rightarrow> nat \<Rightarrow> std_exception + 'r dispatcher" where
  "new_AsyncDispatcher n_clients has_executor thread_count =
     (if thread_count = 0 then Inl (invalid_argument ''thread pool must not be empty'')
      else if vector_limit < int thread_count then Inl (length_error ''vector::reserve'')
      else if \<not> has_executor then Inl (invalid_argument ''executor must not be null'')
      else Inr \<lparr>sessions = (\<lambda>_. None), stopped = False, session_heap = (\<lambda>_. new_Session), next_ptr = 0, tasks = [],
             pool_stopping = False, workers = replicate thread_count Idle, clients = replicate n_clients Returned,
             submitted = (\<lambda>_. []), executed = [], replied = (\<lambda>_. []), wedged = (\<lambda>_. False)\<rparr>)"

definition update_session :: "session_ptr \<Rightarrow> ('r Session \<Rightarrow> 'r Session) \<Rightarrow> 'r dispatcher \<Rightarrow> 'r dispatcher" where
  "update_session a f d = d\<lparr>session_heap := (session_heap d)(a := f (session_heap d a))\<rparr>"

subsection \<open>The calls\<close>

definition OpenSession :: "SessionId \<Rightarrow> 'r dispatcher \<Rightarrow> 'r client \<times> 'r dispatcher" where
  "OpenSession sid d =
     (if stopped d then (Thrown (runtime_error ''dispatcher is stopped''), d)
      else (Returned, d\<lparr>sessions := (sessions d)(sid \<mapsto> next_ptr d),
              session_heap := (session_heap d)(next_ptr d := new_Session), next_ptr := Suc (next_ptr d)\<rparr>))"

definition CloseSession :: "SessionId \<Rightarrow> 'r dispatcher \<Rightarrow> 'r client \<times> 'r dispatcher" where
  "CloseSession sid d =
     (case sessions d sid of
        None \<Rightarrow> (Returned, d)
      | Some a \<Rightarrow> (Closing a, d\<lparr>sessions := (sessions d)(sid := None)\<rparr>))"

definition disp_Submit :: "SessionId \<Rightarrow> string list \<Rightarrow> 'r \<Rightarrow> 'r dispatcher \<Rightarrow> 'r client \<times> 'r dispatcher" where
  "disp_Submit sid args callback d =
     (if stopped d then (Thrown (runtime_error ''dispatcher is stopped''), d)
      else case sessions d sid of
             None \<Rightarrow> (Returned, d)
           | Some a \<Rightarrow> (Submitting a \<lparr>arguments = args, reply = callback\<rparr>, d))"

definition disp_Stop :: "'r dispatcher \<Rightarrow> 'r client \<times> 'r dispatcher" where
  "disp_Stop d = (if stopped d then (Returned, d) else (StoppingPool, d\<lparr>stopped := True\<rparr>))"

definition enqueue :: "session_ptr \<Rightarrow> 'r PendingCommand \<Rightarrow> 'r dispatcher \<Rightarrow> 'r client \<times> 'r dispatcher" where
  "enqueue a c d =
     (let session = session_heap d a
      in if closed session then (Returned, d)
         else (if running session then Returned else Posting a,
               (update_session a (\<lambda>s. s\<lparr>commands := commands s @ [c], running := True\<rparr>) d)
                 \<lparr>submitted := (submitted d)(a := submitted d a @ [c])\<rparr>))"

definition pool_Post :: "session_ptr \<Rightarrow> 'r dispatcher \<Rightarrow> 'r client \<times> 'r dispatcher" where
  "pool_Post a d =
     (if pool_stopping d
      then (Thrown (runtime_error ''thread pool is stopping''), d\<lparr>wedged := (wedged d)(a := True)\<rparr>)
      else (Returned, d\<lparr>tasks := tasks d @ [a]\<rparr>))"

text \<open>\<open>join\<close> returns when every worker has left; \<open>None\<close> until then.\<close>

definition pool_Stop :: "'r dispatcher \<Rightarrow> 'r client \<times> 'r dispatcher" where
  "pool_Stop d = (Joining, d\<lparr>pool_stopping := True\<rparr>)"

definition pool_join :: "'r dispatcher \<Rightarrow> ('r client \<times> 'r dispatcher) option" where
  "pool_join d = (if \<forall>w \<in> set (workers d). w = Left then Some (Returned, d\<lparr>sessions := (\<lambda>_. None)\<rparr>) else None)"

text \<open>The next critical section of a call that has begun.\<close>

definition continue_call :: "'r client \<Rightarrow> 'r dispatcher \<Rightarrow> ('r client \<times> 'r dispatcher) option" where
  "continue_call c d =
     (case c of
        Returned \<Rightarrow> None
      | Thrown _ \<Rightarrow> None
      | Closing a \<Rightarrow> Some (Returned, update_session a (\<lambda>s. s\<lparr>closed := True, commands := []\<rparr>) d)
      | Submitting a pending \<Rightarrow> Some (enqueue a pending d)
      | Posting a \<Rightarrow> Some (pool_Post a d)
      | StoppingPool \<Rightarrow> Some (pool_Stop d)
      | Joining \<Rightarrow> pool_join d)"

subsection \<open>The workers\<close>

text \<open>The text of the response, from what \<open>Execute\<close> returned or threw.\<close>

definition response_text :: "std_exception + Value \<Rightarrow> string" where
  "response_text result =
     (case result of Inr v \<Rightarrow> Encode v | Inl _ \<Rightarrow> Encode (ErrorValue ''ERR internal server error''))"

definition pool_Run :: "'r dispatcher \<Rightarrow> ('r worker \<times> 'r dispatcher) option" where
  "pool_Run d =
     (case tasks d of
        a # rest \<Rightarrow> Some (Looping a, d\<lparr>tasks := rest\<rparr>)
      | [] \<Rightarrow> if pool_stopping d then Some (Left, d) else None)"

text \<open>
  \<open>RunSession\<close>, from one critical section to the next; \<open>result\<close>: what \<open>Execute\<close> returns or throws; \<open>throws\<close>: the reply
  callback throws.
\<close>

definition RunSession ::
    "std_exception + Value \<Rightarrow> bool \<Rightarrow> 'r worker \<Rightarrow> 'r dispatcher \<Rightarrow>
     ('r worker \<times> 'r dispatcher) option" where
  "RunSession result throws w d =
     (case w of
        Idle \<Rightarrow> pool_Run d
      | Left \<Rightarrow> None
      | Looping a \<Rightarrow>
          (let session = session_heap d a
           in if closed session then Some (Idle, update_session a (\<lambda>s. s\<lparr>running := False\<rparr>) d)
              else case commands session of
                     [] \<Rightarrow> Some (Idle, update_session a (\<lambda>s. s\<lparr>running := False\<rparr>) d)
                   | c # rest \<Rightarrow> Some (Executing a c, update_session a (\<lambda>s. s\<lparr>commands := rest\<rparr>) d))
      | Executing a c \<Rightarrow>
          Some (Checking a c (response_text result), d\<lparr>executed := executed d @ [(a, c, result)]\<rparr>)
      | Checking a c response \<Rightarrow>
          Some (if closed (session_heap d a) then Idle else Replying a c response, d)
      | Replying a c response \<Rightarrow>
          if throws then Some (Idle, d\<lparr>wedged := (wedged d)(a := True)\<rparr>)
          else Some (Looping a, d\<lparr>replied := (replied d)(a := replied d a @ [(c, response)])\<rparr>))"

subsection \<open>Interleavings\<close>

datatype 'r disp_action =
    CallOpen nat SessionId
  | CallClose nat SessionId
  | CallSubmit nat SessionId "string list" 'r
  | CallStop nat
  | Continue nat
  | WorkerTurn nat "std_exception + Value" bool

definition begin_call :: "nat \<Rightarrow> ('r dispatcher \<Rightarrow> 'r client \<times> 'r dispatcher) \<Rightarrow> 'r dispatcher \<Rightarrow>
    'r dispatcher option" where
  "begin_call i call d =
     (if i < length (clients d) \<and> (case clients d ! i of Returned \<Rightarrow> True | Thrown _ \<Rightarrow> True | _ \<Rightarrow> False)
      then (let (c, d') = call d in Some (d'\<lparr>clients := (clients d')[i := c]\<rparr>)) else None)"

fun disp_do :: "'r disp_action \<Rightarrow> 'r dispatcher \<Rightarrow> 'r dispatcher option" where
  "disp_do (CallOpen i sid) d = begin_call i (OpenSession sid) d"
| "disp_do (CallClose i sid) d = begin_call i (CloseSession sid) d"
| "disp_do (CallSubmit i sid args callback) d = begin_call i (disp_Submit sid args callback) d"
| "disp_do (CallStop i) d = begin_call i disp_Stop d"
| "disp_do (Continue i) d =
     (if i < length (clients d)
      then map_option (\<lambda>(c, d'). d'\<lparr>clients := (clients d')[i := c]\<rparr>) (continue_call (clients d ! i) d) else None)"
| "disp_do (WorkerTurn j result throws) d =
     (if j < length (workers d)
      then map_option (\<lambda>(w, d'). d'\<lparr>workers := (workers d')[j := w]\<rparr>) (RunSession result throws (workers d ! j) d) else None)"

end
