(* ===== verification/Dispatcher_Theorems.thy ===== *)
theory Dispatcher_Theorems
  imports Async_Dispatcher
begin

text \<open>
  The dispatcher over every interleaving of its clients and workers.  For each session, whoever may run
  it next holds a token: a task of the pool, a worker inside \<open>RunSession\<close>, or a client about to post.  The
  invariant bounds the tokens by one and follows every command from \<open>Submit\<close> to its reply.
\<close>

subsection \<open>Tokens and commands in flight\<close>

fun worker_token :: "session_ptr \<Rightarrow> 'r worker \<Rightarrow> nat" where
  "worker_token a (Looping b) = of_bool (a = b)"
| "worker_token a (Executing b c) = of_bool (a = b)"
| "worker_token a (Checking b c r) = of_bool (a = b)"
| "worker_token a (Replying b c r) = of_bool (a = b)"
| "worker_token a Idle = 0"
| "worker_token a Left = 0"

fun client_token :: "session_ptr \<Rightarrow> 'r client \<Rightarrow> nat" where
  "client_token a (Posting b) = of_bool (a = b)"
| "client_token a _ = 0"

fun holds :: "session_ptr \<Rightarrow> 'r worker \<Rightarrow> 'r PendingCommand list" where
  "holds a (Executing b c) = (if a = b then [c] else [])"
| "holds a (Checking b c r) = (if a = b then [c] else [])"
| "holds a (Replying b c r) = (if a = b then [c] else [])"
| "holds a _ = []"

fun answer :: "session_ptr \<Rightarrow> 'r worker \<Rightarrow> ('r PendingCommand \<times> string) list" where
  "answer a (Checking b c r) = (if a = b then [(c, r)] else [])"
| "answer a (Replying b c r) = (if a = b then [(c, r)] else [])"
| "answer a _ = []"

definition tokens :: "session_ptr \<Rightarrow> 'r dispatcher \<Rightarrow> nat" where
  "tokens a d = count_list (tasks d) a + sum_list (map (worker_token a) (workers d)) + sum_list (map (client_token a) (clients d))"

definition inflight :: "session_ptr \<Rightarrow> 'r dispatcher \<Rightarrow> 'r PendingCommand list" where
  "inflight a d = concat (map (holds a) (workers d))"

definition answers :: "session_ptr \<Rightarrow> 'r dispatcher \<Rightarrow> ('r PendingCommand \<times> string) list" where
  "answers a d = concat (map (answer a) (workers d))"

definition executed_of :: "session_ptr \<Rightarrow> 'r dispatcher \<Rightarrow> ('r PendingCommand \<times> string) list" where
  "executed_of a d = map (\<lambda>(b, c, result). (c, response_text result)) (filter (\<lambda>x. fst x = a) (executed d))"

lemma concat_update_same: "f (xs ! j) = f y \<Longrightarrow> concat (map f (xs[j := y])) = concat (map f xs)"
  by (metis list_update_id map_update)

lemma sum_list_single:
  fixes g :: "'a \<Rightarrow> nat"
  assumes "sum_list (map g xs) \<le> 1" and "j < length xs" and "g (xs ! j) = 1" and "\<And>x. g x = 0 \<Longrightarrow> f x = []"
  shows "concat (map f xs) = f (xs ! j)" and "concat (map f (xs[j := y])) = f y"
  using assms(1-3)
proof (induction xs arbitrary: j)
  case (Cons x xs)
  {
    case 1
    show ?case
    proof (cases j)
      case 0
      with 1 have "sum_list (map g xs) = 0" by simp
      then have "\<forall>z \<in> set xs. f z = []" using assms(4) by auto
      with 0 show ?thesis by simp
    next
      case (Suc i)
      with 1 have i: "i < length xs" "g (xs ! i) = 1" by auto
      then have "1 \<le> sum_list (map g xs)" by (metis elem_le_sum_list length_map nth_map)
      with 1 have "g x = 0" "sum_list (map g xs) \<le> 1" by auto
      with Cons.IH(1) [of i] i Suc assms(4) show ?thesis by simp
    qed
  next
    case 2
    show ?case
    proof (cases j)
      case 0
      with 2 have "sum_list (map g xs) = 0" by simp
      then have "\<forall>z \<in> set xs. f z = []" using assms(4) by auto
      with 0 show ?thesis by simp
    next
      case (Suc i)
      with 2 have i: "i < length xs" "g (xs ! i) = 1" by auto
      then have "1 \<le> sum_list (map g xs)" by (metis elem_le_sum_list length_map nth_map)
      with 2 have "g x = 0" "sum_list (map g xs) \<le> 1" by auto
      with Cons.IH(2) [of i] i Suc assms(4) show ?thesis by simp
    qed
  }
qed simp_all

lemma no_token_holds: "worker_token a w = 0 \<Longrightarrow> holds a w = []" and no_token_answer: "worker_token a w = 0 \<Longrightarrow> answer a w = []"
  by (cases w; simp)+

subsection \<open>The invariant of one session\<close>

definition sinv :: "nat \<Rightarrow> 'r Session \<Rightarrow> bool \<Rightarrow> 'r PendingCommand list \<Rightarrow> 'r PendingCommand list \<Rightarrow>
    ('r PendingCommand \<times> string) list \<Rightarrow> ('r PendingCommand \<times> string) list \<Rightarrow> ('r PendingCommand \<times> string) list \<Rightarrow> bool" where
  "sinv t s wed sub held ans rep exd \<longleftrightarrow>
     t \<le> (if running s then 1 else 0) \<and>
     (running s \<and> \<not> closed s \<and> \<not> wed \<longrightarrow> t = 1) \<and>
     (commands s \<noteq> [] \<longrightarrow> running s \<and> \<not> closed s) \<and>
     (\<exists>gone. sub = map fst rep @ held @ gone @ commands s \<and>
        (gone \<noteq> [] \<longrightarrow> closed s \<or> wed \<and> t = 0 \<and> running s)) \<and>
     (\<exists>dropped. exd = rep @ ans @ dropped \<and> (dropped \<noteq> [] \<longrightarrow> t = 0 \<and> (closed s \<or> running s)))"

definition session_ok :: "session_ptr \<Rightarrow> 'r dispatcher \<Rightarrow> bool" where
  "session_ok a d \<longleftrightarrow> sinv (tokens a d) (session_heap d a) (wedged d a) (submitted d a) (inflight a d) (answers a d)
     (replied d a) (executed_of a d)"

text \<open>A change of the pointers held by a client or of the state of a worker.\<close>

definition set_client :: "nat \<Rightarrow> 'r client \<Rightarrow> 'r dispatcher \<Rightarrow> 'r dispatcher" where
  "set_client i c d = d\<lparr>clients := (clients d)[i := c]\<rparr>"

definition set_worker :: "nat \<Rightarrow> 'r worker \<Rightarrow> 'r dispatcher \<Rightarrow> 'r dispatcher" where
  "set_worker j w d = d\<lparr>workers := (workers d)[j := w]\<rparr>"

lemma tokens_set_client:
  "i < length (clients d) \<Longrightarrow> tokens a (set_client i c d) + client_token a (clients d ! i) = tokens a d + client_token a c"
  using sum_list_update [of i "clients d" "client_token a" c] by (simp add: tokens_def set_client_def)

lemma tokens_set_worker:
  "j < length (workers d) \<Longrightarrow> tokens a (set_worker j w d) + worker_token a (workers d ! j) = tokens a d + worker_token a w"
  using sum_list_update [of j "workers d" "worker_token a" w] by (simp add: tokens_def set_worker_def)

lemma set_client_simps [simp]:
  "session_heap (set_client i c d) = session_heap d" "wedged (set_client i c d) = wedged d"
  "submitted (set_client i c d) = submitted d" "replied (set_client i c d) = replied d"
  "executed (set_client i c d) = executed d" "workers (set_client i c d) = workers d" "tasks (set_client i c d) = tasks d"
  "inflight a (set_client i c d) = inflight a d"
  "answers a (set_client i c d) = answers a d" "executed_of a (set_client i c d) = executed_of a d"
  "sessions (set_client i c d) = sessions d" "next_ptr (set_client i c d) = next_ptr d"
  "stopped (set_client i c d) = stopped d" "pool_stopping (set_client i c d) = pool_stopping d"
  by (simp_all add: set_client_def inflight_def answers_def executed_of_def)

lemma set_worker_simps [simp]:
  "session_heap (set_worker i c d) = session_heap d" "wedged (set_worker i c d) = wedged d"
  "submitted (set_worker i c d) = submitted d" "replied (set_worker i c d) = replied d"
  "executed (set_worker i c d) = executed d" "clients (set_worker i c d) = clients d" "tasks (set_worker i c d) = tasks d"
  "executed_of a (set_worker i c d) = executed_of a d"
  "sessions (set_worker i c d) = sessions d" "next_ptr (set_worker i c d) = next_ptr d"
  "stopped (set_worker i c d) = stopped d" "pool_stopping (set_worker i c d) = pool_stopping d"
  by (simp_all add: set_worker_def executed_of_def)

lemma session_ok_cong:
  assumes "tokens a d' = tokens a d" "session_heap d' a = session_heap d a" "wedged d' a = wedged d a"
    "submitted d' a = submitted d a" "inflight a d' = inflight a d" "answers a d' = answers a d"
    "replied d' a = replied d a" "executed_of a d' = executed_of a d"
  shows "session_ok a d' = session_ok a d"
  using assms by (simp add: session_ok_def)

lemma worker_other:
  assumes "j < length (workers d)" "worker_token a (workers d ! j) = 0" "worker_token a w = 0"
  shows "tokens a (set_worker j w d) = tokens a d" "inflight a (set_worker j w d) = inflight a d"
    "answers a (set_worker j w d) = answers a d"
  using tokens_set_worker [OF assms(1), of a w] assms
  by (simp_all add: inflight_def answers_def set_worker_def concat_update_same no_token_holds no_token_answer)

lemma worker_own:
  assumes "j < length (workers d)" "worker_token a (workers d ! j) = 1" "tokens a d \<le> 1"
  shows "tokens a d = 1" "tokens a (set_worker j w d) = worker_token a w"
    "inflight a d = holds a (workers d ! j)" "answers a d = answer a (workers d ! j)"
    "inflight a (set_worker j w d) = holds a w" "answers a (set_worker j w d) = answer a w"
proof -
  have le: "sum_list (map (worker_token a) (workers d)) \<le> 1" using assms(3) by (simp add: tokens_def)
  have "1 \<le> sum_list (map (worker_token a) (workers d))"
    using assms(1,2) by (metis elem_le_sum_list length_map nth_map)
  then show one: "tokens a d = 1" using assms(3) by (simp add: tokens_def)
  show "tokens a (set_worker j w d) = worker_token a w"
    using tokens_set_worker [OF assms(1), of a w] assms(2) one by simp
  show "inflight a d = holds a (workers d ! j)" "inflight a (set_worker j w d) = holds a w"
    using sum_list_single [OF le assms(1,2), of "holds a"] by (simp_all add: inflight_def set_worker_def no_token_holds)
  show "answers a d = answer a (workers d ! j)" "answers a (set_worker j w d) = answer a w"
    using sum_list_single [OF le assms(1,2), of "answer a"] by (simp_all add: answers_def set_worker_def no_token_answer)
qed

subsection \<open>Bounds on pointers\<close>

fun client_ptr :: "'r client \<Rightarrow> session_ptr option" where
  "client_ptr (Closing a) = Some a"
| "client_ptr (Submitting a c) = Some a"
| "client_ptr (Posting a) = Some a"
| "client_ptr _ = None"

definition allocated :: "'r dispatcher \<Rightarrow> bool" where
  "allocated d \<longleftrightarrow> (\<forall>sid a. sessions d sid = Some a \<longrightarrow> a < next_ptr d) \<and>
     (\<forall>c \<in> set (clients d). \<forall>a. client_ptr c = Some a \<longrightarrow> a < next_ptr d) \<and>
     (\<forall>a \<ge> next_ptr d. session_heap d a = new_Session)"

lemma sinv_new: "sinv t new_Session wed sub held ans rep exd \<Longrightarrow> t = 0"
  by (simp add: sinv_def new_Session_def)

subsection \<open>Steps of a session\<close>

lemma sinv_enqueue_running:
  "sinv t s wed sub held ans rep exd \<Longrightarrow> running s \<Longrightarrow> \<not> closed s \<Longrightarrow>
    sinv t (s\<lparr>commands := commands s @ [c], running := True\<rparr>) wed (sub @ [c]) held ans rep exd"
  by (auto simp: sinv_def)

lemma sinv_enqueue_start:
  "sinv t s wed sub held ans rep exd \<Longrightarrow> \<not> running s \<Longrightarrow> \<not> closed s \<Longrightarrow>
    t = 0 \<and> sinv 1 (s\<lparr>commands := commands s @ [c], running := True\<rparr>) wed (sub @ [c]) held ans rep exd"
  by (auto simp: sinv_def)

lemma sinv_close:
  "sinv t s wed sub held ans rep exd \<Longrightarrow> sinv t (s\<lparr>closed := True, commands := []\<rparr>) wed sub held ans rep exd"
  by (auto simp: sinv_def)

lemma sinv_post_fails:
  "sinv 1 s wed sub [] [] rep exd \<Longrightarrow> sinv 0 s True sub [] [] rep exd"
  by (auto simp: sinv_def split: if_splits)

lemma sinv_leave:
  "sinv 1 s wed sub [] [] rep exd \<Longrightarrow> closed s \<or> commands s = [] \<Longrightarrow>
    sinv 0 (s\<lparr>running := False\<rparr>) wed sub [] [] rep exd"
  by (auto simp: sinv_def split: if_splits)

lemma sinv_pop:
  "sinv 1 s wed sub [] [] rep exd \<Longrightarrow> \<not> closed s \<Longrightarrow> commands s = c # rest \<Longrightarrow>
    sinv 1 (s\<lparr>commands := rest\<rparr>) wed sub [c] [] rep exd"
  by (auto simp: sinv_def split: if_splits)

lemma sinv_execute:
  "sinv 1 s wed sub [c] [] rep exd \<Longrightarrow> sinv 1 s wed sub [c] [(c, r)] rep (exd @ [(c, r)])"
  by (auto simp: sinv_def)

lemma sinv_drop:
  assumes "sinv 1 s wed sub [c] [(c, r)] rep exd" and "closed s"
  shows "sinv 0 s wed sub [] [] rep exd"
proof -
  from assms obtain gone where "sub = map fst rep @ [] @ (c # gone) @ commands s" "exd = rep @ [] @ [(c, r)]"
    by (auto simp: sinv_def)
  with assms show ?thesis unfolding sinv_def by blast
qed

lemma sinv_reply:
  "sinv 1 s wed sub [c] [(c, r)] rep exd \<Longrightarrow> sinv 1 s wed sub [] [] (rep @ [(c, r)]) exd"
  by (auto simp: sinv_def)

lemma sinv_reply_throws:
  assumes "sinv 1 s wed sub [c] [(c, r)] rep exd"
  shows "sinv 0 s True sub [] [] rep exd"
proof -
  from assms obtain gone where "sub = map fst rep @ [] @ (c # gone) @ commands s" "exd = rep @ [] @ [(c, r)]"
    and run: "running s"
    by (auto simp: sinv_def split: if_splits)
  with assms show ?thesis unfolding sinv_def by (metis zero_le)
qed

subsection \<open>Workers\<close>

lemma update_session_simps [simp]:
  "session_heap (update_session b f d) a = (if a = b then f (session_heap d a) else session_heap d a)"
  "wedged (update_session b f d) = wedged d" "submitted (update_session b f d) = submitted d"
  "replied (update_session b f d) = replied d" "executed (update_session b f d) = executed d"
  "workers (update_session b f d) = workers d" "clients (update_session b f d) = clients d"
  "tasks (update_session b f d) = tasks d"
  "tokens a (update_session b f d) = tokens a d" "inflight a (update_session b f d) = inflight a d"
  "answers a (update_session b f d) = answers a d" "executed_of a (update_session b f d) = executed_of a d"
  "sessions (update_session b f d) = sessions d" "next_ptr (update_session b f d) = next_ptr d"
  "stopped (update_session b f d) = stopped d" "pool_stopping (update_session b f d) = pool_stopping d"
  by (simp_all add: update_session_def tokens_def inflight_def answers_def executed_of_def)

lemma ghost_simps [simp]:
  "tokens a (d\<lparr>executed := y\<rparr>) = tokens a d" "inflight a (d\<lparr>executed := y\<rparr>) = inflight a d"
  "answers a (d\<lparr>executed := y\<rparr>) = answers a d"
  "tokens a (d\<lparr>wedged := z\<rparr>) = tokens a d" "inflight a (d\<lparr>wedged := z\<rparr>) = inflight a d"
  "answers a (d\<lparr>wedged := z\<rparr>) = answers a d" "executed_of a (d\<lparr>wedged := z\<rparr>) = executed_of a d"
  "tokens a (d\<lparr>replied := u\<rparr>) = tokens a d" "inflight a (d\<lparr>replied := u\<rparr>) = inflight a d"
  "answers a (d\<lparr>replied := u\<rparr>) = answers a d" "executed_of a (d\<lparr>replied := u\<rparr>) = executed_of a d"
  by (simp_all add: tokens_def inflight_def answers_def executed_of_def)

lemma session_ok_bound: "session_ok a d \<Longrightarrow> tokens a d \<le> 1"
  by (auto simp: session_ok_def sinv_def split: if_splits)

lemma session_ok_worker:
  assumes ok: "session_ok a d" and j: "j < length (workers d)" and w: "worker_token a (workers d ! j) = 1"
  shows "sinv 1 (session_heap d a) (wedged d a) (submitted d a) (holds a (workers d ! j)) (answer a (workers d ! j))
    (replied d a) (executed_of a d)"
  using ok worker_own [OF j w session_ok_bound [OF ok]] by (simp add: session_ok_def)

lemma session_ok_worker_step:
  assumes ok: "session_ok a d" and j: "j < length (workers d)" and w: "worker_token a (workers d ! j) = 1"
    and same: "workers d' = workers d" "tokens a d' = tokens a d"
    and new: "sinv (worker_token a w') (session_heap d' a) (wedged d' a) (submitted d' a) (holds a w') (answer a w')
      (replied d' a) (executed_of a d')"
  shows "session_ok a (set_worker j w' d')"
proof -
  have "j < length (workers d')" "worker_token a (workers d' ! j) = 1" "tokens a d' \<le> 1"
    using j w same session_ok_bound [OF ok] by simp_all
  from worker_own [OF this] new same show ?thesis by (simp add: session_ok_def)
qed

lemma session_ok_other_worker:
  assumes ok: "session_ok a d" and j: "j < length (workers d)" and "worker_token a (workers d ! j) = 0" "worker_token a w' = 0"
    and "workers d' = workers d" "tokens a d' = tokens a d" "wedged d' a = wedged d a" "session_heap d' a = session_heap d a"
      "submitted d' a = submitted d a" "replied d' a = replied d a" "executed_of a d' = executed_of a d"
  shows "session_ok a (set_worker j w' d')"
proof -
  have "tokens a (set_worker j w' d') = tokens a d'" "inflight a (set_worker j w' d') = inflight a d'"
    "answers a (set_worker j w' d') = answers a d'"
    by (rule worker_other; use assms in simp)+
  moreover have "inflight a d' = inflight a d" "answers a d' = answers a d"
    using assms by (simp_all add: inflight_def answers_def)
  ultimately show ?thesis using assms by (simp add: session_ok_def)
qed

lemma worker_step_ok:
  assumes ok: "session_ok a d" and j: "j < length (workers d)"
    and step: "RunSession result throws (workers d ! j) d = Some (w', d')"
  shows "session_ok a (set_worker j w' d')"
proof (cases "workers d ! j")
  case Idle
  show ?thesis
  proof (cases "tasks d")
    case Nil
    with Idle step have "w' = Left" "d' = d" by (auto simp: RunSession_def pool_Run_def split: if_splits)
    then show ?thesis using session_ok_other_worker [OF ok j, of Left d] Idle by simp
  next
    case (Cons b rest)
    with Idle step have eq: "w' = Looping b" "d' = d\<lparr>tasks := rest\<rparr>" by (auto simp: RunSession_def pool_Run_def)
    have "tokens a (set_worker j w' d') = tokens a d"
      using tokens_set_worker [of j d' a w'] j Idle Cons by (simp add: eq tokens_def)
    moreover have "inflight a (set_worker j w' d') = inflight a d" "answers a (set_worker j w' d') = answers a d"
      using Idle by (simp_all add: eq inflight_def answers_def set_worker_def concat_update_same)
    ultimately show ?thesis using ok by (simp add: eq session_ok_def executed_of_def)
  qed
next
  case (Looping b)
  show ?thesis
  proof (cases "a = b")
    case True
    note okb = ok [unfolded True]
    have inv: "sinv 1 (session_heap d b) (wedged d b) (submitted d b) [] [] (replied d b) (executed_of b d)"
      using session_ok_worker [OF okb j] Looping by simp
    show ?thesis
      using step Looping True inv
      by (auto simp: RunSession_def Let_def simp del: One_nat_def
          intro!: session_ok_worker_step [OF okb j] sinv_leave sinv_pop split: if_splits list.splits)
  next
    case False
    with step Looping ok j show ?thesis
      by (auto simp: RunSession_def Let_def intro!: session_ok_other_worker [OF ok j] split: if_splits list.splits)
  qed
next
  case (Executing b c)
  with step have eq: "w' = Checking b c (response_text result)" "d' = d\<lparr>executed := executed d @ [(b, c, result)]\<rparr>"
    by (auto simp: RunSession_def)
  show ?thesis
  proof (cases "a = b")
    case True
    note okb = ok [unfolded True]
    have "sinv 1 (session_heap d b) (wedged d b) (submitted d b) [c] [] (replied d b) (executed_of b d)"
      using session_ok_worker [OF okb j] Executing by simp
    from sinv_execute [OF this, of "response_text result"] show ?thesis
      using True Executing
      by (auto simp: eq executed_of_def simp del: One_nat_def intro!: session_ok_worker_step [OF okb j])
  next
    case False
    with Executing show ?thesis
      by (auto simp: eq executed_of_def intro!: session_ok_other_worker [OF ok j])
  qed
next
  case (Checking b c r)
  with step have eq: "w' = (if closed (session_heap d b) then Idle else Replying b c r)" "d' = d"
    by (auto simp: RunSession_def)
  show ?thesis
  proof (cases "a = b")
    case True
    note okb = ok [unfolded True]
    have "sinv 1 (session_heap d b) (wedged d b) (submitted d b) [c] [(c, r)] (replied d b) (executed_of b d)"
      using session_ok_worker [OF okb j] Checking by simp
    with True Checking show ?thesis
      by (auto simp: eq simp del: One_nat_def intro!: session_ok_worker_step [OF okb j] intro: sinv_drop)
  next
    case False
    with Checking show ?thesis by (auto simp: eq intro!: session_ok_other_worker [OF ok j])
  qed
next
  case (Replying b c r)
  show ?thesis
  proof (cases "a = b")
    case True
    note okb = ok [unfolded True]
    have "sinv 1 (session_heap d b) (wedged d b) (submitted d b) [c] [(c, r)] (replied d b) (executed_of b d)"
      using session_ok_worker [OF okb j] Replying by simp
    with step True Replying show ?thesis
      by (auto simp: RunSession_def simp del: One_nat_def intro!: session_ok_worker_step [OF okb j] sinv_reply
          intro: sinv_reply_throws split: if_splits)
  next
    case False
    with step Replying show ?thesis
      by (auto simp: RunSession_def intro!: session_ok_other_worker [OF ok j] split: if_splits)
  qed
qed (use step in \<open>simp add: RunSession_def\<close>)

subsection \<open>Clients\<close>

lemma client_own:
  assumes i: "i < length (clients d)" and tok: "client_token a (clients d ! i) = 1" and le: "tokens a d \<le> 1"
  shows "tokens a d = 1" "inflight a d = []" "answers a d = []"
proof -
  have "1 \<le> sum_list (map (client_token a) (clients d))"
    using i tok by (metis elem_le_sum_list length_map nth_map)
  then have one: "tokens a d = 1 \<and> sum_list (map (worker_token a) (workers d)) = 0"
    using le unfolding tokens_def by linarith
  then have "\<forall>w \<in> set (workers d). worker_token a w = 0" by simp
  then show "tokens a d = 1" "inflight a d = []" "answers a d = []"
    using one by (auto simp: inflight_def answers_def no_token_holds no_token_answer)
qed

lemma session_ok_client_same:
  assumes "session_ok a d" "i < length (clients d)" "client_token a (clients d ! i) = 0" "client_token a c = 0"
    and "clients d' = clients d" "workers d' = workers d" "tasks d' = tasks d" "wedged d' a = wedged d a"
      "session_heap d' a = session_heap d a" "submitted d' a = submitted d a" "replied d' a = replied d a"
      "executed d' = executed d"
  shows "session_ok a (set_client i c d')"
proof -
  have "tokens a (set_client i c d') = tokens a d"
    using tokens_set_client [of i d' a c] assms by (simp add: tokens_def)
  then show ?thesis using assms by (simp add: session_ok_def inflight_def answers_def executed_of_def)
qed

lemma close_step_ok:
  assumes ok: "session_ok a d" and i: "i < length (clients d)" and c: "clients d ! i = Closing b"
  shows "session_ok a (set_client i Returned (update_session b (\<lambda>s. s\<lparr>closed := True, commands := []\<rparr>) d))"
    (is "session_ok a (set_client i Returned ?d)")
proof -
  have "tokens a (set_client i Returned ?d) = tokens a d"
    using tokens_set_client [of i ?d a Returned] i c by simp
  then show ?thesis using ok by (auto simp: session_ok_def intro: sinv_close)
qed

lemma enqueue_step_ok:
  assumes ok: "session_ok a d" and i: "i < length (clients d)" and c: "clients d ! i = Submitting b pend"
    and step: "enqueue b pend d = (c', d')"
  shows "session_ok a (set_client i c' d')"
proof -
  have same: "clients d' = clients d" "workers d' = workers d" "tasks d' = tasks d" "wedged d' = wedged d"
    "replied d' = replied d" "executed d' = executed d"
    using step by (auto simp: enqueue_def Let_def split: if_splits)
  have flight: "inflight a d' = inflight a d" "answers a d' = answers a d" "executed_of a d' = executed_of a d" "tokens a d' = tokens a d"
    using same by (simp_all add: inflight_def answers_def executed_of_def tokens_def)
  have tok: "tokens a (set_client i c' d') = tokens a d + client_token a c'"
    using tokens_set_client [of i d' a c'] i c same flight by simp
  show ?thesis
  proof (cases "a = b \<and> \<not> closed (session_heap d b)")
    case True
    then have heap: "session_heap d' a = (session_heap d a)\<lparr>commands := commands (session_heap d a) @ [pend], running := True\<rparr>"
      and sub: "submitted d' a = submitted d a @ [pend]"
      and c': "c' = (if running (session_heap d a) then Returned else Posting a)"
      using step by (auto simp: enqueue_def Let_def)
    note inv = ok [unfolded session_ok_def]
    have nc: "\<not> closed (session_heap d a)" using True by blast
    show ?thesis
    proof (cases "running (session_heap d a)")
      case run: True
      from sinv_enqueue_running [OF inv run nc, of pend] show ?thesis
        using tok c' run by (simp add: session_ok_def same flight heap sub)
    next
      case idle: False
      from sinv_enqueue_start [OF inv idle nc, of pend] show ?thesis
        using tok c' idle by (simp add: session_ok_def same flight heap sub)
    qed
  next
    case False
    then have "session_heap d' a = session_heap d a" "submitted d' a = submitted d a" "client_token a c' = 0"
      using step by (auto simp: enqueue_def Let_def split: if_splits)
    with ok tok show ?thesis by (simp add: session_ok_def same flight)
  qed
qed

lemma post_step_ok:
  assumes ok: "session_ok a d" and i: "i < length (clients d)" and c: "clients d ! i = Posting b"
    and step: "pool_Post b d = (c', d')"
  shows "session_ok a (set_client i c' d')"
proof (cases "pool_stopping d")
  case False
  with step have eq: "c' = Returned" "d' = d\<lparr>tasks := tasks d @ [b]\<rparr>" by (auto simp: pool_Post_def)
  have "tokens a (set_client i c' d') = tokens a d"
    using tokens_set_client [of i d' a c'] i c by (simp add: eq tokens_def of_bool_def split: if_splits)
  with ok show ?thesis by (simp add: eq session_ok_def inflight_def answers_def executed_of_def)
next
  case True
  with step obtain ex where eq: "c' = Thrown ex" "d' = d\<lparr>wedged := (wedged d)(b := True)\<rparr>" by (auto simp: pool_Post_def)
  show ?thesis
  proof (cases "a = b")
    case same: True
    have tok: "client_token a (clients d ! i) = 1" using c same by simp
    note own = client_own [OF i tok session_ok_bound [OF ok]]
    have "tokens a (set_client i c' d') = 0"
      using tokens_set_client [of i d' a c'] i tok own(1) by (simp add: eq)
    moreover have "sinv 0 (session_heap d a) True (submitted d a) [] [] (replied d a) (executed_of a d)"
      using ok own by (intro sinv_post_fails) (simp add: session_ok_def)
    ultimately show ?thesis using own same by (simp add: eq session_ok_def)
  next
    case False
    with ok i c show ?thesis by (auto simp: eq intro!: session_ok_client_same [OF ok i])
  qed
qed

lemma continue_step_ok:
  assumes ok: "session_ok a d" and i: "i < length (clients d)" and step: "continue_call (clients d ! i) d = Some (c', d')"
  shows "session_ok a (set_client i c' d')"
proof (cases "clients d ! i")
  case (Closing b)
  with step close_step_ok [OF ok i Closing] show ?thesis by (auto simp: continue_call_def)
next
  case (Submitting b pend)
  with step enqueue_step_ok [OF ok i Submitting] show ?thesis by (auto simp: continue_call_def)
next
  case (Posting b)
  with step post_step_ok [OF ok i Posting] show ?thesis by (auto simp: continue_call_def)
next
  case StoppingPool
  with step show ?thesis
    by (auto simp: continue_call_def pool_Stop_def intro!: session_ok_client_same [OF ok i])
next
  case Joining
  with step show ?thesis
    by (auto simp: continue_call_def pool_join_def intro!: session_ok_client_same [OF ok i] split: if_splits)
qed (use step in \<open>simp_all add: continue_call_def\<close>)

subsection \<open>The whole dispatcher\<close>

definition disp_inv :: "'r dispatcher \<Rightarrow> bool" where
  "disp_inv d \<longleftrightarrow> allocated d \<and> (\<forall>a. session_ok a d)"

lemma allocated_cong:
  "allocated d \<Longrightarrow> sessions d' = sessions d \<Longrightarrow> clients d' = clients d \<Longrightarrow> next_ptr d' = next_ptr d \<Longrightarrow>
    \<forall>a \<ge> next_ptr d. session_heap d' a = session_heap d a \<Longrightarrow> allocated d'"
  by (simp add: allocated_def)

lemma allocated_client:
  assumes "allocated d" and "\<And>sid a. sessions d' sid = Some a \<Longrightarrow> a < next_ptr d"
    and "clients d' = clients d" and "next_ptr d' = next_ptr d" and "\<forall>a \<ge> next_ptr d. session_heap d' a = session_heap d a"
    and "\<And>a. client_ptr c = Some a \<Longrightarrow> a < next_ptr d"
  shows "allocated (set_client i c d')"
proof -
  have "\<forall>c' \<in> set ((clients d)[i := c]). \<forall>a. client_ptr c' = Some a \<longrightarrow> a < next_ptr d"
    using assms(1,6) set_update_subset_insert [of "clients d" i c] unfolding allocated_def by blast
  then show ?thesis
    using assms unfolding allocated_def by (simp add: set_client_def)
qed

lemma allocated_worker:
  assumes "allocated d" and "\<forall>a. session_ok a d" and "j < length (workers d)" and "RunSession result throws (workers d ! j) d = Some (w', d')"
  shows "allocated (set_worker j w' d')"
proof -
  have "a < next_ptr d" if "worker_token a (workers d ! j) = 1" for a
  proof (rule ccontr)
    assume "\<not> a < next_ptr d"
    then have "sinv 1 new_Session (wedged d a) (submitted d a) (holds a (workers d ! j)) (answer a (workers d ! j))
        (replied d a) (executed_of a d)"
      using session_ok_worker [OF _ assms(3) that] assms(1,2) by (simp add: allocated_def)
    then show False by (auto dest: sinv_new)
  qed
  then have bound: "workers d ! j = Looping b \<Longrightarrow> b < next_ptr d" for b by simp
  show ?thesis
  proof (rule allocated_cong [OF assms(1)])
    show "\<forall>a \<ge> next_ptr d. session_heap (set_worker j w' d') a = session_heap d a"
    proof (cases "workers d ! j")
      case (Looping b)
      then have "\<exists>f. d' = update_session b f d"
        using assms(4) by (auto simp: RunSession_def Let_def split: list.splits if_splits)
      with bound [OF Looping] show ?thesis by auto
    qed (use assms(4) in \<open>auto simp: RunSession_def pool_Run_def Let_def split: list.splits if_splits prod.splits\<close>)
  qed (use assms(4) in \<open>auto simp: RunSession_def pool_Run_def Let_def split: worker.splits list.splits if_splits prod.splits\<close>)
qed

lemma continue_step_inv:
  assumes inv: "disp_inv d" and i: "i < length (clients d)" and step: "continue_call (clients d ! i) d = Some (c', d')"
  shows "disp_inv (set_client i c' d')"
proof -
  have al: "allocated d" and ptr: "\<And>a. client_ptr (clients d ! i) = Some a \<Longrightarrow> a < next_ptr d"
    and ses: "\<And>sid a. sessions d sid = Some a \<Longrightarrow> a < next_ptr d"
    using inv nth_mem [OF i] by (auto simp: disp_inv_def allocated_def)
  have "allocated (set_client i c' d')"
    using step ptr ses
    by (intro allocated_client [OF al])
      (auto simp: continue_call_def enqueue_def Let_def pool_Post_def pool_Stop_def pool_join_def split: client.splits if_splits)
  then show ?thesis
    using inv continue_step_ok [OF _ i step] by (simp add: disp_inv_def)
qed

lemma begin_step_inv:
  assumes inv: "disp_inv d" and step: "begin_call i call d = Some d'"
    and call: "call = OpenSession sid \<or> call = CloseSession sid \<or> call = disp_Submit sid args callback \<or> call = disp_Stop"
  shows "disp_inv d'"
proof -
  obtain c d1 where c: "call d = (c, d1)" by fastforce
  with step have i: "i < length (clients d)" and old: "client_token a (clients d ! i) = 0"
    and d': "d' = set_client i c d1" for a
    by (auto simp: begin_call_def set_client_def split: if_splits client.splits)
  have al: "allocated d" and fresh: "session_heap d (next_ptr d) = new_Session"
    and ses: "\<And>sid a. sessions d sid = Some a \<Longrightarrow> a < next_ptr d"
    using inv by (auto simp: disp_inv_def allocated_def)
  have same: "clients d1 = clients d" "workers d1 = workers d" "tasks d1 = tasks d" "wedged d1 = wedged d"
      "submitted d1 = submitted d" "replied d1 = replied d" "executed d1 = executed d"
      "session_heap d1 = session_heap d" and tok: "client_token a c = 0" for a
    using c call fresh
    by (auto simp: OpenSession_def CloseSession_def disp_Submit_def disp_Stop_def fun_upd_idem split: if_splits option.splits)
  have "session_ok a d'" for a
    unfolding d' using inv same by (intro session_ok_client_same [OF _ i old tok]) (simp_all add: disp_inv_def)
  moreover have "allocated d'"
  proof (cases "call = OpenSession sid \<and> \<not> stopped d")
    case True
    then have "sessions d1 = (sessions d)(sid \<mapsto> next_ptr d)" "next_ptr d1 = Suc (next_ptr d)" "c = Returned"
      using c by (auto simp: OpenSession_def)
    moreover have "\<forall>c' \<in> set ((clients d)[i := Returned]). \<forall>a. client_ptr c' = Some a \<longrightarrow> a < Suc (next_ptr d)"
      using al set_update_subset_insert [of "clients d" i Returned] by (fastforce simp: allocated_def)
    ultimately show ?thesis
      using al same by (auto simp: allocated_def d' set_client_def less_Suc_eq split: if_splits)
  next
    case False
    then have "sessions d1 = (sessions d)(sid := None) \<or> sessions d1 = sessions d" "next_ptr d1 = next_ptr d"
      and "\<And>a. client_ptr c = Some a \<Longrightarrow> sessions d sid = Some a"
      using c call
      by (auto simp: OpenSession_def CloseSession_def disp_Submit_def disp_Stop_def split: if_splits option.splits)
    with ses have "\<And>x a. sessions d1 x = Some a \<Longrightarrow> a < next_ptr d" "next_ptr d1 = next_ptr d"
      "\<And>a. client_ptr c = Some a \<Longrightarrow> a < next_ptr d"
      by (auto split: if_splits)
    with same show ?thesis unfolding d' by (intro allocated_client [OF al]) simp_all
  qed
  ultimately show ?thesis by (simp add: disp_inv_def)
qed

interpretation disp_machine: inductive_invariant disp_do disp_inv
proof
  fix d a d'
  assume inv: "disp_inv d" and step: "disp_do a d = Some d'"
  show "disp_inv d'"
  proof (cases a)
    case (Continue i)
    with step obtain c' d1 where i: "i < length (clients d)" "continue_call (clients d ! i) d = Some (c', d1)"
      and d': "d' = set_client i c' d1"
      by (auto simp: set_client_def split: if_splits)
    show ?thesis unfolding d' by (rule continue_step_inv [OF inv i])
  next
    case (WorkerTurn j result throws)
    with step obtain w' d1 where j: "j < length (workers d)" "RunSession result throws (workers d ! j) d = Some (w', d1)"
      and d': "d' = set_worker j w' d1"
      by (auto simp: set_worker_def split: if_splits)
    show ?thesis
      unfolding d' disp_inv_def
      using inv allocated_worker [OF _ _ j] worker_step_ok [OF _ j] by (simp add: disp_inv_def)
  next
    case (CallOpen i sid)
    with step begin_step_inv [OF inv, of i "OpenSession sid" d' sid] show ?thesis by simp
  next
    case (CallClose i sid)
    with step begin_step_inv [OF inv, of i "CloseSession sid" d' sid] show ?thesis by simp
  next
    case (CallSubmit i sid args callback)
    with step begin_step_inv [OF inv, of i "disp_Submit sid args callback" d' sid args callback] show ?thesis by simp
  next
    case (CallStop i)
    with step begin_step_inv [OF inv, of i disp_Stop d'] show ?thesis by simp
  qed
qed

lemma disp_inv_start: "new_AsyncDispatcher n ok threads = Inr d \<Longrightarrow> disp_inv d"
  by (auto simp: new_AsyncDispatcher_def disp_inv_def allocated_def session_ok_def sinv_def new_Session_def
      tokens_def inflight_def answers_def executed_of_def split: if_splits)

subsection \<open>Progress of the pool\<close>

fun worker_weight :: "'r worker \<Rightarrow> nat" where
  "worker_weight Left = 0"
| "worker_weight Idle = 1"
| "worker_weight (Looping a) = 2"
| "worker_weight (Replying a c r) = 3"
| "worker_weight (Checking a c r) = 4"
| "worker_weight (Executing a c) = 5"

definition pool_work :: "'r dispatcher \<Rightarrow> nat" where
  "pool_work d = 4 * (\<Sum>a < next_ptr d. length (commands (session_heap d a))) + 2 * length (tasks d) +
     sum_list (map worker_weight (workers d))"

lemma commands_sum_update:
  "b < n \<Longrightarrow> (\<Sum>a < n. f (g a)) + f x = (\<Sum>a < n. f ((g(b := x)) a)) + f (g b)" for f :: "'a \<Rightarrow> nat" and n :: nat
  by (subst (1 2) sum.remove [of "{..<n}" b]) (auto intro: sum.cong)

lemma pool_work_turn:
  assumes inv: "disp_inv d" and j: "j < length (workers d)"
    and step: "RunSession result throws (workers d ! j) d = Some (w', d')"
  shows "pool_work (set_worker j w' d') < pool_work d"
proof -
  have ww: "sum_list (map worker_weight ((workers d)[j := w'])) + worker_weight (workers d ! j) =
      sum_list (map worker_weight (workers d)) + worker_weight w'"
    by (rule sum_list_update [OF j])
  show ?thesis
  proof (cases "workers d ! j")
    case Idle
    with step ww show ?thesis
      by (auto simp: RunSession_def pool_Run_def pool_work_def set_worker_def split: list.splits if_splits)
  next
    case (Looping b)
    have ok: "session_ok b d" using inv by (simp add: disp_inv_def)
    have b: "b < next_ptr d"
    proof (rule ccontr)
      assume "\<not> b < next_ptr d"
      then have "sinv 1 new_Session (wedged d b) (submitted d b) [] [] (replied d b) (executed_of b d)"
        using session_ok_worker [OF ok j] Looping inv by (simp add: disp_inv_def allocated_def)
      then show False by (auto dest: sinv_new)
    qed
    let ?x = "session_heap d' b"
    from step Looping have d': "d' = d\<lparr>session_heap := (session_heap d)(b := ?x)\<rparr>"
      and x: "commands ?x = commands (session_heap d b) \<and> w' = Idle \<or>
        (\<exists>c. commands (session_heap d b) = c # commands ?x \<and> w' = Executing b c)"
      by (auto simp: RunSession_def Let_def update_session_def split: list.splits if_splits)
    have "(\<Sum>a < next_ptr d. length (commands (session_heap d a))) + length (commands ?x) =
        (\<Sum>a < next_ptr d. length (commands (((session_heap d)(b := ?x)) a))) + length (commands (session_heap d b))"
      using commands_sum_update [OF b, of "\<lambda>s. length (commands s)" "session_heap d" ?x] by simp
    moreover have "session_heap d' = (session_heap d)(b := ?x)" "tasks d' = tasks d" "next_ptr d' = next_ptr d" "workers d' = workers d"
      by (subst d', simp)+
    ultimately show ?thesis
      using x ww Looping by (auto simp: pool_work_def set_worker_def)
  next
    case (Executing b c)
    with step ww show ?thesis
      by (auto simp: RunSession_def pool_work_def set_worker_def split: prod.splits)
  next
    case (Checking b c r)
    with step ww show ?thesis
      by (auto simp: RunSession_def pool_work_def set_worker_def split: if_splits)
  next
    case (Replying b c r)
    with step ww show ?thesis
      by (auto simp: RunSession_def pool_work_def set_worker_def split: if_splits)
  qed (use step in \<open>simp add: RunSession_def\<close>)
qed

text \<open>A worker leaves only when the pool is stopping and no task is left, and none is posted after that.\<close>

definition pool_ok :: "'r dispatcher \<Rightarrow> bool" where
  "pool_ok d \<longleftrightarrow> workers d \<noteq> [] \<and> (Left \<in> set (workers d) \<longrightarrow> pool_stopping d \<and> tasks d = [])"

interpretation pool_machine: inductive_invariant disp_do pool_ok
proof
  fix d a d'
  assume inv: "pool_ok d" and step: "disp_do a d = Some d'"
  have client: "workers d1 = workers d \<and> (pool_stopping d \<longrightarrow> pool_stopping d1 \<and> tasks d1 = tasks d)"
    if "continue_call c d = Some (c', d1)" for c c' d1
    using that
    by (auto simp: continue_call_def enqueue_def Let_def pool_Post_def pool_Stop_def pool_join_def split: client.splits if_splits)
  show "pool_ok d'"
  proof (cases a)
    case (Continue i)
    with step client inv show ?thesis by (fastforce simp: pool_ok_def split: if_splits)
  next
    case (WorkerTurn j result throws)
    with step obtain w' d1 where j: "j < length (workers d)" "RunSession result throws (workers d ! j) d = Some (w', d1)"
      and d': "d' = set_worker j w' d1"
      by (auto simp: set_worker_def split: if_splits)
    have "workers d1 = workers d" "pool_stopping d1 = pool_stopping d" "tasks d = [] \<longrightarrow> tasks d1 = []"
      "w' = Left \<longrightarrow> pool_stopping d \<and> tasks d = []"
      using j(2) by (auto simp: RunSession_def pool_Run_def Let_def split: worker.splits list.splits if_splits prod.splits)
    moreover have "Left \<in> set ((workers d)[j := w']) \<Longrightarrow> Left \<in> set (workers d) \<or> w' = Left"
      using set_update_subset_insert [of "workers d" j w'] by auto
    ultimately show ?thesis using inv by (auto simp: pool_ok_def d' set_worker_def)
  qed (use step inv in \<open>auto simp: begin_call_def OpenSession_def CloseSession_def disp_Submit_def disp_Stop_def pool_ok_def
      Let_def split: if_splits option.splits prod.splits\<close>)
qed

lemma pool_ok_start: "new_AsyncDispatcher n ok threads = Inr d \<Longrightarrow> pool_ok d"
  by (auto simp: new_AsyncDispatcher_def pool_ok_def split: if_splits)

lemma turn_enabled:
  assumes "j < length (workers d)" and "workers d ! j \<noteq> Left" and "workers d ! j = Idle \<Longrightarrow> tasks d \<noteq> []"
  shows "disp_do (WorkerTurn j result throws) d \<noteq> None"
  using assms by (cases "workers d ! j") (auto simp: RunSession_def pool_Run_def Let_def split: list.splits prod.splits)

lemma quiescent_tokens:
  assumes pool: "pool_ok d" and workers: "\<forall>j result throws. disp_do (WorkerTurn j result throws) d = None"
    and clients: "\<forall>i. disp_do (Continue i) d = None"
  shows "tokens a d = 0"
proof -
  have w: "workers d ! j = Left \<or> workers d ! j = Idle \<and> tasks d = []" if "j < length (workers d)" for j
    using turn_enabled [OF that, of _ True] workers by metis
  have ne: "0 < length (workers d)" using pool by (simp add: pool_ok_def)
  have "Left \<in> set (workers d)" if "workers d ! 0 = Left" using ne that by (metis nth_mem)
  with w [OF ne] pool have tasks: "tasks d = []" by (auto simp: pool_ok_def)
  have "\<forall>x \<in> set (workers d). worker_token a x = 0"
    using w by (metis in_set_conv_nth worker_token.simps(5,6))
  moreover have "\<forall>c \<in> set (clients d). client_token a c = 0"
  proof
    fix c assume "c \<in> set (clients d)"
    then obtain i where "i < length (clients d)" "clients d ! i = c" by (metis in_set_conv_nth)
    with clients [rule_format, of i] show "client_token a c = 0" by (cases c) (auto simp: continue_call_def)
  qed
  ultimately show ?thesis by (simp add: tokens_def tasks)
qed

subsection \<open>Properties\<close>

definition sample_dispatcher :: "nat dispatcher" where
  "sample_dispatcher = (case new_AsyncDispatcher 1 True 2 of Inr d \<Rightarrow> d)"

definition sample_turn :: "int \<Rightarrow> nat disp_action" where
  "sample_turn i = WorkerTurn 0 (Inr (Integer i)) False"

definition sample_turns :: "nat disp_action list" where
  "sample_turns = [CallOpen 0 7, CallSubmit 0 7 [''A''] 1, Continue 0, Continue 0, CallSubmit 0 7 [''B''] 2, sample_turn 1,
     sample_turn 2, Continue 0, sample_turn 5, sample_turn 3, sample_turn 4, sample_turn 4]"

definition sample_dispatched :: "nat disp_action list \<Rightarrow> nat dispatcher" where
  "sample_dispatched as = the (run_actions disp_do as sample_dispatcher)"

lemma sample_dispatcher: "new_AsyncDispatcher 1 True 2 = Inr sample_dispatcher"
  by (simp add: sample_dispatcher_def new_AsyncDispatcher_def vector_limit_def)

lemma sample_dispatched_reaches:
  "run_actions disp_do as sample_dispatcher \<noteq> None \<Longrightarrow> reaches disp_do sample_dispatcher (sample_dispatched as)"
  by (auto simp: sample_dispatched_def intro: run_actions_reaches)

lemmas sample_disp_defs = sample_dispatched_def sample_turns_def sample_turn_def sample_dispatcher_def new_AsyncDispatcher_def
  vector_limit_def begin_call_def OpenSession_def CloseSession_def disp_Submit_def disp_Stop_def continue_call_def enqueue_def
  update_session_def pool_Post_def RunSession_def pool_Run_def response_text_def new_Session_def Let_def

text \<open>
  C10. Replies come back in order: in every state of every interleaving of clients and workers, and whatever the calls of
  \<open>Execute\<close>, which run at the same time on several workers, return or throw, the replies delivered to a session answer the first
  commands submitted to it, one each, in the order of submission; each is the encoded result of the call of \<open>Execute\<close> for that
  very command, or an internal error if that call threw.
\<close>

theorem replies_in_submission_order:
  assumes "new_AsyncDispatcher n True threads = Inr d0" and "reaches disp_do d0 d"
  shows "(\<exists>rest. submitted d a = map fst (replied d a) @ rest) \<and>
    (\<exists>rest. map (\<lambda>(b, c, result). (c, response_text result)) (filter (\<lambda>x. fst x = a) (executed d)) = replied d a @ rest)"
proof -
  have inv: "disp_inv d"
    by (rule disp_machine.on_reaches [OF assms(2)]) (rule disp_inv_start [OF assms(1)])
  then have "sinv (tokens a d) (session_heap d a) (wedged d a) (submitted d a) (inflight a d) (answers a d) (replied d a) (executed_of a d)"
    by (simp add: disp_inv_def session_ok_def)
  then show ?thesis
    unfolding sinv_def executed_of_def by blast
qed

theorem replies_in_submission_order_witness:
  "replied (sample_dispatched sample_turns) 0 = [(\<lparr>arguments = [''A''], reply = 1\<rparr>, '':5'' @ CRLF)] \<and>
   submitted (sample_dispatched sample_turns) 0 = [\<lparr>arguments = [''A''], reply = 1\<rparr>, \<lparr>arguments = [''B''], reply = 2\<rparr>] \<and>
   (\<exists>rest. submitted (sample_dispatched sample_turns) 0 = map fst (replied (sample_dispatched sample_turns) 0) @ rest)"
proof -
  have e: "to_string 5 = ''5''" by code_simp
  have run: "run_actions disp_do sample_turns sample_dispatcher \<noteq> None"
    and r: "replied (sample_dispatched sample_turns) 0 = [(\<lparr>arguments = [''A''], reply = 1\<rparr>, '':5'' @ CRLF)]"
    and s: "submitted (sample_dispatched sample_turns) 0 = [\<lparr>arguments = [''A''], reply = 1\<rparr>, \<lparr>arguments = [''B''], reply = 2\<rparr>]"
    by (simp_all add: sample_disp_defs numeral_2_eq_2 e)
  show ?thesis
    using r s replies_in_submission_order [OF sample_dispatcher sample_dispatched_reaches [OF run], of 0] by blast
qed

fun runs_session :: "'r worker \<Rightarrow> session_ptr option" where
  "runs_session (Looping a) = Some a"
| "runs_session (Executing a c) = Some a"
| "runs_session (Checking a c r) = Some a"
| "runs_session (Replying a c r) = Some a"
| "runs_session _ = None"

lemma runs_session_token: "runs_session w = Some a \<Longrightarrow> worker_token a w = 1"
  by (cases w) auto

lemma two_tokens:
  fixes g :: "'a \<Rightarrow> nat"
  assumes "i < length xs" "j < length xs" "i \<noteq> j" "g (xs ! i) = 1" "g (xs ! j) = 1"
  shows "2 \<le> sum_list (map g xs)"
proof -
  have "{i, j} \<subseteq> {0..<length xs}" using assms by auto
  then have "(\<Sum>k \<in> {i, j}. g (xs ! k)) \<le> (\<Sum>k = 0..<length xs. g (xs ! k))" by (intro sum_mono2) auto
  then show ?thesis using assms by (simp add: sum_list_sum_nth)
qed

text \<open>
  A session is run by one worker at a time: no interleaving puts two workers into \<open>RunSession\<close> for the
  same session, which is what keeps its commands in order.
\<close>

theorem one_worker_per_session:
  assumes "new_AsyncDispatcher n True threads = Inr d0" and "reaches disp_do d0 d"
    and "i < length (workers d)" and "j < length (workers d)"
    and "runs_session (workers d ! i) = Some a" and "runs_session (workers d ! j) = Some a"
  shows "i = j"
proof (rule ccontr)
  assume "i \<noteq> j"
  then have "2 \<le> sum_list (map (worker_token a) (workers d))"
    using two_tokens [OF assms(3,4), of "worker_token a"] assms(5,6) runs_session_token by blast
  then have "2 \<le> tokens a d" by (simp add: tokens_def)
  moreover have "disp_inv d"
    by (rule disp_machine.on_reaches [OF assms(2)]) (rule disp_inv_start [OF assms(1)])
  ultimately show False using session_ok_bound [of a d] by (simp add: disp_inv_def)
qed

theorem one_worker_per_session_witness:
  "runs_session (workers (sample_dispatched sample_turns) ! 0) = Some 0 \<and>
   runs_session (workers (sample_dispatched sample_turns) ! 1) \<noteq> Some 0"
proof -
  have run: "run_actions disp_do sample_turns sample_dispatcher \<noteq> None"
    and w: "length (workers (sample_dispatched sample_turns)) = 2"
    and r: "runs_session (workers (sample_dispatched sample_turns) ! 0) = Some 0"
    by (simp_all add: sample_disp_defs numeral_2_eq_2)
  have "runs_session (workers (sample_dispatched sample_turns) ! 1) \<noteq> Some 0"
  proof
    assume "runs_session (workers (sample_dispatched sample_turns) ! 1) = Some 0"
    from one_worker_per_session [OF sample_dispatcher sample_dispatched_reaches [OF run], of 0 1 0] w r this
    show False by simp
  qed
  with r show ?thesis by blast
qed

text \<open>
  C35. No command is forgotten: every turn of a worker leaves less to do, so the pool comes to rest when
  nothing more is submitted; and when no thread can take a step, every session that is neither closed nor
  wedged (by a post to a stopping pool or a reply that throws) has had a reply to every command submitted.
\<close>

theorem pool_serves_every_command:
  assumes "new_AsyncDispatcher n True threads = Inr d0" and "reaches disp_do d0 d"
  shows "(\<forall>j result throws d'. disp_do (WorkerTurn j result throws) d = Some d' \<longrightarrow> pool_work d' < pool_work d) \<and>
    ((\<forall>j result throws. disp_do (WorkerTurn j result throws) d = None) \<and> (\<forall>i. disp_do (Continue i) d = None) \<longrightarrow>
      (\<forall>a. \<not> closed (session_heap d a) \<and> \<not> wedged d a \<longrightarrow> map fst (replied d a) = submitted d a))"
proof (intro conjI allI impI)
  have inv: "disp_inv d"
    by (rule disp_machine.on_reaches [OF assms(2)]) (rule disp_inv_start [OF assms(1)])
  {
    fix j result throws d'
    assume "disp_do (WorkerTurn j result throws) d = Some d'"
    then obtain w' d1 where "j < length (workers d)" "RunSession result throws (workers d ! j) d = Some (w', d1)"
      "d' = set_worker j w' d1"
      by (auto simp: set_worker_def split: if_splits)
    then show "pool_work d' < pool_work d" using pool_work_turn [OF inv] by blast
  next
    fix a
    assume rest: "(\<forall>j result throws. disp_do (WorkerTurn j result throws) d = None) \<and> (\<forall>i. disp_do (Continue i) d = None)"
      and live: "\<not> closed (session_heap d a) \<and> \<not> wedged d a"
    have "pool_ok d" by (rule pool_machine.on_reaches [OF assms(2)]) (rule pool_ok_start [OF assms(1)])
    then have zero: "tokens a d = 0" using quiescent_tokens [of d a] rest by blast
    then have "\<forall>w \<in> set (workers d). worker_token a w = 0" by (simp add: tokens_def)
    then have "inflight a d = []" by (auto simp: inflight_def no_token_holds)
    moreover have "session_ok a d" using inv by (simp add: disp_inv_def)
    ultimately show "map fst (replied d a) = submitted d a"
      using zero live by (auto simp: session_ok_def sinv_def)
  }
qed

theorem pool_serves_every_command_witness:
  "map fst (replied (sample_dispatched (sample_turns @ replicate 4 (sample_turn 6))) 0) =
     [\<lparr>arguments = [''A''], reply = 1\<rparr>, \<lparr>arguments = [''B''], reply = 2\<rparr>]"
proof -
  let ?d = "sample_dispatched (sample_turns @ replicate 4 (sample_turn 6))"
  have run: "run_actions disp_do (sample_turns @ replicate 4 (sample_turn 6)) sample_dispatcher \<noteq> None"
    and w: "workers ?d = [Idle, Idle]" "tasks ?d = []" "\<not> pool_stopping ?d" "clients ?d = [Returned]"
      "\<not> closed (session_heap ?d 0)" "\<not> wedged ?d 0"
      "submitted ?d 0 = [\<lparr>arguments = [''A''], reply = 1\<rparr>, \<lparr>arguments = [''B''], reply = 2\<rparr>]"
    by (simp_all add: sample_disp_defs numeral_eq_Suc)
  have "\<forall>j result throws. disp_do (WorkerTurn j result throws) ?d = None"
    using w by (auto simp: less_Suc_eq RunSession_def pool_Run_def)
  moreover have "\<forall>i. disp_do (Continue i) ?d = None"
    using w by (auto simp: continue_call_def)
  ultimately have "map fst (replied ?d 0) = submitted ?d 0"
    using pool_serves_every_command [OF sample_dispatcher sample_dispatched_reaches [OF run]] w(5,6) by blast
  with w(7) show ?thesis by simp
qed

end
