(* ===== verification/Buffer.thy ===== *)
theory Buffer
  imports Cachefly_Prelude
begin

text \<open>
  The byte buffer of a connection: src/include/cachefly/net/buffer.h and src/src/net/buffer.cpp.
  \<open>storage_\<close> is the content of the vector, bytes beyond \<open>writer_index_\<close> included; the indices are
  natural numbers because they never pass the size of the vector.  What \<open>readv\<close> and \<open>write\<close> answer is an
  argument: \<open>Inl\<close> the value of \<open>errno\<close>.
\<close>

record Buffer =
  storage :: string
  reader_index :: nat
  writer_index :: nat

definition new_Buffer :: "nat \<Rightarrow> Buffer" where
  "new_Buffer initial_size = \<lparr>storage = replicate initial_size (CHR 0x00), reader_index = 0, writer_index = 0\<rparr>"

definition ReadableBytes :: "Buffer \<Rightarrow> nat" where
  "ReadableBytes b = writer_index b - reader_index b"

definition WritableBytes :: "Buffer \<Rightarrow> nat" where
  "WritableBytes b = length (storage b) - writer_index b"

definition View :: "Buffer \<Rightarrow> string" where
  "View b = take (ReadableBytes b) (drop (reader_index b) (storage b))"

definition RetrieveAll :: "Buffer \<Rightarrow> Buffer" where
  "RetrieveAll b = b\<lparr>reader_index := 0, writer_index := 0\<rparr>"

definition Retrieve :: "nat \<Rightarrow> Buffer \<Rightarrow> std_exception + Buffer" where
  "Retrieve n b =
     (if n > ReadableBytes b then Inl (out_of_range ''buffer retrieve exceeds readable bytes'')
      else if n = ReadableBytes b then Inr (RetrieveAll b)
      else Inr (b\<lparr>reader_index := reader_index b + n\<rparr>))"

definition RetrieveAllAsString :: "Buffer \<Rightarrow> string \<times> Buffer" where
  "RetrieveAllAsString b = (View b, RetrieveAll b)"

text \<open>\<open>std::copy\<close> into the vector at an offset, and \<open>std::vector::resize\<close>.\<close>

definition overwrite :: "nat \<Rightarrow> string \<Rightarrow> string \<Rightarrow> string" where
  "overwrite i bytes xs = take i xs @ bytes @ drop (i + length bytes) xs"

definition resize :: "nat \<Rightarrow> string \<Rightarrow> string" where
  "resize n xs = take n xs @ replicate (n - length xs) (CHR 0x00)"

definition EnsureWritable :: "nat \<Rightarrow> Buffer \<Rightarrow> Buffer" where
  "EnsureWritable n b =
     (if WritableBytes b \<ge> n then b
      else if reader_index b + WritableBytes b \<ge> n
      then b\<lparr>storage := overwrite 0 (View b) (storage b), reader_index := 0, writer_index := ReadableBytes b\<rparr>
      else b\<lparr>storage := resize (writer_index b + n) (storage b)\<rparr>)"

definition buf_Append :: "string \<Rightarrow> Buffer \<Rightarrow> Buffer" where
  "buf_Append data b =
     (let b1 = EnsureWritable (length data) b
      in b1\<lparr>storage := overwrite (writer_index b1) data (storage b1), writer_index := writer_index b1 + length data\<rparr>)"

definition extra_size :: nat where
  "extra_size = 65536"

text \<open>The room \<open>readv\<close> is offered.\<close>

definition readv_room :: "Buffer \<Rightarrow> nat" where
  "readv_room b = (if WritableBytes b < extra_size then WritableBytes b + extra_size else WritableBytes b)"

definition ReadFd :: "int + string \<Rightarrow> Buffer \<Rightarrow> (int + nat) \<times> Buffer" where
  "ReadFd answer b =
     (case answer of
        Inl errno \<Rightarrow> (Inl errno, b)
      | Inr bytes \<Rightarrow>
          (let writable = WritableBytes b;
               b1 = b\<lparr>storage := overwrite (writer_index b) (take writable bytes) (storage b)\<rparr>
           in (Inr (length bytes),
               if length bytes \<le> writable then b1\<lparr>writer_index := writer_index b1 + length bytes\<rparr>
               else buf_Append (drop writable bytes) (b1\<lparr>writer_index := length (storage b1)\<rparr>))))"

definition WriteFd :: "int + nat \<Rightarrow> Buffer \<Rightarrow> (std_exception + (int + nat)) \<times> Buffer" where
  "WriteFd answer b =
     (case answer of
        Inl errno \<Rightarrow> (Inr (Inl errno), b)
      | Inr n \<Rightarrow>
          (case Retrieve n b of
             Inl ex \<Rightarrow> (Inl ex, b)
           | Inr b' \<Rightarrow> (Inr (Inr n), b')))"

subsection \<open>Well-formedness\<close>

definition buf_wf :: "Buffer \<Rightarrow> bool" where
  "buf_wf b \<longleftrightarrow> reader_index b \<le> writer_index b \<and> writer_index b \<le> length (storage b)"

lemma buf_wf_new [simp]: "buf_wf (new_Buffer n)" and View_new [simp]: "View (new_Buffer n) = []"
  by (simp_all add: buf_wf_def new_Buffer_def View_def ReadableBytes_def)

lemma length_View: "buf_wf b \<Longrightarrow> length (View b) = ReadableBytes b"
  by (auto simp: View_def buf_wf_def ReadableBytes_def)

lemma RetrieveAll_spec [simp]: "buf_wf (RetrieveAll b)" "View (RetrieveAll b) = []"
  by (simp_all add: RetrieveAll_def buf_wf_def View_def ReadableBytes_def)

lemma Retrieve_spec:
  assumes "buf_wf b" and "n \<le> length (View b)"
  obtains b' where "Retrieve n b = Inr b'" "buf_wf b'" "View b' = drop n (View b)"
proof (cases "n = ReadableBytes b")
  case True
  with assms that [of "RetrieveAll b"] show thesis by (simp add: Retrieve_def length_View)
next
  case False
  let ?b = "b\<lparr>reader_index := reader_index b + n\<rparr>"
  have lt: "n < ReadableBytes b" using False assms by (simp add: length_View)
  then have "buf_wf ?b" using assms(1) by (simp add: buf_wf_def ReadableBytes_def)
  moreover have "View ?b = drop n (View b)"
    using lt by (simp add: View_def ReadableBytes_def drop_take add.commute)
  ultimately show thesis using that [of ?b] lt by (simp add: Retrieve_def)
qed

lemma EnsureWritable_spec:
  assumes "buf_wf b"
  shows "buf_wf (EnsureWritable n b)" "View (EnsureWritable n b) = View b" "n \<le> WritableBytes (EnsureWritable n b)"
proof -
  have len: "length (View b) = ReadableBytes b" using assms by (rule length_View)
  have "buf_wf (EnsureWritable n b) \<and> View (EnsureWritable n b) = View b \<and> n \<le> WritableBytes (EnsureWritable n b)"
  proof (cases "WritableBytes b \<ge> n")
    case True
    with assms show ?thesis by (simp add: EnsureWritable_def)
  next
    case False
    show ?thesis
    proof (cases "reader_index b + WritableBytes b \<ge> n")
      case True
      with False assms len show ?thesis
        by (auto simp: EnsureWritable_def buf_wf_def overwrite_def WritableBytes_def ReadableBytes_def View_def)
    next
      case grow: False
      with False assms show ?thesis
        by (auto simp: EnsureWritable_def buf_wf_def WritableBytes_def ReadableBytes_def View_def resize_def)
    qed
  qed
  then show "buf_wf (EnsureWritable n b)" "View (EnsureWritable n b) = View b" "n \<le> WritableBytes (EnsureWritable n b)"
    by auto
qed

lemma write_at_end:
  assumes "buf_wf b" and "length data \<le> WritableBytes b"
  shows "buf_wf (b\<lparr>storage := overwrite (writer_index b) data (storage b), writer_index := writer_index b + length data\<rparr>)"
    and "View (b\<lparr>storage := overwrite (writer_index b) data (storage b), writer_index := writer_index b + length data\<rparr>) =
      View b @ data"
  using assms by (auto simp: buf_wf_def overwrite_def WritableBytes_def View_def ReadableBytes_def drop_take)

lemma buf_Append_spec:
  assumes "buf_wf b"
  shows "buf_wf (buf_Append data b)" "View (buf_Append data b) = View b @ data"
  using write_at_end [OF EnsureWritable_spec(1,3) [OF assms, of "length data"]] EnsureWritable_spec(2) [OF assms]
  by (simp_all add: buf_Append_def Let_def)

lemma ReadFd_spec:
  assumes wf: "buf_wf b" and read: "ReadFd answer b = (r, b')"
  shows "buf_wf b' \<and> (case answer of Inl errno \<Rightarrow> r = Inl errno \<and> b' = b
    | Inr bytes \<Rightarrow> r = Inr (length bytes) \<and> View b' = View b @ bytes)"
proof (cases answer)
  case (Inl errno)
  with assms show ?thesis by (simp add: ReadFd_def)
next
  case (Inr bytes)
  let ?w = "WritableBytes b"
  let ?b1 = "b\<lparr>storage := overwrite (writer_index b) (take ?w bytes) (storage b), writer_index := writer_index b + length (take ?w bytes)\<rparr>"
  have b1: "buf_wf ?b1" "View ?b1 = View b @ take ?w bytes" by (rule write_at_end [OF wf]; simp)+
  show ?thesis
  proof (cases "length bytes \<le> ?w")
    case True
    with b1 Inr read show ?thesis by (auto simp: ReadFd_def Let_def)
  next
    case False
    have "length (overwrite (writer_index b) (take ?w bytes) (storage b)) = writer_index b + length (take ?w bytes)"
      using wf False by (simp add: overwrite_def buf_wf_def WritableBytes_def)
    then have b': "b' = buf_Append (drop ?w bytes) ?b1" and "r = Inr (length bytes)"
      using Inr read False by (auto simp: ReadFd_def Let_def)
    then show ?thesis using buf_Append_spec [OF b1(1), of "drop ?w bytes"] b1(2) Inr by simp
  qed
qed

lemma WriteFd_spec:
  assumes wf: "buf_wf b" and wr: "WriteFd answer b = (r, b')" and "\<And>n. answer = Inr n \<Longrightarrow> n \<le> length (View b)"
  shows "buf_wf b' \<and> r = Inr answer \<and> View b' = (case answer of Inl errno \<Rightarrow> View b | Inr n \<Rightarrow> drop n (View b))"
proof (cases answer)
  case (Inl errno)
  with assms show ?thesis by (simp add: WriteFd_def)
next
  case (Inr n)
  obtain b1 where "Retrieve n b = Inr b1" "buf_wf b1" "View b1 = drop n (View b)"
    by (rule Retrieve_spec [OF wf assms(3) [OF Inr]])
  with Inr wr show ?thesis by (auto simp: WriteFd_def)
qed

subsection \<open>The buffer as a byte queue\<close>

text \<open>What the connections and the message loops rely on.\<close>

locale byte_queue =
  fixes wf :: "'b \<Rightarrow> bool"
    and view :: "'b \<Rightarrow> string"
    and append :: "string \<Rightarrow> 'b \<Rightarrow> 'b"
    and retrieve :: "nat \<Rightarrow> 'b \<Rightarrow> std_exception + 'b"
    and clear :: "'b \<Rightarrow> 'b"
  assumes append: "wf b \<Longrightarrow> wf (append d b) \<and> view (append d b) = view b @ d"
    and retrieve: "wf b \<Longrightarrow> n \<le> length (view b) \<Longrightarrow> \<exists>b'. retrieve n b = Inr b' \<and> wf b' \<and> view b' = drop n (view b)"
    and clear: "wf b \<Longrightarrow> wf (clear b) \<and> view (clear b) = []"
begin

lemma retrieve_front: "wf b \<Longrightarrow> view b = d @ rest \<Longrightarrow> \<exists>b'. retrieve (length d) b = Inr b' \<and> wf b' \<and> view b' = rest"
  using retrieve [of b "length d"] by auto

lemma append_retrieve:
  assumes "wf b" and "n \<le> length (view b)"
  shows "\<exists>b1 b2. retrieve n (append d b) = Inr b1 \<and> retrieve n b = Inr b2 \<and> wf b1 \<and> view b1 = view (append d b2)"
proof -
  obtain b2 where b2: "retrieve n b = Inr b2" "wf b2" "view b2 = drop n (view b)"
    using retrieve [OF assms] by blast
  obtain b1 where "retrieve n (append d b) = Inr b1" "wf b1" "view b1 = drop n (view b @ d)"
    using retrieve [of "append d b" n] append [OF assms(1), of d] assms(2) by auto
  with b2 append [OF b2(2), of d] assms(2) show ?thesis by auto
qed

end

interpretation buffer: byte_queue buf_wf View buf_Append Retrieve RetrieveAll
  by unfold_locales (auto simp: buf_Append_spec intro: Retrieve_spec)

datatype buf_op =
    OpAppend string
  | OpRetrieve nat
  | OpRetrieveAll
  | OpRead "int + string"
  | OpWrite "int + nat"

datatype buf_result = Threw std_exception | Errno int | Bytes nat | Text string | Void

fun buf_do :: "buf_op \<Rightarrow> Buffer \<Rightarrow> buf_result \<times> Buffer" where
  "buf_do (OpAppend data) b = (Void, buf_Append data b)"
| "buf_do (OpRetrieve n) b = (case Retrieve n b of Inl ex \<Rightarrow> (Threw ex, b) | Inr b' \<Rightarrow> (Void, b'))"
| "buf_do OpRetrieveAll b = (case RetrieveAllAsString b of (text, b') \<Rightarrow> (Text text, b'))"
| "buf_do (OpRead answer) b = (case ReadFd answer b of (Inl errno, b') \<Rightarrow> (Errno errno, b') | (Inr n, b') \<Rightarrow> (Bytes n, b'))"
| "buf_do (OpWrite answer) b =
     (case WriteFd answer b of
        (Inl ex, b') \<Rightarrow> (Threw ex, b') | (Inr (Inl errno), b') \<Rightarrow> (Errno errno, b') | (Inr (Inr n), b') \<Rightarrow> (Bytes n, b'))"

text \<open>The specification: a queue of bytes.\<close>

definition queue_drop :: "buf_result \<Rightarrow> nat \<Rightarrow> string \<Rightarrow> buf_result \<times> string" where
  "queue_drop r n q =
     (if n > length q then (Threw (out_of_range ''buffer retrieve exceeds readable bytes''), q) else (r, drop n q))"

fun queue_do :: "buf_op \<Rightarrow> string \<Rightarrow> buf_result \<times> string" where
  "queue_do (OpAppend data) q = (Void, q @ data)"
| "queue_do (OpRetrieve n) q = queue_drop Void n q"
| "queue_do OpRetrieveAll q = (Text q, [])"
| "queue_do (OpRead (Inl errno)) q = (Errno errno, q)"
| "queue_do (OpRead (Inr bytes)) q = (Bytes (length bytes), q @ bytes)"
| "queue_do (OpWrite (Inl errno)) q = (Errno errno, q)"
| "queue_do (OpWrite (Inr n)) q = queue_drop (Bytes n) n q"

fun run_ops :: "('op \<Rightarrow> 's \<Rightarrow> 'r \<times> 's) \<Rightarrow> 'op list \<Rightarrow> 's \<Rightarrow> 'r list \<times> 's" where
  "run_ops do [] s = ([], s)"
| "run_ops do (op # ops) s = (let (r, s1) = do op s; (rs, s2) = run_ops do ops s1 in (r # rs, s2))"

lemma Retrieve_drop:
  fixes r :: buf_result and n :: nat
  assumes "buf_wf b"
  shows "(case Retrieve n b of
      Inl ex \<Rightarrow> queue_drop r n (View b) = (Threw ex, View b)
    | Inr b' \<Rightarrow> buf_wf b' \<and> queue_drop r n (View b) = (r, View b'))"
proof (cases "n \<le> length (View b)")
  case True
  with buffer.retrieve [OF assms True] show ?thesis by (auto simp: queue_drop_def)
next
  case False
  with assms show ?thesis by (simp add: queue_drop_def Retrieve_def length_View)
qed

lemma buf_do_refines:
  assumes "buf_wf b" and "buf_do op b = (r, b')"
  shows "buf_wf b' \<and> queue_do op (View b) = (r, View b')"
proof (cases op)
  case (OpAppend data)
  with assms show ?thesis by (auto simp: buf_Append_spec)
next
  case (OpRetrieve n)
  with assms Retrieve_drop [OF assms(1), where n = n and r = Void] show ?thesis by (auto split: sum.splits)
next
  case OpRetrieveAll
  with assms show ?thesis by (auto simp: RetrieveAllAsString_def)
next
  case (OpRead answer)
  obtain x b1 where "ReadFd answer b = (x, b1)" by fastforce
  with assms OpRead ReadFd_spec [OF assms(1), of answer x b1] show ?thesis by (auto split: sum.splits)
next
  case (OpWrite answer)
  show ?thesis
  proof (cases answer)
    case (Inl errno)
    with assms OpWrite show ?thesis by (auto simp: WriteFd_def)
  next
    case (Inr n)
    with assms OpWrite Retrieve_drop [OF assms(1), where n = n and r = "Bytes n"] show ?thesis
      by (auto simp: WriteFd_def split: sum.splits)
  qed
qed

subsection \<open>Properties\<close>

text \<open>
  C30. The buffer is a byte queue: for every initial size and every sequence of appends, retrievals,
  reads from and writes to a descriptor, each operation returns, throws or reports what it would on a
  plain queue of bytes, and \<open>View\<close> is that queue.  Moving the content to the front, growing the vector
  and the overflow area of \<open>ReadFd\<close> are not visible.
\<close>

theorem Buffer_refines_queue:
  "(let (rs, b) = run_ops buf_do ops (new_Buffer initial_size)
    in buf_wf b \<and> run_ops queue_do ops [] = (rs, View b))"
proof -
  have "buf_wf b \<Longrightarrow> (let (rs, b') = run_ops buf_do ops b in buf_wf b' \<and> run_ops queue_do ops (View b) = (rs, View b'))" for b
  proof (induction ops arbitrary: b)
    case Nil
    then show ?case by simp
  next
    case (Cons op ops)
    obtain r b1 where step: "buf_do op b = (r, b1)" by fastforce
    have "buf_wf b1 \<and> queue_do op (View b) = (r, View b1)" by (rule buf_do_refines [OF Cons.prems step])
    with Cons.IH [of b1] step show ?case by (auto simp: Let_def split: prod.splits)
  qed
  from this [of "new_Buffer initial_size"] show ?thesis by simp
qed

end
