(* ===== verification/Event_Loop.thy ===== *)
theory Event_Loop
  imports Cachefly_Prelude Transition_System
begin

text \<open>
  Channels and the event loop: src/include/cachefly/net/channel.h, src/src/net/channel.cpp,
  src/include/cachefly/net/event_loop.h and src/src/net/event_loop.cpp.

  The kernel's side of epoll is its interest list, with the errors that \<open>epoll_ctl\<close> documents for adding
  twice and for changing what is not there; any other failure of the call is its argument \<open>fault\<close>.
\<close>

unbundle bit_operations_syntax

subsection \<open>Channel\<close>

type_synonym uint32 = "32 word"

definition EPOLLIN :: uint32 where "EPOLLIN = 0x001"
definition EPOLLPRI :: uint32 where "EPOLLPRI = 0x002"
definition EPOLLOUT :: uint32 where "EPOLLOUT = 0x004"
definition EPOLLERR :: uint32 where "EPOLLERR = 0x008"
definition EPOLLHUP :: uint32 where "EPOLLHUP = 0x010"
definition EPOLLRDHUP :: uint32 where "EPOLLRDHUP = 0x2000"

definition kReadEvents :: uint32 where
  "kReadEvents = (EPOLLIN OR EPOLLPRI) OR EPOLLRDHUP"

definition kWriteEvent :: uint32 where
  "kWriteEvent = EPOLLOUT"

record Channel =
  ch_fd :: int
  ch_events :: uint32
  added_to_loop :: bool

definition new_Channel :: "int \<Rightarrow> Channel" where
  "new_Channel fd = \<lparr>ch_fd = fd, ch_events = 0, added_to_loop = False\<rparr>"

definition IsWriting :: "Channel \<Rightarrow> bool" where
  "IsWriting ch \<longleftrightarrow> ch_events ch AND kWriteEvent \<noteq> 0"

definition HasNoEvents :: "Channel \<Rightarrow> bool" where
  "HasNoEvents ch \<longleftrightarrow> ch_events ch = 0"

text \<open>
  \<open>HandleEvent\<close> runs callbacks one after the other on the same state; an empty \<open>std::function\<close> is the
  identity.
\<close>

record 's channel_callbacks =
  read_callback :: "'s \<Rightarrow> 's"
  write_callback :: "'s \<Rightarrow> 's"
  close_callback :: "'s \<Rightarrow> 's"
  error_callback :: "'s \<Rightarrow> 's"

definition HandleEvent :: "'s channel_callbacks \<Rightarrow> uint32 \<Rightarrow> 's \<Rightarrow> 's" where
  "HandleEvent cb returned s =
     (if returned AND EPOLLHUP \<noteq> 0 \<and> returned AND EPOLLIN = 0 then close_callback cb s
      else
        (let s1 = (if returned AND EPOLLERR \<noteq> 0 then error_callback cb s else s);
             s2 = (if returned AND kReadEvents \<noteq> 0 then read_callback cb s1 else s1)
         in if returned AND kWriteEvent \<noteq> 0 then write_callback cb s2 else s2))"

subsection \<open>Registration with epoll\<close>

type_synonym epoll = "int \<Rightarrow> uint32 option"

datatype epoll_op = EPOLL_CTL_ADD | EPOLL_CTL_MOD | EPOLL_CTL_DEL

definition epoll_ctl :: "int option \<Rightarrow> epoll_op \<Rightarrow> int \<Rightarrow> uint32 \<Rightarrow> epoll \<Rightarrow> int option \<times> epoll" where
  "epoll_ctl fault operation fd events ep =
     (case fault of
        Some errno \<Rightarrow> (Some errno, ep)
      | None \<Rightarrow>
          (case operation of
             EPOLL_CTL_ADD \<Rightarrow> if ep fd \<noteq> None then (Some EEXIST, ep) else (None, ep(fd \<mapsto> events))
           | EPOLL_CTL_MOD \<Rightarrow> if ep fd = None then (Some ENOENT, ep) else (None, ep(fd \<mapsto> events))
           | EPOLL_CTL_DEL \<Rightarrow> if ep fd = None then (Some ENOENT, ep) else (None, ep(fd := None))))"

text \<open>The loop thread is the caller, so \<open>AssertInLoopThread\<close> holds.\<close>

definition UpdateChannel :: "int option \<Rightarrow> Channel \<Rightarrow> epoll \<Rightarrow> (std_exception + unit) \<times> Channel \<times> epoll" where
  "UpdateChannel fault ch ep =
     (if \<not> added_to_loop ch \<and> HasNoEvents ch then (Inr (), ch, ep)
      else
        (let operation = (if \<not> added_to_loop ch then EPOLL_CTL_ADD
                          else if HasNoEvents ch then EPOLL_CTL_DEL else EPOLL_CTL_MOD);
             ch1 = ch\<lparr>added_to_loop := (operation \<noteq> EPOLL_CTL_DEL)\<rparr>;
             (failed, ep1) = epoll_ctl fault operation (ch_fd ch) (ch_events ch) ep
         in case failed of
              None \<Rightarrow> (Inr (), ch1, ep1)
            | Some errno \<Rightarrow>
                if operation = EPOLL_CTL_DEL \<and> errno = ENOENT then (Inr (), ch1, ep1)
                else (Inl (system_error errno ''epoll_ctl''), ch1, ep1)))"

text \<open>A failure to remove is logged only.\<close>

definition RemoveChannel :: "int option \<Rightarrow> Channel \<Rightarrow> epoll \<Rightarrow> Channel \<times> epoll" where
  "RemoveChannel fault ch ep =
     (if \<not> added_to_loop ch then (ch, ep)
      else (ch\<lparr>added_to_loop := False\<rparr>, snd (epoll_ctl fault EPOLL_CTL_DEL (ch_fd ch) 0 ep)))"

definition EnableReading :: "int option \<Rightarrow> Channel \<Rightarrow> epoll \<Rightarrow> (std_exception + unit) \<times> Channel \<times> epoll" where
  "EnableReading fault ch ep = UpdateChannel fault (ch\<lparr>ch_events := ch_events ch OR kReadEvents\<rparr>) ep"

definition EnableWriting :: "int option \<Rightarrow> Channel \<Rightarrow> epoll \<Rightarrow> (std_exception + unit) \<times> Channel \<times> epoll" where
  "EnableWriting fault ch ep = UpdateChannel fault (ch\<lparr>ch_events := ch_events ch OR kWriteEvent\<rparr>) ep"

definition DisableWriting :: "int option \<Rightarrow> Channel \<Rightarrow> epoll \<Rightarrow> (std_exception + unit) \<times> Channel \<times> epoll" where
  "DisableWriting fault ch ep = UpdateChannel fault (ch\<lparr>ch_events := ch_events ch AND NOT kWriteEvent\<rparr>) ep"

definition DisableAll :: "int option \<Rightarrow> Channel \<Rightarrow> epoll \<Rightarrow> (std_exception + unit) \<times> Channel \<times> epoll" where
  "DisableAll fault ch ep = UpdateChannel fault (ch\<lparr>ch_events := 0\<rparr>) ep"

subsection \<open>Pending tasks\<close>

text \<open>
  The part of the loop that other threads touch: \<open>quit_\<close>, the wakeup counter of the eventfd and the
  pending tasks.  A task is run by \<open>run\<close>, on the rest \<open>'s\<close> of the program and on the loop itself, since it may
  queue further tasks.
\<close>

record 't EventLoop =
  quit :: bool
  looping :: bool
  pending_tasks :: "'t list"
  wakeup :: nat

definition new_EventLoop :: "'t EventLoop" where
  "new_EventLoop = \<lparr>quit = False, looping = False, pending_tasks = [], wakeup = 0\<rparr>"

text \<open>The eventfd counter saturates; the loop reads it back to zero.\<close>

definition Wakeup :: "'t EventLoop \<Rightarrow> 't EventLoop" where
  "Wakeup l = l\<lparr>wakeup := min (2 ^ 64 - 2) (wakeup l + 1)\<rparr>"

definition HandleWakeup :: "'t EventLoop \<Rightarrow> 't EventLoop" where
  "HandleWakeup l = l\<lparr>wakeup := 0\<rparr>"

definition Quit :: "'t EventLoop \<Rightarrow> 't EventLoop" where
  "Quit l = Wakeup (l\<lparr>quit := True\<rparr>)"

definition QueueInLoop :: "'t \<Rightarrow> 't EventLoop \<Rightarrow> 't EventLoop" where
  "QueueInLoop task l = Wakeup (l\<lparr>pending_tasks := pending_tasks l @ [task]\<rparr>)"

definition RunInLoop ::
    "('t \<Rightarrow> 't EventLoop \<times> 's \<Rightarrow> 't EventLoop \<times> 's) \<Rightarrow> bool \<Rightarrow> 't \<Rightarrow> 't EventLoop \<times> 's \<Rightarrow> 't EventLoop \<times> 's" where
  "RunInLoop run in_loop_thread task st =
     (if in_loop_thread then run task st else (QueueInLoop task (fst st), snd st))"

definition RunPendingTasks :: "('t \<Rightarrow> 't EventLoop \<times> 's \<Rightarrow> 't EventLoop \<times> 's) \<Rightarrow> 't EventLoop \<times> 's \<Rightarrow> 't EventLoop \<times> 's" where
  "RunPendingTasks run st = fold run (pending_tasks (fst st)) ((fst st)\<lparr>pending_tasks := []\<rparr>, snd st)"

text \<open>
  One turn of \<open>Loop\<close> with the answer of \<open>epoll_wait\<close>: its \<open>errno\<close>, or the handlers of the channels it reported,
  in order.  \<open>None\<close> ends the loop.
\<close>

definition Loop_turn ::
    "('t \<Rightarrow> 't EventLoop \<times> 's \<Rightarrow> 't EventLoop \<times> 's) \<Rightarrow> int + ('t EventLoop \<times> 's \<Rightarrow> 't EventLoop \<times> 's) list \<Rightarrow>
     't EventLoop \<times> 's \<Rightarrow> (std_exception + ('t EventLoop \<times> 's)) option" where
  "Loop_turn run ready st =
     (if quit (fst st) then None
      else case ready of
             Inl errno \<Rightarrow>
               if errno = EINTR then Some (Inr st) else Some (Inl (system_error errno ''epoll_wait''))
           | Inr handlers \<Rightarrow> Some (Inr (RunPendingTasks run (fold (\<lambda>h st. h st) handlers st))))"

fun Loop_from ::
    "('t \<Rightarrow> 't EventLoop \<times> 's \<Rightarrow> 't EventLoop \<times> 's) \<Rightarrow> (int + ('t EventLoop \<times> 's \<Rightarrow> 't EventLoop \<times> 's) list) list \<Rightarrow>
     't EventLoop \<times> 's \<Rightarrow> (std_exception + 't EventLoop \<times> 's) option" where
  "Loop_from run answers st =
     (if quit (fst st)
      then (let (l, s) = RunPendingTasks run st in Some (Inr (l\<lparr>looping := False\<rparr>, s)))
      else case answers of
             [] \<Rightarrow> None
           | ready # rest \<Rightarrow>
               (case Loop_turn run ready st of
                  Some (Inr st') \<Rightarrow> Loop_from run rest st'
                | Some (Inl ex) \<Rightarrow> Some (Inl ex)
                | None \<Rightarrow> None))"

declare Loop_from.simps [simp del]

definition Loop ::
    "('t \<Rightarrow> 't EventLoop \<times> 's \<Rightarrow> 't EventLoop \<times> 's) \<Rightarrow> (int + ('t EventLoop \<times> 's \<Rightarrow> 't EventLoop \<times> 's) list) list \<Rightarrow>
     't EventLoop \<times> 's \<Rightarrow> (std_exception + 't EventLoop \<times> 's) option" where
  "Loop run answers st =
     (if looping (fst st) then Some (Inl (logic_error ''EventLoop already running''))
      else Loop_from run answers ((fst st)\<lparr>looping := True\<rparr>, snd st))"

subsection \<open>Descriptors of the loop\<close>

definition CreateEpoll :: "int + int \<Rightarrow> std_exception + int" where
  "CreateEpoll answer = (case answer of Inl errno \<Rightarrow> Inl (system_error errno ''epoll_create1'') | Inr fd \<Rightarrow> Inr fd)"

definition CreateEventFd :: "int + int \<Rightarrow> std_exception + int" where
  "CreateEventFd answer = (case answer of Inl errno \<Rightarrow> Inl (system_error errno ''eventfd'') | Inr fd \<Rightarrow> Inr fd)"

record loop_descriptors =
  owner_thread :: nat
  epoll_fd :: int
  wakeup_channel :: Channel
  interest :: epoll

definition construct_EventLoop :: "nat \<Rightarrow> int + int \<Rightarrow> int + int \<Rightarrow> int option \<Rightarrow> std_exception + loop_descriptors" where
  "construct_EventLoop this_thread epoll_answer eventfd_answer ctl_fault =
     (case CreateEpoll epoll_answer of
        Inl ex \<Rightarrow> Inl ex
      | Inr epfd \<Rightarrow>
          (case CreateEventFd eventfd_answer of
             Inl ex \<Rightarrow> Inl ex
           | Inr wakeup_fd \<Rightarrow>
               (case EnableReading ctl_fault (new_Channel wakeup_fd) (\<lambda>_. None) of
                  (Inl ex, _) \<Rightarrow> Inl ex
                | (Inr _, ch, ep) \<Rightarrow>
                    Inr \<lparr>owner_thread = this_thread, epoll_fd = epfd, wakeup_channel = ch, interest = ep\<rparr>)))"

text \<open>The result also lists the descriptors closed, in order.\<close>

definition destroy_EventLoop :: "loop_descriptors \<Rightarrow> loop_descriptors \<times> int list" where
  "destroy_EventLoop l =
     (let (_, ch, ep) = DisableAll None (wakeup_channel l) (interest l);
          (ch1, ep1) = RemoveChannel None ch ep
      in (l\<lparr>wakeup_channel := ch1, interest := ep1\<rparr>, [ch_fd (wakeup_channel l), epoll_fd l]))"

definition IsInLoopThread :: "nat \<Rightarrow> loop_descriptors \<Rightarrow> bool" where
  "IsInLoopThread this_thread l \<longleftrightarrow> owner_thread l = this_thread"

definition AssertInLoopThread :: "nat \<Rightarrow> loop_descriptors \<Rightarrow> std_exception + unit" where
  "AssertInLoopThread this_thread l =
     (if \<not> IsInLoopThread this_thread l then Inl (logic_error ''operation must run in EventLoop thread'') else Inr ())"

subsection \<open>The interest list mirrors the channels\<close>

definition registered :: "Channel \<Rightarrow> epoll \<Rightarrow> bool" where
  "registered ch ep \<longleftrightarrow> (added_to_loop ch \<longleftrightarrow> \<not> HasNoEvents ch) \<and>
     ep (ch_fd ch) = (if HasNoEvents ch then None else Some (ch_events ch))"

lemma UpdateChannel_registered:
  assumes "(added_to_loop ch \<and> ep (ch_fd ch) \<noteq> None) \<or> (\<not> added_to_loop ch \<and> ep (ch_fd ch) = None)"
    and "UpdateChannel None ch ep = (r, ch', ep')"
  shows "r = Inr () \<and> registered ch' ep' \<and> ch_events ch' = ch_events ch \<and> ch_fd ch' = ch_fd ch \<and>
    (\<forall>fd. fd \<noteq> ch_fd ch \<longrightarrow> ep' fd = ep fd)"
  using assms
  by (auto simp: UpdateChannel_def registered_def epoll_ctl_def HasNoEvents_def Let_def ENOENT_def split: if_splits)

lemma registered_added: "registered ch ep \<Longrightarrow>
    (added_to_loop ch \<and> ep (ch_fd ch) \<noteq> None) \<or> (\<not> added_to_loop ch \<and> ep (ch_fd ch) = None)"
  by (simp add: registered_def split: if_splits)

text \<open>The loop listens for its own wakeups from construction to destruction, and on nothing afterwards.\<close>

lemma construct_EventLoop_listens:
  assumes "construct_EventLoop t ep_answer ev_answer ctl_fault = Inr l"
  shows "registered (wakeup_channel l) (interest l) \<and> AssertInLoopThread t l = Inr () \<and>
    interest (fst (destroy_EventLoop l)) (ch_fd (wakeup_channel l)) = None"
proof -
  obtain fd r ch ep where fd: "ev_answer = Inr fd" and en: "EnableReading ctl_fault (new_Channel fd) (\<lambda>_. None) = (Inr r, ch, ep)"
    using assms by (auto simp: construct_EventLoop_def CreateEventFd_def split: sum.splits prod.splits)
  then have "ctl_fault = None"
    by (auto simp: EnableReading_def UpdateChannel_def epoll_ctl_def new_Channel_def HasNoEvents_def kReadEvents_def EPOLLIN_def
        EPOLLPRI_def EPOLLRDHUP_def Let_def split: option.splits if_splits)
  with en have reg: "registered ch ep"
    using UpdateChannel_registered [of "new_Channel fd\<lparr>ch_events := kReadEvents\<rparr>" "\<lambda>_. None"]
    by (simp add: new_Channel_def EnableReading_def)
  obtain r1 ch1 ep1 where dis: "DisableAll None ch ep = (r1, ch1, ep1)" by (metis prod_cases3)
  have "ep1 (ch_fd ch) = None" "\<not> added_to_loop ch1"
    using UpdateChannel_registered [OF _ dis [unfolded DisableAll_def]] registered_added [OF reg]
    by (auto simp: registered_def HasNoEvents_def)
  with assms fd en dis reg show ?thesis
    by (auto simp: construct_EventLoop_def CreateEventFd_def destroy_EventLoop_def RemoveChannel_def AssertInLoopThread_def
        IsInLoopThread_def split: sum.splits)
qed

lemma registered_new: "ep fd = None \<Longrightarrow> registered (new_Channel fd) ep"
  by (simp add: registered_def new_Channel_def HasNoEvents_def)

lemma channel_update_registered:
  assumes "registered ch ep" and "UpdateChannel None (ch\<lparr>ch_events := e\<rparr>) ep = (r, ch', ep')"
  shows "r = Inr () \<and> registered ch' ep' \<and> ch_events ch' = e \<and> ch_fd ch' = ch_fd ch \<and>
    (\<forall>fd. fd \<noteq> ch_fd ch \<longrightarrow> ep' fd = ep fd)"
  using UpdateChannel_registered [of "ch\<lparr>ch_events := e\<rparr>" ep r ch' ep'] registered_added [OF assms(1)] assms(2)
  by simp

lemma RemoveChannel_registered:
  assumes "registered ch ep" and "RemoveChannel fault ch ep = (ch', ep')" and "HasNoEvents ch"
  shows "ch' = ch \<and> ep' = ep"
  using assms by (auto simp: RemoveChannel_def registered_def)

subsection \<open>Writing flag\<close>

lemma write_bit: "e AND kWriteEvent \<noteq> 0 \<longleftrightarrow> bit e 2"
  using and_exp_eq_0_iff_not_bit [of e 2] by (simp add: kWriteEvent_def EPOLLOUT_def)

lemma bit_kEvents: "bit kReadEvents 2 = False" "bit kWriteEvent 2 = True"
  by (simp_all add: kReadEvents_def kWriteEvent_def EPOLLIN_def EPOLLPRI_def EPOLLRDHUP_def EPOLLOUT_def bit_simps)

lemma kWriteEvent_nonzero [simp]: "kWriteEvent \<noteq> 0"
  by (simp add: kWriteEvent_def EPOLLOUT_def)

lemma IsWriting_simps [simp]:
  "IsWriting (ch\<lparr>ch_events := ch_events ch OR kReadEvents\<rparr>) = IsWriting ch"
  "IsWriting (ch\<lparr>ch_events := ch_events ch OR kWriteEvent\<rparr>)"
  "\<not> IsWriting (ch\<lparr>ch_events := ch_events ch AND NOT kWriteEvent\<rparr>)"
  "\<not> IsWriting (ch\<lparr>ch_events := 0\<rparr>)" "\<not> IsWriting (new_Channel fd)"
  by (simp_all add: IsWriting_def write_bit bit_simps bit_kEvents new_Channel_def)

lemma EnableReading_spec:
  assumes "registered ch ep" and "EnableReading None ch ep = (r, ch', ep')"
  shows "r = Inr () \<and> registered ch' ep' \<and> IsWriting ch' = IsWriting ch"
  using channel_update_registered [OF assms(1)] assms(2) IsWriting_simps(1) [of ch]
  by (auto simp: EnableReading_def IsWriting_def)

lemma EnableWriting_spec:
  assumes "registered ch ep" and "EnableWriting None ch ep = (r, ch', ep')"
  shows "r = Inr () \<and> registered ch' ep' \<and> IsWriting ch'"
  using channel_update_registered [OF assms(1)] assms(2) IsWriting_simps(2) [of ch]
  by (auto simp: EnableWriting_def IsWriting_def)

lemma DisableWriting_spec:
  assumes "registered ch ep" and "DisableWriting None ch ep = (r, ch', ep')"
  shows "r = Inr () \<and> registered ch' ep' \<and> \<not> IsWriting ch'"
  using channel_update_registered [OF assms(1)] assms(2) IsWriting_simps(3) [of ch]
  by (auto simp: DisableWriting_def IsWriting_def)

lemma DisableAll_spec:
  assumes "registered ch ep" and "DisableAll None ch ep = (r, ch', ep')"
  shows "r = Inr () \<and> registered ch' ep' \<and> HasNoEvents ch' \<and> \<not> IsWriting ch'"
  using channel_update_registered [OF assms(1)] assms(2) IsWriting_simps(4) [of ch]
  by (auto simp: DisableAll_def IsWriting_def HasNoEvents_def)

subsection \<open>Properties\<close>

datatype channel_op = OpEnableReading | OpEnableWriting | OpDisableWriting | OpDisableAll | OpRemove

fun channel_do :: "channel_op \<Rightarrow> Channel \<Rightarrow> epoll \<Rightarrow> (std_exception + unit) \<times> Channel \<times> epoll" where
  "channel_do OpEnableReading ch ep = EnableReading None ch ep"
| "channel_do OpEnableWriting ch ep = EnableWriting None ch ep"
| "channel_do OpDisableWriting ch ep = DisableWriting None ch ep"
| "channel_do OpDisableAll ch ep = DisableAll None ch ep"
| "channel_do OpRemove ch ep = (let (ch', ep') = RemoveChannel None ch ep in (Inr (), ch', ep'))"

fun channel_run :: "channel_op list \<Rightarrow> Channel \<Rightarrow> epoll \<Rightarrow> (std_exception + unit) list \<times> Channel \<times> epoll" where
  "channel_run [] ch ep = ([], ch, ep)"
| "channel_run (op # ops) ch ep =
     (let (r, ch1, ep1) = channel_do op ch ep; (rs, ch2, ep2) = channel_run ops ch1 ep1 in (r # rs, ch2, ep2))"

definition mirrored :: "Channel \<Rightarrow> epoll \<Rightarrow> bool" where
  "mirrored ch ep \<longleftrightarrow> ep (ch_fd ch) = (if added_to_loop ch then Some (ch_events ch) else None)"

lemma channel_do_mirrored:
  assumes "mirrored ch ep" and "channel_do op ch ep = (r, ch', ep')"
  shows "r = Inr () \<and> mirrored ch' ep' \<and> ch_fd ch' = ch_fd ch \<and> (\<forall>fd. fd \<noteq> ch_fd ch \<longrightarrow> ep' fd = ep fd)"
proof -
  have update: "r = Inr () \<and> mirrored ch' ep' \<and> ch_fd ch' = ch_fd ch \<and> (\<forall>fd. fd \<noteq> ch_fd ch \<longrightarrow> ep' fd = ep fd)"
    if "UpdateChannel None (ch\<lparr>ch_events := e\<rparr>) ep = (r, ch', ep')" for e
    using UpdateChannel_registered [OF _ that] assms(1)
    by (auto simp: mirrored_def registered_def split: if_splits)
  show ?thesis
  proof (cases op)
    case OpRemove
    with assms show ?thesis
      by (auto simp: RemoveChannel_def mirrored_def epoll_ctl_def split: if_splits)
  qed (use assms(2) update in \<open>auto simp: EnableReading_def EnableWriting_def DisableWriting_def DisableAll_def\<close>)
qed

text \<open>
  C38. The kernel's interest list follows the channel: whatever sequence of enabling, disabling and
  removing a channel goes through, \<open>epoll_ctl\<close> is never called in a way it refuses, the list holds the
  channel's descriptor exactly when the channel believes itself added, with the events it wants, and the
  entries of other descriptors stay as they are.
\<close>

theorem epoll_mirrors_channel:
  assumes "ep fd = None" and "channel_run ops (new_Channel fd) ep = (rs, ch', ep')"
  shows "(\<forall>r \<in> set rs. r = Inr ()) \<and> ep' fd = (if added_to_loop ch' then Some (ch_events ch') else None) \<and>
    (\<forall>other. other \<noteq> fd \<longrightarrow> ep' other = ep other)"
proof -
  have "(\<forall>r \<in> set rs. r = Inr ()) \<and> mirrored ch' ep' \<and> ch_fd ch' = ch_fd ch \<and> (\<forall>other. other \<noteq> ch_fd ch \<longrightarrow> ep' other = ep other)"
    if "mirrored ch ep" "channel_run ops ch ep = (rs, ch', ep')" for ch
    using that
  proof (induction ops arbitrary: ch ep rs)
    case (Cons op ops)
    obtain r ch1 ep1 where step: "channel_do op ch ep = (r, ch1, ep1)" by (metis prod_cases3)
    obtain rs1 where rest: "channel_run ops ch1 ep1 = (rs1, ch', ep')" and rs: "rs = r # rs1"
      using Cons.prems(2) step by (auto split: prod.splits)
    note one = channel_do_mirrored [OF Cons.prems(1) step]
    with Cons.IH [OF _ rest] rs show ?case by auto
  qed simp
  from this [of "new_Channel fd"] assms show ?thesis by (auto simp: mirrored_def new_Channel_def)
qed

theorem epoll_mirrors_channel_witness:
  "fst (channel_run [OpEnableReading, OpEnableWriting, OpDisableWriting, OpRemove, OpEnableReading] (new_Channel 5) (\<lambda>_. None)) =
     [Inr (), Inr (), Inr (), Inr (), Inr ()] \<and>
   snd (snd (channel_run [OpEnableReading, OpEnableWriting] (new_Channel 5) (\<lambda>_. None))) 5 = Some 0x2007"
proof -
  let ?r = "channel_run [OpEnableReading, OpEnableWriting] (new_Channel 5) (\<lambda>_. None)"
  have "snd (snd ?r) 5 = (if added_to_loop (fst (snd ?r)) then Some (ch_events (fst (snd ?r))) else None)"
    using epoll_mirrors_channel [of "\<lambda>_. None" 5 "[OpEnableReading, OpEnableWriting]" "fst ?r" "fst (snd ?r)" "snd (snd ?r)"] by simp
  moreover have "added_to_loop (fst (snd ?r)) \<and> ch_events (fst (snd ?r)) = 0x2007" by code_simp
  moreover have "fst (channel_run [OpEnableReading, OpEnableWriting, OpDisableWriting, OpRemove, OpEnableReading] (new_Channel 5) (\<lambda>_. None)) =
     [Inr (), Inr (), Inr (), Inr (), Inr ()]"
    by code_simp
  ultimately show ?thesis by simp
qed

end
