(* ===== verification/Tcp_Connection.thy ===== *)
theory Tcp_Connection
  imports Buffer Event_Loop
begin

text \<open>
  A connection: src/include/cachefly/net/tcp_connection.h and src/src/net/tcp_connection.cpp.

  The handlers run in the loop thread; \<open>Send\<close> and \<open>Shutdown\<close> may also be called by others, which then only
  touch the atomics and queue a task for the loop.  A connection and the threads around it form a system
  whose steps are those of the loop thread (an event, a task) and the atomic steps of the other threads.

  What the socket answers is an argument: \<open>Inl\<close> the \<open>errno\<close>, or \<open>Inr\<close> the room in its send buffer, of which a
  call takes as much as it has data for.  \<open>conn_epoll\<close> is the interest list of the loop.  \<open>epoll_ctl\<close> failing for
  want of resources throws out of the loop and ends the server; such runs are not followed further.
\<close>

subsection \<open>State\<close>

datatype conn_State = kConnecting | kConnected | kDisconnecting | kDisconnected

record TcpConnectionOptions =
  opt_max_request_bytes :: nat
  opt_max_output_bytes :: nat

definition default_options :: TcpConnectionOptions where
  "default_options = \<lparr>opt_max_request_bytes = 16 * 1024 * 1024, opt_max_output_bytes = 64 * 1024 * 1024\<rparr>"

text \<open>
  The last six fields are what the connection has done to the outside: the bytes its socket has taken,
  whether the sending side is shut down, the calls of the connection and close callbacks, the figures
  given to the traffic callback, and the messages \<open>SendInLoop\<close> has been given, in order.
\<close>

record TcpConnection =
  conn_state :: conn_State
  conn_channel :: Channel
  conn_epoll :: epoll
  max_request_bytes :: nat
  max_output_bytes :: nat
  pending_output :: nat
  input_buffer :: Buffer
  output_buffer :: Buffer
  wire :: string
  write_shutdown :: bool
  notified :: "bool list"
  closes :: nat
  traffic :: "nat \<times> nat"
  sent_log :: "string list"

definition new_TcpConnection :: "int \<Rightarrow> epoll \<Rightarrow> TcpConnectionOptions \<Rightarrow> TcpConnection" where
  "new_TcpConnection fd ep options =
     \<lparr>conn_state = kConnecting, conn_channel = new_Channel fd, conn_epoll = ep,
      max_request_bytes = opt_max_request_bytes options, max_output_bytes = opt_max_output_bytes options,
      pending_output = 0, input_buffer = new_Buffer 4096, output_buffer = new_Buffer 4096,
      wire = [], write_shutdown = False, notified = [], closes = 0, traffic = (0, 0), sent_log = []\<rparr>"

definition Connected :: "TcpConnection \<Rightarrow> bool" where
  "Connected c \<longleftrightarrow> conn_state c = kConnected"

definition with_channel :: "(std_exception + unit) \<times> Channel \<times> epoll \<Rightarrow> TcpConnection \<Rightarrow> TcpConnection" where
  "with_channel r c = c\<lparr>conn_channel := fst (snd r), conn_epoll := snd (snd r)\<rparr>"

definition add_traffic :: "nat \<Rightarrow> nat \<Rightarrow> TcpConnection \<Rightarrow> TcpConnection" where
  "add_traffic bytes_read bytes_written c = c\<lparr>traffic := (fst (traffic c) + bytes_read, snd (traffic c) + bytes_written)\<rparr>"

definition socket_takes :: "int + nat \<Rightarrow> nat \<Rightarrow> int + nat" where
  "socket_takes room n = (case room of Inl errno \<Rightarrow> Inl errno | Inr r \<Rightarrow> Inr (min r n))"

subsection \<open>Accounting of pending output\<close>

text \<open>\<open>fetch_sub\<close> on a \<open>std::size_t\<close> wraps.\<close>

definition ReleaseOutput :: "nat \<Rightarrow> TcpConnection \<Rightarrow> TcpConnection" where
  "ReleaseOutput n c = c\<lparr>pending_output := (pending_output c + 2 ^ 64 - n) mod 2 ^ 64\<rparr>"

definition ReserveOutput :: "nat \<Rightarrow> TcpConnection \<Rightarrow> bool \<times> TcpConnection" where
  "ReserveOutput n c =
     (if n > max_output_bytes c \<or> pending_output c > max_output_bytes c - n then (False, c)
      else (True, c\<lparr>pending_output := pending_output c + n\<rparr>))"

subsection \<open>Handlers of the loop thread\<close>

text \<open>\<open>HandleError\<close> reads \<open>SO_ERROR\<close> and logs it.\<close>

definition HandleError :: "TcpConnection \<Rightarrow> TcpConnection" where
  "HandleError c = c"

definition HandleClose :: "TcpConnection \<Rightarrow> TcpConnection" where
  "HandleClose c =
     (if conn_state c = kDisconnected then c
      else
        (let c1 = with_channel (DisableAll None (conn_channel c) (conn_epoll c)) (c\<lparr>conn_state := kDisconnected\<rparr>);
             buffered = ReadableBytes (output_buffer c1);
             c2 = c1\<lparr>input_buffer := RetrieveAll (input_buffer c1), output_buffer := RetrieveAll (output_buffer c1)\<rparr>;
             c3 = (if buffered > 0 then ReleaseOutput buffered c2 else c2)
         in c3\<lparr>notified := notified c3 @ [Connected c3], closes := Suc (closes c3)\<rparr>))"

definition ShutdownInLoop :: "TcpConnection \<Rightarrow> TcpConnection" where
  "ShutdownInLoop c = (if \<not> IsWriting (conn_channel c) then c\<lparr>write_shutdown := True\<rparr> else c)"

text \<open>The end of \<open>SendInLoop\<close>: what the socket has not taken goes to the output buffer.\<close>

definition buffer_rest :: "string \<Rightarrow> TcpConnection \<Rightarrow> TcpConnection" where
  "buffer_rest rest c =
     (if rest = [] then c
      else
        (let c1 = c\<lparr>output_buffer := buf_Append rest (output_buffer c)\<rparr>
         in if \<not> IsWriting (conn_channel c1)
            then with_channel (EnableWriting None (conn_channel c1) (conn_epoll c1)) c1 else c1))"

definition SendInLoop :: "int + nat \<Rightarrow> string \<Rightarrow> TcpConnection \<Rightarrow> TcpConnection" where
  "SendInLoop room message c =
     (if conn_state c = kDisconnected then ReleaseOutput (length message) c
      else
        (let c0 = c\<lparr>sent_log := sent_log c @ [message]\<rparr>
         in if \<not> IsWriting (conn_channel c0) \<and> ReadableBytes (output_buffer c0) = 0
            then
              (case socket_takes room (length message) of
                 Inr sent \<Rightarrow>
                   (let c1 = add_traffic 0 sent (ReleaseOutput sent (c0\<lparr>wire := wire c0 @ take sent message\<rparr>))
                    in buffer_rest (drop sent message) c1)
               | Inl errno \<Rightarrow>
                   if errno \<noteq> EAGAIN then HandleClose (HandleError (ReleaseOutput (length message) c0))
                   else buffer_rest message c0)
            else buffer_rest message c0))"

definition HandleWrite :: "int + nat \<Rightarrow> TcpConnection \<Rightarrow> TcpConnection" where
  "HandleWrite room c =
     (if \<not> IsWriting (conn_channel c) then c
      else
        (let taken = socket_takes room (ReadableBytes (output_buffer c));
             buffer = snd (WriteFd taken (output_buffer c))
         in case taken of
              Inr n \<Rightarrow>
                if n > 0
                then
                  (let c1 = add_traffic 0 n (ReleaseOutput n
                              (c\<lparr>output_buffer := buffer, wire := wire c @ take n (View (output_buffer c))\<rparr>))
                   in if ReadableBytes (output_buffer c1) = 0
                      then
                        (let c2 = with_channel (DisableWriting None (conn_channel c1) (conn_epoll c1)) c1
                         in if conn_state c2 = kDisconnecting then ShutdownInLoop c2 else c2)
                      else c1)
                else c\<lparr>output_buffer := buffer\<rparr>
            | Inl errno \<Rightarrow> if errno \<noteq> EAGAIN then HandleClose (HandleError c) else c))"

text \<open>\<open>message_callback\<close> gets the connection, with its input buffer, and the state \<open>'x\<close> it works on.\<close>

definition HandleRead ::
    "(TcpConnection \<times> 'x \<Rightarrow> TcpConnection \<times> 'x) \<Rightarrow> int + string \<Rightarrow> TcpConnection \<times> 'x \<Rightarrow> TcpConnection \<times> 'x" where
  "HandleRead message_callback answer cx =
     (let (c, x) = cx; (r, buffer) = ReadFd answer (input_buffer c); c1 = c\<lparr>input_buffer := buffer\<rparr>
      in case r of
           Inr n \<Rightarrow>
             if n > 0
             then
               (let c2 = add_traffic n 0 c1
                in if ReadableBytes (input_buffer c2) > max_request_bytes c2 then (HandleClose c2, x)
                   else message_callback (c2, x))
             else (HandleClose c1, x)
         | Inl errno \<Rightarrow> if errno \<noteq> EAGAIN then (HandleClose (HandleError c1), x) else (c1, x))"

definition ConnectEstablished :: "TcpConnection \<Rightarrow> TcpConnection" where
  "ConnectEstablished c =
     (let c1 = c\<lparr>conn_state := kConnected\<rparr>;
          c2 = with_channel (EnableReading None (conn_channel c1) (conn_epoll c1)) c1
      in c2\<lparr>notified := notified c2 @ [Connected c2]\<rparr>)"

definition ConnectDestroyed :: "TcpConnection \<Rightarrow> TcpConnection" where
  "ConnectDestroyed c =
     (let c1 = (if conn_state c \<noteq> kDisconnected
                then (let c0 = with_channel (DisableAll None (conn_channel c) (conn_epoll c)) (c\<lparr>conn_state := kDisconnected\<rparr>)
                      in c0\<lparr>notified := notified c0 @ [Connected c0]\<rparr>)
                else c);
          (ch, ep) = RemoveChannel None (conn_channel c1) (conn_epoll c1)
      in c1\<lparr>conn_channel := ch, conn_epoll := ep\<rparr>)"

text \<open>\<open>Send\<close> and \<open>Shutdown\<close> when the loop thread itself calls them: \<open>RunInLoop\<close> runs the task at once.\<close>

definition Send_in_loop :: "int + nat \<Rightarrow> string \<Rightarrow> TcpConnection \<Rightarrow> TcpConnection" where
  "Send_in_loop room message c =
     (if \<not> Connected c then c
      else (let (ok, c1) = ReserveOutput (length message) c
            in if \<not> ok then HandleClose c1 else SendInLoop room message c1))"

definition Shutdown_in_loop :: "TcpConnection \<Rightarrow> TcpConnection" where
  "Shutdown_in_loop c = (if conn_state c = kConnected then ShutdownInLoop (c\<lparr>conn_state := kDisconnecting\<rparr>) else c)"

subsection \<open>The connection among its threads\<close>

datatype conn_task = SendInLoopTask string | ShutdownInLoopTask | HandleCloseTask

text \<open>Where another thread stands in \<open>Send\<close>, \<open>ForceClose\<close> or \<open>Shutdown\<close>.\<close>

datatype sender = Ready | SawConnected string | Reserved string | OverLimit | Disconnecting

record 'x conn_system =
  conn :: TcpConnection
  loop_tasks :: "conn_task list"
  senders :: "sender list"
  app :: 'x

datatype conn_action =
    Establish
  | Event uint32 "int + string" "int + nat" "int + nat"
  | RunTask "int + nat"
  | SendBegin nat string
  | ShutdownBegin nat
  | SenderStep nat
  | Destroy

definition run_task :: "int + nat \<Rightarrow> conn_task \<Rightarrow> TcpConnection \<Rightarrow> TcpConnection" where
  "run_task room task c =
     (case task of
        SendInLoopTask message \<Rightarrow> SendInLoop room message c
      | ShutdownInLoopTask \<Rightarrow> ShutdownInLoop c
      | HandleCloseTask \<Rightarrow> HandleClose c)"

definition conn_callbacks ::
    "(int + nat \<Rightarrow> TcpConnection \<times> 'x \<Rightarrow> TcpConnection \<times> 'x) \<Rightarrow> int + string \<Rightarrow> int + nat \<Rightarrow> int + nat \<Rightarrow>
     (TcpConnection \<times> 'x) channel_callbacks" where
  "conn_callbacks message_callback input room1 room2 =
     \<lparr>read_callback = HandleRead (message_callback room1) input,
      write_callback = (\<lambda>(c, x). (HandleWrite room2 c, x)),
      close_callback = (\<lambda>(c, x). (HandleClose c, x)),
      error_callback = (\<lambda>(c, x). (HandleError c, x))\<rparr>"

text \<open>The step of a sending thread: what it does to the atomics, the task it queues, and where it is then.\<close>

definition sender_step :: "sender \<Rightarrow> TcpConnection \<Rightarrow> (sender \<times> conn_task list \<times> TcpConnection) option" where
  "sender_step t c =
     (case t of
        Ready \<Rightarrow> None
      | SawConnected message \<Rightarrow>
          (let (ok, c') = ReserveOutput (length message) c in Some (if ok then Reserved message else OverLimit, [], c'))
      | Reserved message \<Rightarrow> Some (Ready, [SendInLoopTask message], c)
      | OverLimit \<Rightarrow> Some (Ready, [HandleCloseTask], c)
      | Disconnecting \<Rightarrow> Some (Ready, [ShutdownInLoopTask], c))"

fun conn_do :: "(int + nat \<Rightarrow> TcpConnection \<times> 'x \<Rightarrow> TcpConnection \<times> 'x) \<Rightarrow> conn_action \<Rightarrow> 'x conn_system \<Rightarrow>
    'x conn_system option" where
  "conn_do cb Establish s =
     (if conn_state (conn s) = kConnecting then Some (s\<lparr>conn := ConnectEstablished (conn s)\<rparr>) else None)"
| "conn_do cb (Event returned input room1 room2) s =
     (if added_to_loop (conn_channel (conn s))
      then (let (c, x) = HandleEvent (conn_callbacks cb input room1 room2) returned (conn s, app s)
            in Some (s\<lparr>conn := c, app := x\<rparr>))
      else None)"
| "conn_do cb (RunTask room) s =
     (case loop_tasks s of
        [] \<Rightarrow> None
      | task # rest \<Rightarrow> Some (s\<lparr>conn := run_task room task (conn s), loop_tasks := rest\<rparr>))"
| "conn_do cb (SendBegin i message) s =
     (if i < length (senders s) \<and> senders s ! i = Ready
      then Some (if Connected (conn s) then s\<lparr>senders := (senders s)[i := SawConnected message]\<rparr> else s) else None)"
| "conn_do cb (ShutdownBegin i) s =
     (if i < length (senders s) \<and> senders s ! i = Ready
      then Some (if conn_state (conn s) = kConnected
                 then s\<lparr>conn := (conn s)\<lparr>conn_state := kDisconnecting\<rparr>, senders := (senders s)[i := Disconnecting]\<rparr> else s)
      else None)"
| "conn_do cb (SenderStep i) s =
     (if i < length (senders s)
      then map_option (\<lambda>(t, tasks, c). s\<lparr>conn := c, loop_tasks := loop_tasks s @ tasks, senders := (senders s)[i := t]\<rparr>)
             (sender_step (senders s ! i) (conn s))
      else None)"
| "conn_do cb Destroy s =
     (if conn_state (conn s) \<noteq> kConnecting then Some (s\<lparr>conn := ConnectDestroyed (conn s)\<rparr>) else None)"

definition new_conn_system :: "int \<Rightarrow> epoll \<Rightarrow> TcpConnectionOptions \<Rightarrow> nat \<Rightarrow> 'x \<Rightarrow> 'x conn_system" where
  "new_conn_system fd ep options threads x =
     \<lparr>conn = new_TcpConnection fd ep options, loop_tasks = [], senders = replicate threads Ready, app = x\<rparr>"

end
