(* ===== verification/Tcp_Theorems.thy ===== *)
theory Tcp_Theorems
  imports Tcp_Connection
begin

text \<open>
  The invariant of a connection over every interleaving of the loop thread with the threads that send:
  the registration with epoll, the account of pending output, the byte stream and the life cycle.  It is
  proved once for any message callback that keeps it (\<open>message_handler\<close>).
\<close>

subsection \<open>The invariant\<close>

definition chan_ok :: "TcpConnection \<Rightarrow> bool" where
  "chan_ok c \<longleftrightarrow> registered (conn_channel c) (conn_epoll c) \<and> buf_wf (input_buffer c) \<and> buf_wf (output_buffer c) \<and>
     IsWriting (conn_channel c) = (conn_state c \<noteq> kDisconnected \<and> View (output_buffer c) \<noteq> []) \<and>
     (conn_state c = kDisconnected \<longrightarrow> HasNoEvents (conn_channel c))"

text \<open>\<open>k\<close>: the bytes reserved for messages that have not reached \<open>SendInLoop\<close> yet.\<close>

definition acct_ok :: "nat \<Rightarrow> TcpConnection \<Rightarrow> bool" where
  "acct_ok k c \<longleftrightarrow> pending_output c = length (View (output_buffer c)) + k \<and> pending_output c \<le> max_output_bytes c \<and>
     max_output_bytes c < 2 ^ 64"

definition stream_ok :: "TcpConnection \<Rightarrow> bool" where
  "stream_ok c \<longleftrightarrow> (\<exists>rest. concat (sent_log c) = wire c @ rest \<and>
     (conn_state c \<noteq> kDisconnected \<longrightarrow> rest = View (output_buffer c)))"

definition life_ok :: "TcpConnection \<Rightarrow> bool" where
  "life_ok c \<longleftrightarrow>
     notified c = (case conn_state c of kConnecting \<Rightarrow> [] | kConnected \<Rightarrow> [True] | kDisconnecting \<Rightarrow> [True]
                   | kDisconnected \<Rightarrow> [True, False]) \<and>
     closes c \<le> (if conn_state c = kDisconnected then 1 else 0)"

definition conn_inv :: "nat \<Rightarrow> TcpConnection \<Rightarrow> bool" where
  "conn_inv k c \<longleftrightarrow> chan_ok c \<and> acct_ok k c \<and> stream_ok c \<and> life_ok c"

definition live_inv :: "nat \<Rightarrow> TcpConnection \<Rightarrow> bool" where
  "live_inv k c \<longleftrightarrow> conn_inv k c \<and> conn_state c \<noteq> kConnecting"

lemmas inv_defs = conn_inv_def chan_ok_def acct_ok_def stream_ok_def life_ok_def

lemma wrapped_sub: "n \<le> p \<Longrightarrow> p < m \<Longrightarrow> (p + m - n) mod m = p - n" for m n p :: nat
proof -
  assume n: "n \<le> p" "p < m"
  then have eq: "p + m - n = (p - n) + m" by linarith
  have "(p - n + m) mod m = (p - n) mod m" by (rule mod_add_self2)
  moreover have "(p - n) mod m = p - n" using n(2) by (intro mod_less) linarith
  ultimately show ?thesis unfolding eq by (rule trans)
qed

lemma ReleaseOutput_eq:
  "n \<le> pending_output c \<Longrightarrow> pending_output c < 2 ^ 64 \<Longrightarrow> ReleaseOutput n c = c\<lparr>pending_output := pending_output c - n\<rparr>"
  unfolding ReleaseOutput_def by (simp only: wrapped_sub)

lemma acct_release:
  "acct_ok k c \<Longrightarrow> n \<le> pending_output c \<Longrightarrow> ReleaseOutput n c = c\<lparr>pending_output := pending_output c - n\<rparr>"
  by (rule ReleaseOutput_eq) (auto simp: acct_ok_def)

lemma HandleClose_inv:
  assumes parts: "chan_ok c" "acct_ok k c" "life_ok c" "conn_state c \<noteq> kConnecting" "concat (sent_log c) = wire c @ rest"
  shows "live_inv k (HandleClose c) \<and> conn_state (HandleClose c) = kDisconnected"
proof (cases "conn_state c = kDisconnected")
  case True
  with parts show ?thesis by (simp add: HandleClose_def live_inv_def conn_inv_def stream_ok_def)
next
  case False
  obtain r ch ep where dis: "DisableAll None (conn_channel c) (conn_epoll c) = (r, ch, ep)" by (metis prod_cases3)
  have reg: "registered (conn_channel c) (conn_epoll c)" and wf: "buf_wf (output_buffer c)" "buf_wf (input_buffer c)"
    using parts by (auto simp: chan_ok_def)
  have ch: "registered ch ep" "HasNoEvents ch" "\<not> IsWriting ch" using DisableAll_spec [OF reg dis] by auto
  have len: "ReadableBytes (output_buffer c) = length (View (output_buffer c))" using wf by (simp add: length_View)
  have pend: "pending_output c = length (View (output_buffer c)) + k" "pending_output c < 2 ^ 64"
    using parts by (auto simp: acct_ok_def)
  have eq: "HandleClose c = c\<lparr>conn_state := kDisconnected, conn_channel := ch, conn_epoll := ep,
      input_buffer := RetrieveAll (input_buffer c), output_buffer := RetrieveAll (output_buffer c), pending_output := k,
      notified := notified c @ [False], closes := Suc (closes c)\<rparr>"
    using False pend by (simp add: HandleClose_def with_channel_def dis len ReleaseOutput_eq Connected_def Let_def)
  show ?thesis
    using parts False ch pend wf
    by (auto simp: eq live_inv_def inv_defs split: conn_State.splits)
qed

lemma HandleClose_live: "live_inv k c \<Longrightarrow> live_inv k (HandleClose c)"
  using HandleClose_inv [of c k] by (auto simp: live_inv_def conn_inv_def stream_ok_def)

lemma ShutdownInLoop_inv:
  "live_inv k c \<Longrightarrow> live_inv k (ShutdownInLoop c)"
  by (auto simp: ShutdownInLoop_def live_inv_def inv_defs)

lemma buffer_rest_inv:
  assumes chan: "chan_ok c" and st: "conn_state c \<noteq> kDisconnected" "conn_state c \<noteq> kConnecting"
    and acct: "acct_ok (k + length rest) c" and life: "life_ok c"
    and stream: "concat (sent_log c) = wire c @ View (output_buffer c) @ rest"
  shows "live_inv k (buffer_rest rest c)"
proof (cases "rest = []")
  case True
  with assms show ?thesis by (auto simp: buffer_rest_def live_inv_def conn_inv_def stream_ok_def)
next
  case False
  have wf: "buf_wf (output_buffer c)" using chan by (simp add: chan_ok_def)
  note app = buf_Append_spec [OF wf, of rest]
  have acct': "acct_ok k (c\<lparr>output_buffer := buf_Append rest (output_buffer c)\<rparr>)"
    using acct app by (auto simp: acct_ok_def)
  show ?thesis
  proof (cases "IsWriting (conn_channel c)")
    case True
    with False assms app acct' show ?thesis
      by (simp add: buffer_rest_def live_inv_def inv_defs)
  next
    case nw: False
    obtain r ch ep where en: "EnableWriting None (conn_channel c) (conn_epoll c) = (r, ch, ep)" by (metis prod_cases3)
    have "registered ch ep" "IsWriting ch" using EnableWriting_spec [OF _ en] chan by (auto simp: chan_ok_def)
    with False nw assms app acct' en show ?thesis
      by (auto simp: buffer_rest_def live_inv_def inv_defs with_channel_def)
  qed
qed

lemma SendInLoop_inv:
  assumes inv: "live_inv (k + length message) c"
  shows "live_inv k (SendInLoop room message c)"
proof (cases "conn_state c = kDisconnected")
  case True
  have "length message \<le> pending_output c" using inv by (simp add: live_inv_def inv_defs)
  with inv True show ?thesis
    by (auto simp: SendInLoop_def live_inv_def inv_defs acct_release [of "k + length message"])
next
  case False
  let ?c0 = "c\<lparr>sent_log := sent_log c @ [message]\<rparr>"
  have c0: "chan_ok ?c0" "life_ok ?c0" "acct_ok (k + length message) ?c0" "conn_state ?c0 \<noteq> kDisconnected" "conn_state ?c0 \<noteq> kConnecting"
    and stream: "concat (sent_log ?c0) = wire ?c0 @ View (output_buffer ?c0) @ message"
    using inv False by (auto simp: live_inv_def inv_defs)
  have le: "length message \<le> pending_output c" using inv by (simp add: live_inv_def inv_defs)
  show ?thesis
  proof (cases "\<not> IsWriting (conn_channel c) \<and> ReadableBytes (output_buffer c) = 0")
    case busy: False
    then have "SendInLoop room message c = buffer_rest message ?c0" using False by (auto simp: SendInLoop_def Let_def)
    with buffer_rest_inv [OF c0(1,4,5,3,2) stream] show ?thesis by simp
  next
    case direct: True
    then have empty: "View (output_buffer c) = []" using c0(1) length_View [of "output_buffer c"] by (simp add: chan_ok_def)
    show ?thesis
    proof (cases room)
      case (Inl errno)
      show ?thesis
      proof (cases "errno = EAGAIN")
        case True
        then have "SendInLoop room message c = buffer_rest message ?c0"
          using False direct Inl by (simp add: SendInLoop_def Let_def socket_takes_def)
        with buffer_rest_inv [OF c0(1,4,5,3,2) stream] show ?thesis by simp
      next
        case fail: False
        let ?c1 = "?c0\<lparr>pending_output := pending_output c - length message\<rparr>"
        have "SendInLoop room message c = HandleClose ?c1"
          using False direct Inl fail le acct_release [OF c0(3)]
          by (simp add: SendInLoop_def Let_def socket_takes_def HandleError_def)
        moreover have "chan_ok ?c1" "acct_ok k ?c1" "life_ok ?c1"
          using c0 by (simp_all add: chan_ok_def acct_ok_def life_ok_def)
        moreover have "concat (sent_log ?c1) = wire ?c1 @ View (output_buffer ?c1) @ message" using stream by simp
        ultimately show ?thesis using HandleClose_inv [of ?c1 k] c0(5) by simp
      qed
    next
      case (Inr r)
      let ?n = "min r (length message)"
      let ?c1 = "add_traffic 0 ?n (?c0\<lparr>wire := wire c @ take ?n message, pending_output := pending_output c - ?n\<rparr>)"
      have rel: "ReleaseOutput ?n (?c0\<lparr>wire := wire c @ take ?n message\<rparr>) =
          ?c0\<lparr>wire := wire c @ take ?n message, pending_output := pending_output c - ?n\<rparr>"
        using c0(3) le acct_release [of "k + length message" "?c0\<lparr>wire := wire c @ take ?n message\<rparr>" ?n] by (simp add: acct_ok_def)
      have "SendInLoop room message c = buffer_rest (drop ?n message) ?c1"
        using False direct Inr rel by (simp add: SendInLoop_def Let_def socket_takes_def)
      moreover have "live_inv k (buffer_rest (drop ?n message) ?c1)"
      proof (rule buffer_rest_inv)
        show "concat (sent_log ?c1) = wire ?c1 @ View (output_buffer ?c1) @ drop ?n message"
          using stream empty by (simp add: add_traffic_def)
        show "acct_ok (k + length (drop ?n message)) ?c1"
          using c0(3) empty by (auto simp: acct_ok_def add_traffic_def)
      qed (use c0 in \<open>simp_all add: chan_ok_def life_ok_def add_traffic_def\<close>)
      ultimately show ?thesis by simp
    qed
  qed
qed

lemma WriteFd_taken:
  assumes "buf_wf b" and "n \<le> length (View b)"
  shows "buf_wf (snd (WriteFd (Inr n) b)) \<and> View (snd (WriteFd (Inr n) b)) = drop n (View b)"
  using WriteFd_spec [OF assms(1), of "Inr n"] assms(2) by (cases "WriteFd (Inr n) b") auto

lemma HandleWrite_inv:
  assumes inv: "live_inv k c"
  shows "live_inv k (HandleWrite room c)"
proof (cases "IsWriting (conn_channel c)")
  case False
  with inv show ?thesis by (simp add: HandleWrite_def)
next
  case True
  have st: "conn_state c \<noteq> kDisconnected" and wf: "buf_wf (output_buffer c)" and acct: "acct_ok k c"
    using inv True by (auto simp: live_inv_def inv_defs)
  have len: "ReadableBytes (output_buffer c) = length (View (output_buffer c))" using wf by (simp add: length_View)
  show ?thesis
  proof (cases room)
    case (Inl errno)
    with True inv show ?thesis
      by (auto simp: HandleWrite_def socket_takes_def HandleError_def Let_def intro: HandleClose_live)
  next
    case (Inr r)
    let ?n = "min r (length (View (output_buffer c)))"
    let ?b = "snd (WriteFd (Inr ?n) (output_buffer c))"
    have b: "buf_wf ?b" "View ?b = drop ?n (View (output_buffer c))" using WriteFd_taken [OF wf, of ?n] by auto
    show ?thesis
    proof (cases "?n = 0")
      case zero: True
      then have "HandleWrite room c = c\<lparr>output_buffer := ?b\<rparr>"
        using True Inr by (simp add: HandleWrite_def socket_takes_def len Let_def)
      with inv b zero show ?thesis by (simp add: live_inv_def inv_defs)
    next
      case False
      let ?c1 = "add_traffic 0 ?n (c\<lparr>output_buffer := ?b, wire := wire c @ take ?n (View (output_buffer c)), pending_output := pending_output c - ?n\<rparr>)"
      have rel: "ReleaseOutput ?n (c\<lparr>output_buffer := ?b, wire := wire c @ take ?n (View (output_buffer c))\<rparr>) =
          c\<lparr>output_buffer := ?b, wire := wire c @ take ?n (View (output_buffer c)), pending_output := pending_output c - ?n\<rparr>"
        using acct by (subst ReleaseOutput_eq) (auto simp: acct_ok_def)
      have "concat (sent_log c) = wire c @ View (output_buffer c)" using inv st by (auto simp: live_inv_def inv_defs)
      then have "stream_ok ?c1"
        using b unfolding stream_ok_def by (intro exI [of _ "View ?b"]) (simp add: add_traffic_def)
      moreover have "acct_ok k ?c1" using acct b by (auto simp: acct_ok_def add_traffic_def)
      moreover have "life_ok ?c1" using inv by (simp add: live_inv_def conn_inv_def life_ok_def add_traffic_def)
      ultimately have parts: "acct_ok k ?c1" "stream_ok ?c1" "life_ok ?c1" "conn_state ?c1 = conn_state c" "conn_channel ?c1 = conn_channel c"
        "conn_epoll ?c1 = conn_epoll c" "output_buffer ?c1 = ?b" "input_buffer ?c1 = input_buffer c"
        by (simp_all add: add_traffic_def)
      show ?thesis
      proof (cases "View ?b = []")
        case more: False
        then have "ReadableBytes ?b \<noteq> 0" by (metis length_0_conv length_View b(1))
        then have "HandleWrite room c = ?c1"
          using True Inr False rel
          by (simp add: HandleWrite_def socket_takes_def len Let_def add_traffic_def)
        with parts inv True more b st show ?thesis by (auto simp: live_inv_def conn_inv_def chan_ok_def)
      next
        case drained: True
        obtain x ch ep where dis: "DisableWriting None (conn_channel c) (conn_epoll c) = (x, ch, ep)" by (metis prod_cases3)
        have ch: "registered ch ep" "\<not> IsWriting ch"
          using DisableWriting_spec [OF _ dis] inv by (auto simp: live_inv_def conn_inv_def chan_ok_def)
        let ?c2 = "?c1\<lparr>conn_channel := ch, conn_epoll := ep\<rparr>"
        have "ReadableBytes ?b = 0" by (metis drained list.size(3) length_View b(1))
        then have "HandleWrite room c = (if conn_state c = kDisconnecting then ShutdownInLoop ?c2 else ?c2)"
          using True Inr False rel dis
          by (simp add: HandleWrite_def socket_takes_def len Let_def add_traffic_def with_channel_def)
        moreover have "live_inv k ?c2"
          using parts inv ch drained b st by (auto simp: live_inv_def inv_defs)
        ultimately show ?thesis using ShutdownInLoop_inv [of k ?c2] parts(4) by simp
      qed
    qed
  qed
qed

lemma ReserveOutput_inv:
  assumes "live_inv k c" and "ReserveOutput n c = (ok, c')"
  shows "live_inv (if ok then k + n else k) c'" "conn_state c' = conn_state c"
  using assms by (auto simp: ReserveOutput_def live_inv_def inv_defs split: if_splits)

lemma Send_in_loop_inv:
  assumes "live_inv k c"
  shows "live_inv k (Send_in_loop room message c)"
proof (cases "Connected c")
  case True
  obtain ok c1 where r: "ReserveOutput (length message) c = (ok, c1)" by fastforce
  note res = ReserveOutput_inv [OF assms r]
  show ?thesis
    using True r res by (cases ok) (auto simp: Send_in_loop_def intro: HandleClose_live SendInLoop_inv)
qed (use assms in \<open>simp add: Send_in_loop_def\<close>)

lemma Shutdown_in_loop_inv:
  assumes "live_inv k c"
  shows "live_inv k (Shutdown_in_loop c)"
proof (cases "conn_state c = kConnected")
  case True
  with assms have "live_inv k (c\<lparr>conn_state := kDisconnecting\<rparr>)" by (auto simp: live_inv_def inv_defs)
  with True show ?thesis by (simp add: Shutdown_in_loop_def ShutdownInLoop_inv)
qed (use assms in \<open>simp add: Shutdown_in_loop_def\<close>)

lemma set_input_inv:
  "live_inv k c \<Longrightarrow> buf_wf b \<Longrightarrow> live_inv k (c\<lparr>input_buffer := b\<rparr>)"
  by (simp add: live_inv_def inv_defs)

lemma add_traffic_inv: "live_inv k c \<Longrightarrow> live_inv k (add_traffic m n c)"
  by (simp add: live_inv_def inv_defs add_traffic_def)

lemma ConnectEstablished_inv:
  assumes "conn_inv k c" and "conn_state c = kConnecting"
  shows "live_inv k (ConnectEstablished c)"
proof -
  obtain r ch ep where en: "EnableReading None (conn_channel c) (conn_epoll c) = (r, ch, ep)" by (metis prod_cases3)
  have ch: "registered ch ep" "IsWriting ch = IsWriting (conn_channel c)"
    using EnableReading_spec [OF _ en] assms(1) by (auto simp: conn_inv_def chan_ok_def)
  show ?thesis
    using assms ch
    by (auto simp: ConnectEstablished_def Let_def en with_channel_def Connected_def live_inv_def inv_defs)
qed

lemma ConnectDestroyed_inv:
  assumes inv: "live_inv k c"
  shows "live_inv k (ConnectDestroyed c)"
proof -
  obtain r ch ep where dis: "DisableAll None (conn_channel c) (conn_epoll c) = (r, ch, ep)" by (metis prod_cases3)
  have ch: "registered ch ep" "HasNoEvents ch" "\<not> IsWriting ch"
    using DisableAll_spec [OF _ dis] inv by (auto simp: live_inv_def inv_defs)
  let ?c1 = "if conn_state c \<noteq> kDisconnected
      then c\<lparr>conn_state := kDisconnected, conn_channel := ch, conn_epoll := ep, notified := notified c @ [False]\<rparr> else c"
  have live: "live_inv k ?c1" and dead: "conn_state ?c1 = kDisconnected"
    using inv ch by (auto simp: live_inv_def inv_defs split: conn_State.splits)
  then have "RemoveChannel None (conn_channel ?c1) (conn_epoll ?c1) = (conn_channel ?c1, conn_epoll ?c1)"
    using RemoveChannel_registered [of "conn_channel ?c1" "conn_epoll ?c1" None]
    by (cases "RemoveChannel None (conn_channel ?c1) (conn_epoll ?c1)") (simp add: live_inv_def conn_inv_def chan_ok_def)
  moreover have "ConnectDestroyed c =
      (let (ch, ep) = RemoveChannel None (conn_channel ?c1) (conn_epoll ?c1) in ?c1\<lparr>conn_channel := ch, conn_epoll := ep\<rparr>)"
    by (simp add: ConnectDestroyed_def dis with_channel_def Connected_def Let_def)
  ultimately have "ConnectDestroyed c = ?c1" by simp
  with live show ?thesis by simp
qed

subsection \<open>The system\<close>

definition task_bytes :: "conn_task \<Rightarrow> nat" where
  "task_bytes t = (case t of SendInLoopTask m \<Rightarrow> length m | _ \<Rightarrow> 0)"

definition sender_bytes :: "sender \<Rightarrow> nat" where
  "sender_bytes t = (case t of Reserved m \<Rightarrow> length m | _ \<Rightarrow> 0)"

definition reserved_bytes :: "'x conn_system \<Rightarrow> nat" where
  "reserved_bytes s = sum_list (map task_bytes (loop_tasks s)) + sum_list (map sender_bytes (senders s))"

text \<open>Before \<open>ConnectEstablished\<close> nobody has anything to do with the connection.\<close>

definition sys_inv :: "'x conn_system \<Rightarrow> bool" where
  "sys_inv s \<longleftrightarrow> conn_inv (reserved_bytes s) (conn s) \<and>
     (conn_state (conn s) = kConnecting \<longrightarrow>
        \<not> added_to_loop (conn_channel (conn s)) \<and> loop_tasks s = [] \<and> (\<forall>t \<in> set (senders s). t = Ready))"

text \<open>What a message callback may do: anything that keeps the invariant of the connection it is given.\<close>

locale message_handler =
  fixes message_callback :: "int + nat \<Rightarrow> TcpConnection \<times> 'x \<Rightarrow> TcpConnection \<times> 'x"
  assumes keeps: "live_inv k c \<Longrightarrow> live_inv k (fst (message_callback room (c, x)))"
begin

lemma HandleRead_inv:
  assumes inv: "live_inv k c"
  shows "live_inv k (fst (HandleRead (message_callback room) input (c, x)))"
proof -
  obtain r b where rd: "ReadFd input (input_buffer c) = (r, b)" by fastforce
  have "buf_wf (input_buffer c)" using inv by (simp add: live_inv_def inv_defs)
  from ReadFd_spec [OF this rd] have wf: "buf_wf b" by simp
  have c1: "live_inv k (c\<lparr>input_buffer := b\<rparr>)" by (rule set_input_inv [OF inv wf])
  then show ?thesis
    by (auto simp: HandleRead_def rd Let_def HandleError_def split: sum.split
        intro: HandleClose_live add_traffic_inv keeps)
qed

lemma HandleEvent_inv:
  assumes "live_inv k c"
  shows "live_inv k (fst (HandleEvent (conn_callbacks message_callback input room1 room2) returned (c, x)))"
proof -
  have rd: "live_inv k (fst (HandleRead (message_callback room1) input (c, x)))" by (rule HandleRead_inv [OF assms])
  obtain c2 x2 where r: "HandleRead (message_callback room1) input (c, x) = (c2, x2)" by fastforce
  with rd have "live_inv k c2" by simp
  with assms r show ?thesis
    by (simp add: HandleEvent_def conn_callbacks_def Let_def HandleError_def HandleClose_live HandleWrite_inv)
qed

end

lemma run_task_inv:
  "live_inv (task_bytes t + k) c \<Longrightarrow> live_inv k (run_task room t c)"
  by (cases t)
    (auto simp: run_task_def task_bytes_def add.commute intro: SendInLoop_inv HandleClose_live ShutdownInLoop_inv)

lemma sender_step_inv:
  assumes "live_inv (k + sender_bytes t) c" and "sender_step t c = Some (t', tasks, c')"
  shows "live_inv (k + sum_list (map task_bytes tasks) + sender_bytes t') c'"
proof (cases t)
  case (SawConnected message)
  obtain ok c1 where r: "ReserveOutput (length message) c = (ok, c1)" by fastforce
  have "live_inv k c" using assms(1) SawConnected by (simp add: sender_bytes_def)
  from ReserveOutput_inv(1) [OF this r] show ?thesis
    using assms(2) SawConnected r by (cases ok) (auto simp: sender_step_def sender_bytes_def)
qed (use assms in \<open>auto simp: sender_step_def sender_bytes_def task_bytes_def\<close>)

lemma reserved_set_sender:
  "i < length (senders s) \<Longrightarrow>
    reserved_bytes (s\<lparr>conn := c, loop_tasks := loop_tasks s @ ts, senders := (senders s)[i := t]\<rparr>) + sender_bytes (senders s ! i) =
      reserved_bytes s + sum_list (map task_bytes ts) + sender_bytes t"
  using sum_list_update [of i "senders s" sender_bytes t] by (simp add: reserved_bytes_def)

lemma sys_inv_live:
  "sys_inv s \<Longrightarrow> conn_state (conn s) \<noteq> kConnecting \<Longrightarrow> live_inv (reserved_bytes s) (conn s)"
  by (simp add: sys_inv_def live_inv_def)

lemma sys_invI: "live_inv (reserved_bytes s) (conn s) \<Longrightarrow> sys_inv s"
  by (simp add: sys_inv_def live_inv_def)

lemma sender_action_inv:
  assumes inv: "sys_inv s" and i: "i < length (senders s)" and step: "sender_step (senders s ! i) (conn s) = Some (t, ts, c)"
  shows "sys_inv (s\<lparr>conn := c, loop_tasks := loop_tasks s @ ts, senders := (senders s)[i := t]\<rparr>)" (is "sys_inv ?s")
proof -
  have "senders s ! i \<noteq> Ready" using step by (auto simp: sender_step_def)
  then have live: "live_inv (reserved_bytes s) (conn s)"
    using inv nth_mem [OF i] by (auto simp: sys_inv_def live_inv_def)
  obtain k where k: "reserved_bytes s = k + sender_bytes (senders s ! i)"
    using i elem_le_sum_list [of i "map sender_bytes (senders s)"]
    by (metis (no_types) add.commute le_iff_add length_map nth_map reserved_bytes_def trans_le_add2)
  have "live_inv (k + sum_list (map task_bytes ts) + sender_bytes t) c"
    using sender_step_inv [OF _ step] live by (simp add: k)
  moreover have "reserved_bytes ?s = k + sum_list (map task_bytes ts) + sender_bytes t"
    using reserved_set_sender [OF i, where c = c and ts = ts and t = t] i k by simp
  ultimately show ?thesis by (intro sys_invI) simp
qed

lemma begin_action_inv:
  assumes inv: "sys_inv s" and i: "i < length (senders s)" "senders s ! i = Ready" and st: "conn_state (conn s) = kConnected"
    and t: "sender_bytes t = 0" and c: "live_inv (reserved_bytes s) c"
  shows "sys_inv (s\<lparr>conn := c, senders := (senders s)[i := t]\<rparr>)"
proof -
  have "reserved_bytes (s\<lparr>conn := c, senders := (senders s)[i := t]\<rparr>) = reserved_bytes s"
    using reserved_set_sender [OF i(1), where c = c and ts = "[]" and t = t] i(2) t by (simp add: sender_bytes_def reserved_bytes_def)
  then show ?thesis using c by (intro sys_invI) simp
qed

sublocale message_handler \<subseteq> connection: inductive_invariant "conn_do message_callback" sys_inv
proof
  fix s a s'
  assume inv: "sys_inv s" and step: "conn_do message_callback a s = Some s'"
  show "sys_inv s'"
  proof (cases a)
    case Establish
    with step have st: "conn_state (conn s) = kConnecting" and s': "s' = s\<lparr>conn := ConnectEstablished (conn s)\<rparr>"
      by (auto split: if_splits)
    have "conn_inv (reserved_bytes s) (conn s)" using inv by (simp add: sys_inv_def)
    from ConnectEstablished_inv [OF this st] show ?thesis
      by (intro sys_invI) (simp add: s' reserved_bytes_def)
  next
    case (Event returned input room1 room2)
    obtain c x where ev: "HandleEvent (conn_callbacks message_callback input room1 room2) returned (conn s, app s) = (c, x)"
      by fastforce
    from step Event ev have added: "added_to_loop (conn_channel (conn s))" and s': "s' = s\<lparr>conn := c, app := x\<rparr>"
      by (auto split: if_splits)
    have "live_inv (reserved_bytes s) (conn s)" using inv added by (auto simp: sys_inv_def live_inv_def)
    from HandleEvent_inv [OF this, of input room1 room2 returned "app s"] ev have "live_inv (reserved_bytes s) c" by simp
    then show ?thesis by (intro sys_invI) (simp add: s' reserved_bytes_def)
  next
    case (RunTask room)
    with step obtain t rest where tasks: "loop_tasks s = t # rest"
      and s': "s' = s\<lparr>conn := run_task room t (conn s), loop_tasks := rest\<rparr>"
      by (auto split: list.splits)
    have "live_inv (reserved_bytes s) (conn s)" using inv tasks by (auto simp: sys_inv_def live_inv_def)
    moreover have "reserved_bytes s = task_bytes t + reserved_bytes s'" by (simp add: s' tasks reserved_bytes_def)
    ultimately have "live_inv (reserved_bytes s') (run_task room t (conn s))" using run_task_inv by metis
    then show ?thesis by (intro sys_invI) (simp add: s')
  next
    case (SendBegin i message)
    with step inv sys_inv_live [OF inv] begin_action_inv [OF inv, of i "SawConnected message" "conn s"] show ?thesis
      by (auto simp: Connected_def sender_bytes_def split: if_splits)
  next
    case (ShutdownBegin i)
    show ?thesis
    proof (cases "conn_state (conn s) = kConnected")
      case True
      then have live: "live_inv (reserved_bytes s) (conn s)" using sys_inv_live [OF inv] by simp
      with True have "live_inv (reserved_bytes s) ((conn s)\<lparr>conn_state := kDisconnecting\<rparr>)"
        by (auto simp: live_inv_def inv_defs)
      with ShutdownBegin step True begin_action_inv [OF inv, of i Disconnecting "(conn s)\<lparr>conn_state := kDisconnecting\<rparr>"]
      show ?thesis by (auto simp: sender_bytes_def split: if_splits)
    qed (use ShutdownBegin step inv in \<open>auto split: if_splits\<close>)
  next
    case (SenderStep i)
    with step sender_action_inv [OF inv, of i] show ?thesis by (auto split: if_splits)
  next
    case Destroy
    with step have st: "conn_state (conn s) \<noteq> kConnecting" and s': "s' = s\<lparr>conn := ConnectDestroyed (conn s)\<rparr>"
      by (auto split: if_splits)
    from ConnectDestroyed_inv [OF sys_inv_live [OF inv st]] show ?thesis
      by (intro sys_invI) (simp add: s' reserved_bytes_def)
  qed
qed

lemma sys_inv_start:
  "ep fd = None \<Longrightarrow> opt_max_output_bytes options < 2 ^ 64 \<Longrightarrow> sys_inv (new_conn_system fd ep options threads x)"
  using registered_new [of ep fd] IsWriting_simps(5) [of fd]
  by (simp add: sys_inv_def new_conn_system_def new_TcpConnection_def inv_defs reserved_bytes_def
      sum_list_replicate sender_bytes_def new_Channel_def)

end
