(* ===== verification/Message_Loop.thy ===== *)
theory Message_Loop
  imports Tcp_Theorems Resp_Parser
begin

text \<open>
  The message callback that src/src/main.cpp installs on the RESP server: it cuts the input buffer into
  commands and hands each to the dispatcher.  The state it works on is the list of the arguments it has
  submitted.
\<close>

subsection \<open>The callback\<close>

definition protocol_error_reply :: "string \<Rightarrow> string" where
  "protocol_error_reply error = Encode (ErrorValue (''ERR Protocol error: '' @ error))"

lemma Retrieve_decreases:
  "Retrieve n b = Inr b' \<Longrightarrow> 0 < n \<Longrightarrow> 0 < ReadableBytes b \<Longrightarrow> ReadableBytes b' < ReadableBytes b"
  by (auto simp: Retrieve_def RetrieveAll_def ReadableBytes_def split: if_splits)

function serve_commands ::
    "int + nat \<Rightarrow> TcpConnection \<times> string list list \<Rightarrow> TcpConnection \<times> string list list" where
  "serve_commands room (c, submitted) =
     (if ReadableBytes (input_buffer c) = 0 then (c, submitted)
      else case ParseCommand default_parser (View (input_buffer c)) of
             kIncomplete \<Rightarrow> (c, submitted)
           | kError error \<Rightarrow>
               (let c1 = c\<lparr>input_buffer := RetrieveAll (input_buffer c)\<rparr>
                in (Shutdown_in_loop (Send_in_loop room (protocol_error_reply error) c1), submitted))
           | kComplete consumed arguments \<Rightarrow>
               (case Retrieve consumed (input_buffer c) of
                  Inl ex \<Rightarrow> (c, submitted)
                | Inr buffer \<Rightarrow> serve_commands room (c\<lparr>input_buffer := buffer\<rparr>, submitted @ [arguments])))"
  by pat_completeness auto
termination
  by (relation "measure (\<lambda>(room, c, submitted). ReadableBytes (input_buffer c))")
    (auto intro: Retrieve_decreases dest: ParseCommand_bound)

declare serve_commands.simps [simp del]

interpretation commands: message_handler serve_commands
proof
  fix k c room x
  show "live_inv k c \<Longrightarrow> live_inv k (fst (serve_commands room (c, x)))"
  proof (induction room "(c, x)" arbitrary: c x rule: serve_commands.induct)
    case (1 room c x)
    have wf: "buf_wf (input_buffer c)" using 1(2) by (simp add: live_inv_def inv_defs)
    show ?case
    proof (cases "ReadableBytes (input_buffer c) = 0")
      case True
      with 1(2) show ?thesis by (simp add: serve_commands.simps [of room c x])
    next
      case False
      show ?thesis
      proof (cases "ParseCommand default_parser (View (input_buffer c))")
        case (kComplete n args)
        then have "n \<le> length (View (input_buffer c))" by (auto dest: ParseCommand_bound)
        then obtain b where b: "Retrieve n (input_buffer c) = Inr b" "buf_wf b"
          using buffer.retrieve [OF wf] by blast
        have "live_inv k (c\<lparr>input_buffer := b\<rparr>)" by (rule set_input_inv [OF 1(2) b(2)])
        from 1(1) [OF False kComplete b(1) this] show ?thesis
          using False kComplete b by (simp add: serve_commands.simps [of room c x])
      next
        case kIncomplete
        with False 1(2) show ?thesis by (simp add: serve_commands.simps [of room c x])
      next
        case (kError e)
        have "live_inv k (c\<lparr>input_buffer := RetrieveAll (input_buffer c)\<rparr>)" by (rule set_input_inv [OF 1(2)]) simp
        with False kError show ?thesis
          by (simp add: serve_commands.simps [of room c x] Shutdown_in_loop_inv Send_in_loop_inv Let_def)
      qed
    qed
  qed
qed

subsection \<open>The stream of commands\<close>

text \<open>What a byte stream says: its commands, then the bytes of an incomplete one or a protocol error.\<close>

function split_stream :: "string \<Rightarrow> string list list \<times> (string + string)" where
  "split_stream xs =
     (if xs = [] then ([], Inr [])
      else case ParseCommand default_parser xs of
             kIncomplete \<Rightarrow> ([], Inr xs)
           | kError error \<Rightarrow> ([], Inl error)
           | kComplete n arguments \<Rightarrow> (let (cs, r) = split_stream (drop n xs) in (arguments # cs, r)))"
  by pat_completeness auto
termination
  by (relation "measure length") (auto dest: ParseCommand_bound)

declare split_stream.simps [simp del]

lemma split_stream_incomplete: "ParseCommand default_parser xs = kIncomplete \<Longrightarrow> split_stream xs = ([], Inr xs)"
  by (subst split_stream.simps) simp

lemma ParseCommand_Nil [simp]: "ParseCommand default_parser [] = kIncomplete"
  by (simp add: ParseCommand_def Parse_def ParseValue.simps default_parser_def)

lemma split_stream_error: "ParseCommand default_parser xs = kError e \<Longrightarrow> split_stream xs = ([], Inl e)"
  by (subst split_stream.simps) auto

lemma split_stream_complete:
  "ParseCommand default_parser xs = kComplete n a \<Longrightarrow>
    split_stream xs = (a # fst (split_stream (drop n xs)), snd (split_stream (drop n xs)))"
  by (subst split_stream.simps) (auto split: prod.split)

lemma split_stream_append:
  "split_stream (xs @ ys) =
     (case split_stream xs of
        (cs, Inl e) \<Rightarrow> (cs, Inl e)
      | (cs, Inr rest) \<Rightarrow> (cs @ fst (split_stream (rest @ ys)), snd (split_stream (rest @ ys))))"
proof (induction xs rule: split_stream.induct)
  case (1 xs)
  show ?case
  proof (cases "ParseCommand default_parser xs")
    case (kComplete n a)
    then have n: "0 < n" "n \<le> length xs" and ne: "xs \<noteq> []" by (auto dest: ParseCommand_bound)
    have "ParseCommand default_parser (xs @ ys) = kComplete n a"
      using command_frames.decode_append [of default_parser xs ys] kComplete by simp
    from split_stream_complete [OF this] split_stream_complete [OF kComplete] 1 [OF ne kComplete] n(2)
    show ?thesis by (auto split: prod.splits sum.splits)
  next
    case kIncomplete
    then show ?thesis by (simp add: split_stream_incomplete)
  next
    case (kError e)
    then have "ParseCommand default_parser (xs @ ys) = kError e"
      using command_frames.decode_append [of default_parser xs ys] by simp
    with kError show ?thesis by (simp add: split_stream_error)
  qed
qed

lemma serve_commands_split:
  assumes "buf_wf (input_buffer c)"
  shows "case split_stream (View (input_buffer c)) of
      (cs, Inr rest) \<Rightarrow> \<exists>b. serve_commands room (c, x) = (c\<lparr>input_buffer := b\<rparr>, x @ cs) \<and> buf_wf b \<and> View b = rest
    | (cs, Inl e) \<Rightarrow> \<exists>b. serve_commands room (c, x) =
        (Shutdown_in_loop (Send_in_loop room (protocol_error_reply e) (c\<lparr>input_buffer := b\<rparr>)), x @ cs) \<and> buf_wf b \<and> View b = []"
  using assms
proof (induction room "(c, x)" arbitrary: c x rule: serve_commands.induct)
  case (1 room c x)
  have len: "ReadableBytes (input_buffer c) = length (View (input_buffer c))" using 1(2) by (simp add: length_View)
  show ?case
  proof (cases "ReadableBytes (input_buffer c) = 0")
    case True
    with len have "View (input_buffer c) = []" by simp
    with True 1(2) show ?thesis
      by (auto simp: serve_commands.simps [of room c x] split_stream.simps [of "[]"] intro!: exI [of _ "input_buffer c"])
  next
    case False
    show ?thesis
    proof (cases "ParseCommand default_parser (View (input_buffer c))")
      case (kComplete n args)
      then have "n \<le> length (View (input_buffer c))" by (auto dest: ParseCommand_bound)
      then obtain b where b: "Retrieve n (input_buffer c) = Inr b" "buf_wf b" "View b = drop n (View (input_buffer c))"
        using buffer.retrieve [OF 1(2)] by blast
      have "serve_commands room (c, x) = serve_commands room (c\<lparr>input_buffer := b\<rparr>, x @ [args])"
        using False kComplete b by (simp add: serve_commands.simps [of room c x])
      with 1(1) [OF False kComplete b(1)] b split_stream_complete [OF kComplete] show ?thesis
        by (auto split: prod.splits sum.splits)
    next
      case kIncomplete
      with False 1(2) show ?thesis
        by (auto simp: serve_commands.simps [of room c x] split_stream_incomplete intro!: exI [of _ "input_buffer c"])
    next
      case (kError e)
      with False show ?thesis
        by (auto simp: serve_commands.simps [of room c x] split_stream_error Let_def intro!: exI [of _ "RetrieveAll (input_buffer c)"])
    qed
  qed
qed

subsection \<open>Reading in chunks\<close>

definition read_chunks ::
    "int + nat \<Rightarrow> string list \<Rightarrow> TcpConnection \<times> string list list \<Rightarrow> TcpConnection \<times> string list list" where
  "read_chunks room chunks = fold (\<lambda>chunk. HandleRead (serve_commands room) (Inr chunk)) chunks"

lemma HandleRead_chunk:
  assumes wf: "buf_wf (input_buffer c)" and ne: "chunk \<noteq> []"
    and limit: "length (View (input_buffer c) @ chunk) \<le> max_request_bytes c"
    and split: "split_stream (View (input_buffer c) @ chunk) = (cs, Inr rest)"
  shows "\<exists>b t. HandleRead (serve_commands room) (Inr chunk) (c, x) = (c\<lparr>input_buffer := b, traffic := t\<rparr>, x @ cs) \<and>
    buf_wf b \<and> View b = rest"
proof -
  obtain r b1 where rd: "ReadFd (Inr chunk) (input_buffer c) = (r, b1)" by fastforce
  from ReadFd_spec [OF wf rd] have b1: "buf_wf b1" "r = Inr (length chunk)" "View b1 = View (input_buffer c) @ chunk" by auto
  let ?c2 = "add_traffic (length chunk) 0 (c\<lparr>input_buffer := b1\<rparr>)"
  have "HandleRead (serve_commands room) (Inr chunk) (c, x) = serve_commands room (?c2, x)"
    using rd b1 ne limit by (simp add: HandleRead_def add_traffic_def length_View [symmetric])
  moreover obtain b where "serve_commands room (?c2, x) = (?c2\<lparr>input_buffer := b\<rparr>, x @ cs)" "buf_wf b" "View b = rest"
    using serve_commands_split [of ?c2 room x] b1 split by (auto simp: add_traffic_def)
  ultimately show ?thesis
    by (intro exI [of _ b] exI [of _ "traffic ?c2"]) (simp add: add_traffic_def)
qed

lemma split_stream_rest_length:
  "split_stream xs = (cs, Inr rest) \<Longrightarrow> length rest \<le> length xs"
proof (induction xs arbitrary: cs rule: split_stream.induct)
  case (1 xs)
  show ?case
  proof (cases "ParseCommand default_parser xs")
    case (kComplete n a)
    then have ne: "xs \<noteq> []" by auto
    from 1(1) [OF ne kComplete, of "fst (split_stream (drop n xs))"] split_stream_complete [OF kComplete] 1(2)
    show ?thesis by (auto intro: le_trans)
  qed (use 1(2) in \<open>auto simp: split_stream_incomplete split_stream_error\<close>)
qed

lemma read_chunks_split:
  assumes "buf_wf (input_buffer c)" and "\<forall>chunk \<in> set chunks. chunk \<noteq> []"
    and "length (View (input_buffer c)) + length (concat chunks) \<le> max_request_bytes c"
    and "split_stream (View (input_buffer c)) = ([], Inr (View (input_buffer c)))"
    and "split_stream (View (input_buffer c) @ concat chunks) = (cs, Inr rest)"
  shows "\<exists>b t. read_chunks room chunks (c, x) = (c\<lparr>input_buffer := b, traffic := t\<rparr>, x @ cs) \<and> View b = rest"
  using assms
proof (induction chunks arbitrary: c x cs)
  case Nil
  then show ?case
    by (intro exI [of _ "input_buffer c"] exI [of _ "traffic c"]) (simp add: read_chunks_def)
next
  case (Cons chunk chunks)
  let ?v = "View (input_buffer c)"
  obtain cs1 r1 where s1: "split_stream (?v @ chunk) = (cs1, r1)" by fastforce
  from Cons.prems(5) split_stream_append [of "?v @ chunk" "concat chunks"] s1
  obtain rest1 where r1: "r1 = Inr rest1" and
      cs: "cs = cs1 @ fst (split_stream (rest1 @ concat chunks))" and rs: "snd (split_stream (rest1 @ concat chunks)) = Inr rest"
    by (cases r1) auto
  have len: "length rest1 \<le> length (?v @ chunk)" by (rule split_stream_rest_length [OF s1 [unfolded r1]])
  have again: "split_stream rest1 = ([], Inr rest1)"
    using split_stream_append [of "?v @ chunk" "[]"] s1 r1 by (cases "split_stream rest1") auto
  obtain b t where b: "HandleRead (serve_commands room) (Inr chunk) (c, x) = (c\<lparr>input_buffer := b, traffic := t\<rparr>, x @ cs1)"
      "buf_wf b" "View b = rest1"
    using HandleRead_chunk [OF Cons.prems(1) _ _ s1 [unfolded r1], of room x] Cons.prems(2,3) by auto
  let ?c = "c\<lparr>input_buffer := b, traffic := t\<rparr>"
  have "\<exists>b' t'. read_chunks room chunks (?c, x @ cs1) = (?c\<lparr>input_buffer := b', traffic := t'\<rparr>, (x @ cs1) @ fst (split_stream (rest1 @ concat chunks))) \<and> View b' = rest"
    using Cons.prems b len again rs by (intro Cons.IH) (auto simp: prod_eq_iff)
  then obtain b' t' where "read_chunks room chunks (?c, x @ cs1) =
      (?c\<lparr>input_buffer := b', traffic := t'\<rparr>, (x @ cs1) @ fst (split_stream (rest1 @ concat chunks)))" "View b' = rest"
    by blast
  then show ?case
    using b(1) cs by (intro exI [of _ b'] exI [of _ t']) (simp add: read_chunks_def)
qed

subsection \<open>Properties\<close>

text \<open>
  C12. The commands of a connection do not depend on how its bytes arrive: however the stream is cut into
  reads, within the request limit and up to the first protocol error, the callback submits exactly the
  commands of the stream, in order, once each, sends nothing, and keeps the bytes of the incomplete command.
\<close>

theorem commands_independent_of_chunks:
  assumes "buf_wf (input_buffer c)" and "View (input_buffer c) = []" and "\<forall>chunk \<in> set chunks. chunk \<noteq> []"
    and "length (concat chunks) \<le> max_request_bytes c" and "split_stream (concat chunks) = (cs, Inr rest)"
  shows "snd (read_chunks room chunks (c, x)) = x @ cs \<and>
    View (input_buffer (fst (read_chunks room chunks (c, x)))) = rest \<and>
    sent_log (fst (read_chunks room chunks (c, x))) = sent_log c \<and>
    conn_state (fst (read_chunks room chunks (c, x))) = conn_state c"
proof -
  have nil: "split_stream [] = ([], Inr [])" by (simp add: split_stream.simps)
  have ex: "\<exists>b t. read_chunks room chunks (c, x) = (c\<lparr>input_buffer := b, traffic := t\<rparr>, x @ cs) \<and> View b = rest"
    by (rule read_chunks_split) (use assms nil in simp_all)
  then obtain b t where "read_chunks room chunks (c, x) = (c\<lparr>input_buffer := b, traffic := t\<rparr>, x @ cs)" "View b = rest"
    by blast
  then show ?thesis by simp
qed

theorem commands_independent_of_chunks_witness:
  "snd (read_chunks (Inr 0) [''*1'' @ [CR], LF # ''$4'', CRLF @ ''PING'' @ CRLF @ ''*1''] (new_TcpConnection 5 (\<lambda>_. None) default_options, [])) =
     [[''PING'']] \<and>
   View (input_buffer (fst (read_chunks (Inr 0) [''*1'' @ [CR], LF # ''$4'', CRLF @ ''PING'' @ CRLF @ ''*1'']
     (new_TcpConnection 5 (\<lambda>_. None) default_options, [])))) = ''*1''"
proof -
  let ?c = "new_TcpConnection 5 (\<lambda>_. None) default_options"
  have enc: "EncodeCommand [''PING''] = ''*1'' @ CRLF @ ''$4'' @ CRLF @ ''PING'' @ CRLF" by code_simp
  have valid: "valid_command default_parser [''PING'']"
    by (simp add: valid_command_def default_parser_def in_int64_def INT64_MIN_def INT64_MAX_def)
  have p1: "ParseCommand default_parser (EncodeCommand [''PING''] @ ''*1'') = kComplete 14 [''PING'']"
    using command_frames.decode_encode [OF valid, of "''*1''"] by (simp add: enc)
  have p2: "ParseCommand default_parser ''*1'' = kIncomplete"
    using command_frames.prefix_incomplete [OF valid, of 2] by (simp add: enc)
  have "split_stream (EncodeCommand [''PING''] @ ''*1'') = ([[''PING'']], Inr ''*1'')"
    using split_stream_complete [OF p1] split_stream_incomplete [OF p2] by (simp add: enc)
  then show ?thesis
    using commands_independent_of_chunks [of ?c "[''*1'' @ [CR], LF # ''$4'', CRLF @ ''PING'' @ CRLF @ ''*1'']" "[[''PING'']]" "''*1''" "Inr 0" "[]"]
    by (simp add: new_TcpConnection_def default_options_def enc)
qed

lemma reaches_sys_inv:
  assumes "ep fd = None" and "opt_max_output_bytes options < 2 ^ 64"
    and "reaches (conn_do serve_commands) (new_conn_system fd ep options threads x) s"
  shows "sys_inv s"
  by (rule commands.connection.on_reaches [OF assms(3)]) (rule sys_inv_start; fact)

definition sample_conn :: "string list list conn_system" where
  "sample_conn = new_conn_system 5 (\<lambda>_. None) default_options 1 []"

definition sample_conn_after :: "conn_action list \<Rightarrow> string list list conn_system" where
  "sample_conn_after as = the (run_actions (conn_do serve_commands) as sample_conn)"

lemma sample_conn_reaches:
  "run_actions (conn_do serve_commands) as sample_conn \<noteq> None \<Longrightarrow>
    reaches (conn_do serve_commands) (new_conn_system 5 (\<lambda>_. None) default_options 1 []) (sample_conn_after as)"
  by (auto simp: sample_conn_after_def sample_conn_def intro: run_actions_reaches)

lemma ReadableBytes_new [simp]: "ReadableBytes (new_Buffer n) = 0"
  by (simp add: ReadableBytes_def new_Buffer_def)

lemmas sample_conn_defs = sample_conn_after_def sample_conn_def new_conn_system_def new_TcpConnection_def default_options_def
  ConnectEstablished_def with_channel_def Connected_def sender_step_def ReserveOutput_def run_task_def SendInLoop_def
  socket_takes_def add_traffic_def ReleaseOutput_def buffer_rest_def Let_def

lemma kReadEvents_value: "kReadEvents = 0x2003"
  by (simp add: kReadEvents_def EPOLLIN_def EPOLLPRI_def EPOLLRDHUP_def)

lemma sample_reading:
  "EnableReading None (new_Channel 5) (\<lambda>_. None) =
     (Inr (), \<lparr>ch_fd = 5, ch_events = kReadEvents, added_to_loop = True\<rparr>, [5 \<mapsto> kReadEvents])"
  "\<not> IsWriting \<lparr>ch_fd = 5, ch_events = kReadEvents, added_to_loop = True\<rparr>"
  by (simp_all add: EnableReading_def UpdateChannel_def new_Channel_def HasNoEvents_def epoll_ctl_def Let_def IsWriting_def
      write_bit bit_kEvents kReadEvents_value)

text \<open>
  C13. Outstanding output is bounded: over every interleaving of reads, writes, replies from other threads
  and closing, \<open>pending_output_bytes_\<close> is exactly the number of bytes in the output buffer, in queued replies
  and in replies whose space is reserved, the subtraction of \<open>ReleaseOutput\<close> never wraps, and the sum never
  exceeds \<open>max_output_bytes\<close>.
\<close>

theorem pending_output_exact_and_bounded:
  assumes "ep fd = None" and "opt_max_output_bytes options < 2 ^ 64"
    and "reaches (conn_do serve_commands) (new_conn_system fd ep options threads x) s"
  shows "pending_output (conn s) = length (View (output_buffer (conn s))) +
      (\<Sum>t \<leftarrow> loop_tasks s. case t of SendInLoopTask m \<Rightarrow> length m | _ \<Rightarrow> 0) +
      (\<Sum>t \<leftarrow> senders s. case t of Reserved m \<Rightarrow> length m | _ \<Rightarrow> 0) \<and>
    pending_output (conn s) \<le> max_output_bytes (conn s)"
proof -
  have "acct_ok (reserved_bytes s) (conn s)"
    using reaches_sys_inv [OF assms] by (simp add: sys_inv_def conn_inv_def)
  moreover have "reserved_bytes s = (\<Sum>t \<leftarrow> loop_tasks s. case t of SendInLoopTask m \<Rightarrow> length m | _ \<Rightarrow> 0) +
      (\<Sum>t \<leftarrow> senders s. case t of Reserved m \<Rightarrow> length m | _ \<Rightarrow> 0)"
    by (simp add: reserved_bytes_def task_bytes_def [abs_def] sender_bytes_def [abs_def])
  ultimately show ?thesis by (simp add: acct_ok_def)
qed

theorem pending_output_exact_and_bounded_witness:
  "pending_output (conn (sample_conn_after [Establish, SendBegin 0 ''hello'', SenderStep 0])) = 5 \<and>
   senders (sample_conn_after [Establish, SendBegin 0 ''hello'', SenderStep 0]) = [Reserved ''hello''] \<and>
   View (output_buffer (conn (sample_conn_after [Establish, SendBegin 0 ''hello'', SenderStep 0]))) = []"
proof -
  let ?as = "[Establish, SendBegin 0 ''hello'', SenderStep 0]"
  have run: "run_actions (conn_do serve_commands) ?as sample_conn \<noteq> None"
    and st: "loop_tasks (sample_conn_after ?as) = []" "senders (sample_conn_after ?as) = [Reserved ''hello'']"
      "View (output_buffer (conn (sample_conn_after ?as))) = []"
    by (simp_all add: sample_conn_defs)
  from pending_output_exact_and_bounded [OF _ _ sample_conn_reaches [OF run]]
  have "pending_output (conn (sample_conn_after ?as)) = 5"
    by (simp add: st default_options_def)
  with st show ?thesis by simp
qed

text \<open>
  C31. Nothing is lost, repeated or reordered on the way out: the bytes the socket has taken are a prefix of
  the messages given to \<open>SendInLoop\<close>, in order; while the connection is not closed the output buffer holds
  exactly the remainder and the channel waits for writability exactly when there is one.  The connection
  callback reports the connection once, its end at most once and after that, and a closed connection has no
  entry in the interest list.
\<close>

theorem output_stream_and_lifecycle:
  assumes "ep fd = None" and "opt_max_output_bytes options < 2 ^ 64"
    and "reaches (conn_do serve_commands) (new_conn_system fd ep options threads x) s"
  shows "(\<exists>rest. concat (sent_log (conn s)) = wire (conn s) @ rest \<and>
      (conn_state (conn s) \<noteq> kDisconnected \<longrightarrow>
        rest = View (output_buffer (conn s)) \<and> (IsWriting (conn_channel (conn s)) \<longleftrightarrow> rest \<noteq> []))) \<and>
    notified (conn s) \<in> {[], [True], [True, False]} \<and> closes (conn s) \<le> 1 \<and>
    (conn_state (conn s) = kDisconnected \<longrightarrow>
      notified (conn s) = [True, False] \<and> conn_epoll (conn s) (ch_fd (conn_channel (conn s))) = None)"
proof -
  have "sys_inv s" by (rule reaches_sys_inv [OF assms])
  then have chan: "chan_ok (conn s)" and str: "stream_ok (conn s)" and life: "life_ok (conn s)"
    by (auto simp: sys_inv_def conn_inv_def)
  from str obtain rest where rest: "concat (sent_log (conn s)) = wire (conn s) @ rest"
    "conn_state (conn s) \<noteq> kDisconnected \<longrightarrow> rest = View (output_buffer (conn s))"
    by (auto simp: stream_ok_def)
  have "\<exists>rest. concat (sent_log (conn s)) = wire (conn s) @ rest \<and>
      (conn_state (conn s) \<noteq> kDisconnected \<longrightarrow>
        rest = View (output_buffer (conn s)) \<and> (IsWriting (conn_channel (conn s)) \<longleftrightarrow> rest \<noteq> []))"
    using rest chan by (intro exI [of _ rest]) (auto simp: chan_ok_def)
  moreover have "notified (conn s) \<in> {[], [True], [True, False]}" "closes (conn s) \<le> 1"
    "conn_state (conn s) = kDisconnected \<longrightarrow> notified (conn s) = [True, False]"
    using life by (auto simp: life_ok_def split: conn_State.splits if_splits)
  moreover have "conn_state (conn s) = kDisconnected \<longrightarrow> conn_epoll (conn s) (ch_fd (conn_channel (conn s))) = None"
    using chan by (auto simp: chan_ok_def registered_def)
  ultimately show ?thesis by blast
qed

theorem output_stream_and_lifecycle_witness:
  "sent_log (conn (sample_conn_after [Establish, SendBegin 0 ''hello'', SenderStep 0, SenderStep 0, RunTask (Inr 9)])) = [''hello''] \<and>
   wire (conn (sample_conn_after [Establish, SendBegin 0 ''hello'', SenderStep 0, SenderStep 0, RunTask (Inr 9)])) = ''hello'' \<and>
   closes (conn (sample_conn_after [Establish, SendBegin 0 ''hello'', SenderStep 0, SenderStep 0, RunTask (Inr 9)])) \<le> 1"
proof -
  let ?as = "[Establish, SendBegin 0 ''hello'', SenderStep 0, SenderStep 0, RunTask (Inr 9)]"
  have run: "run_actions (conn_do serve_commands) ?as sample_conn \<noteq> None"
    and st: "sent_log (conn (sample_conn_after ?as)) = [''hello'']" "wire (conn (sample_conn_after ?as)) = ''hello''"
    using sample_reading by (simp_all add: sample_conn_defs)
  from output_stream_and_lifecycle [OF _ _ sample_conn_reaches [OF run]]
  have "closes (conn (sample_conn_after ?as)) \<le> 1" by (simp add: default_options_def)
  with st show ?thesis by simp
qed

definition sample_established :: TcpConnection where
  "sample_established = ConnectEstablished (new_TcpConnection 5 (\<lambda>_. None) default_options)"

lemma Send_in_loop_direct:
  assumes "Connected c" "\<not> IsWriting (conn_channel c)" "ReadableBytes (output_buffer c) = 0" "pending_output c = 0"
    "length message \<le> max_output_bytes c" "max_output_bytes c < 2 ^ 64" "length message \<le> r"
  shows "Send_in_loop (Inr r) message c =
    c\<lparr>sent_log := sent_log c @ [message], wire := wire c @ message, traffic := (fst (traffic c), snd (traffic c) + length message)\<rparr>"
proof -
  let ?c = "c\<lparr>pending_output := length message, sent_log := sent_log c @ [message], wire := wire c @ message\<rparr>"
  have "ReleaseOutput (length message) ?c = ?c\<lparr>pending_output := 0\<rparr>"
    using assms(5,6) ReleaseOutput_eq [of "length message" ?c] by simp
  then show ?thesis
    using assms
    by (simp add: Send_in_loop_def ReserveOutput_def SendInLoop_def Connected_def socket_takes_def min_def buffer_rest_def
        add_traffic_def Let_def)
qed



end
