(* ===== verification/Database.thy ===== *)
theory Database
  imports Charconv
begin

text \<open>
  The interface between the command layer and the storage: src/include/cachefly/command/database.h.
  The abstract class \<open>Database\<close> is a record of its virtual functions over a state \<open>'d\<close>: a client
  that holds a \<open>Database*\<close> takes the record and the state.
\<close>

datatype SetCondition = kNone | kIfAbsent | kIfPresent
datatype WriteResult = kOk | kConditionFailed | kNoMemory
datatype IncrementStatus = kIncrOk | kNotInteger | kOverflow | kIncrNoMemory

record SetRequest =
  req_key :: string
  req_value :: string
  req_ttl :: "milliseconds option"
  req_condition :: SetCondition

record IncrementResult =
  incr_status :: IncrementStatus
  incr_value :: int

record 'd Database =
  db_Get :: "string \<Rightarrow> 'd \<Rightarrow> string option \<times> 'd"
  db_Set :: "SetRequest \<Rightarrow> 'd \<Rightarrow> WriteResult \<times> 'd"
  db_MSet :: "(string \<times> string) list \<Rightarrow> 'd \<Rightarrow> WriteResult \<times> 'd"
  db_Delete :: "string list \<Rightarrow> 'd \<Rightarrow> int \<times> 'd"
  db_Exists :: "string list \<Rightarrow> 'd \<Rightarrow> int \<times> 'd"
  db_Expire :: "string \<Rightarrow> milliseconds \<Rightarrow> 'd \<Rightarrow> bool \<times> 'd"
  db_TtlSeconds :: "string \<Rightarrow> 'd \<Rightarrow> int \<times> 'd"
  db_Increment :: "string \<Rightarrow> int \<Rightarrow> 'd \<Rightarrow> IncrementResult \<times> 'd"

end
