(* ===== verification/Unordered_Map.thy ===== *)
theory Unordered_Map
  imports Cachefly_Prelude
begin

text \<open>
  \<open>std::unordered_map<std::string, 'v>\<close> as the sources use it: an association list with distinct
  keys, listed in the container's iteration order.  The standard leaves that order open, except that
  \<open>erase\<close> keeps the order of the remaining elements.  Whatever the container does on insertion
  (where the node lands, a rehash that reorders everything) or on copying is some rearrangement of
  the elements; the model takes it as a parameter \<open>hash_order\<close>, a rank for each key of the
  resulting container, and sorts by it.  Every rearrangement arises from some rank, so a statement
  for all \<open>hash_order\<close> covers every implementation.
\<close>

type_synonym 'v umap = "(string \<times> 'v) list"
type_synonym hash_order = "string list \<Rightarrow> string \<Rightarrow> nat"

definition um_arrange :: "hash_order \<Rightarrow> 'v umap \<Rightarrow> 'v umap" where
  "um_arrange ho m = sort_key (\<lambda>p. ho (map fst m) (fst p)) m"

definition um_find :: "'v umap \<Rightarrow> string \<Rightarrow> 'v option" where
  "um_find m k = map_of m k"

definition um_erase :: "string \<Rightarrow> 'v umap \<Rightarrow> 'v umap" where
  "um_erase k m = filter (\<lambda>p. fst p \<noteq> k) m"

definition um_assign :: "string \<Rightarrow> 'v \<Rightarrow> 'v umap \<Rightarrow> 'v umap" where
  "um_assign k v m = map (\<lambda>p. if fst p = k then (k, v) else p) m"

definition um_insert_or_assign :: "hash_order \<Rightarrow> string \<Rightarrow> 'v \<Rightarrow> 'v umap \<Rightarrow> 'v umap" where
  "um_insert_or_assign ho k v m =
     (case um_find m k of Some _ \<Rightarrow> um_assign k v m | None \<Rightarrow> um_arrange ho ((k, v) # m))"

definition um_emplace :: "hash_order \<Rightarrow> string \<Rightarrow> 'v \<Rightarrow> 'v umap \<Rightarrow> 'v umap" where
  "um_emplace ho k v m =
     (case um_find m k of Some _ \<Rightarrow> m | None \<Rightarrow> um_arrange ho ((k, v) # m))"

definition um_copy :: "hash_order \<Rightarrow> 'v umap \<Rightarrow> 'v umap" where
  "um_copy ho m = um_arrange ho m"

definition um_wf :: "'v umap \<Rightarrow> bool" where
  "um_wf m \<longleftrightarrow> distinct (map fst m)"

subsection \<open>Rearranging\<close>

lemma mset_um_arrange [simp]: "mset (um_arrange ho m) = mset m"
  by (simp add: um_arrange_def)

lemma set_um_arrange [simp]: "set (um_arrange ho m) = set m"
  by (simp add: um_arrange_def)

lemma length_um_arrange [simp]: "length (um_arrange ho m) = length m"
  by (simp add: um_arrange_def)

lemma um_wf_mset: "mset m = mset m' \<Longrightarrow> um_wf m = um_wf m'"
  unfolding um_wf_def by (metis mset_map mset_eq_imp_distinct_iff)

lemma um_wf_arrange [simp]: "um_wf (um_arrange ho m) = um_wf m"
  by (rule um_wf_mset) simp

lemma um_find_mset: "um_wf m \<Longrightarrow> mset m = mset m' \<Longrightarrow> um_find m = um_find m'"
  unfolding um_wf_def um_find_def
  by (metis map_of_eqI mset_eq_imp_distinct_iff mset_eq_setD mset_map map_of_inject_set set_map)

lemma um_find_arrange [simp]: "um_wf m \<Longrightarrow> um_find (um_arrange ho m) = um_find m"
  by (rule um_find_mset) simp_all

subsection \<open>Lookup after each operation\<close>

lemma um_find_Some_iff: "um_wf m \<Longrightarrow> um_find m k = Some v \<longleftrightarrow> (k, v) \<in> set m"
  by (simp add: um_wf_def um_find_def)

lemma um_find_SomeD: "um_find m k = Some v \<Longrightarrow> (k, v) \<in> set m"
  by (simp add: um_find_def map_of_SomeD)

lemma um_find_None_iff: "um_find m k = None \<longleftrightarrow> k \<notin> fst ` set m"
  by (simp add: um_find_def map_of_eq_None_iff)

lemma um_find_erase [simp]: "um_find (um_erase k m) = (um_find m)(k := None)"
  by (rule ext) (induction m, auto simp: um_find_def um_erase_def)

lemma um_wf_erase [simp]: "um_wf m \<Longrightarrow> um_wf (um_erase k m)"
  by (simp add: um_wf_def um_erase_def distinct_map_filter)

lemma map_fst_um_assign [simp]: "map fst (um_assign k v m) = map fst m"
  by (induction m) (auto simp: um_assign_def)

lemma um_wf_assign [simp]: "um_wf (um_assign k v m) = um_wf m"
  by (simp add: um_wf_def)

lemma um_find_assign:
  "um_find (um_assign k v m) j = (if j = k then map_option (\<lambda>_. v) (um_find m k) else um_find m j)"
  by (induction m) (auto simp: um_find_def um_assign_def)

lemma um_wf_insert: "um_wf m \<Longrightarrow> um_find m k = None \<Longrightarrow> um_wf ((k, v) # m)"
  by (simp add: um_wf_def um_find_None_iff)

lemma um_find_insert_or_assign [simp]:
  assumes "um_wf m"
  shows "um_find (um_insert_or_assign ho k v m) = (um_find m)(k \<mapsto> v)"
proof (cases "um_find m k")
  case None
  with assms show ?thesis
    by (auto simp: um_insert_or_assign_def um_wf_insert fun_eq_iff) (simp_all add: um_find_def)
next
  case (Some w)
  with assms show ?thesis by (auto simp: um_insert_or_assign_def um_find_assign fun_eq_iff)
qed

lemma um_wf_insert_or_assign [simp]: "um_wf m \<Longrightarrow> um_wf (um_insert_or_assign ho k v m)"
  by (auto simp: um_insert_or_assign_def um_wf_insert split: option.split)

lemma um_find_copy [simp]: "um_wf m \<Longrightarrow> um_find (um_copy ho m) = um_find m"
  by (simp add: um_copy_def)

lemma um_wf_copy [simp]: "um_wf (um_copy ho m) = um_wf m"
  by (simp add: um_copy_def)

lemma um_erase_absent: "um_find m k = None \<Longrightarrow> um_erase k m = m"
  unfolding um_erase_def by (rule filter_True) (auto simp: um_find_None_iff)

lemma length_um_erase: "um_wf m \<Longrightarrow> um_find m k = Some v \<Longrightarrow> Suc (length (um_erase k m)) = length m"
  using length_filter_neq_Suc [of m "(k, v)"]
  by (simp add: um_wf_def um_erase_def um_find_Some_iff [unfolded um_wf_def])

subsection \<open>Sums over the elements\<close>

lemma mset_um_erase:
  "um_wf m \<Longrightarrow> um_find m k = Some v \<Longrightarrow> mset m = add_mset (k, v) (mset (um_erase k m))"
proof (induction m)
  case Nil
  then show ?case by (simp add: um_find_def)
next
  case (Cons p m)
  show ?case
  proof (cases "fst p = k")
    case True
    with Cons.prems have "p = (k, v)" and "um_find m k = None"
      by (auto simp: um_find_def um_wf_def map_of_eq_None_iff prod_eq_iff)
    with um_erase_absent [of m k] show ?thesis by (simp add: um_erase_def)
  next
    case False
    with Cons have "mset m = add_mset (k, v) (mset (um_erase k m))"
      by (simp add: um_find_def um_wf_def)
    with False show ?thesis by (simp add: um_erase_def)
  qed
qed

lemma sum_um_erase:
  fixes f :: "string \<times> 'v \<Rightarrow> 'b::ab_group_add"
  assumes "um_wf m" and "um_find m k = Some v"
  shows "sum_list (map f (um_erase k m)) = sum_list (map f m) - f (k, v)"
proof -
  have "mset (map f m) = add_mset (f (k, v)) (mset (map f (um_erase k m)))"
    using mset_um_erase [OF assms] by simp
  then have "sum_list (map f m) = f (k, v) + sum_list (map f (um_erase k m))"
    by (metis sum_mset.add_mset sum_mset_sum_list)
  then show ?thesis by simp
qed

lemma sum_um_arrange [simp]:
  fixes f :: "string \<times> 'v \<Rightarrow> 'b::comm_monoid_add"
  shows "sum_list (map f (um_arrange ho m)) = sum_list (map f m)"
  by (rule sum_list_map_mset) simp

lemma mset_um_assign:
  "um_wf m \<Longrightarrow> um_find m k = Some w \<Longrightarrow> mset (um_assign k v m) = add_mset (k, v) (mset (um_erase k m))"
proof (induction m)
  case Nil
  then show ?case by (simp add: um_find_def)
next
  case (Cons p m)
  show ?case
  proof (cases "fst p = k")
    case True
    with Cons.prems have "um_find m k = None"
      by (auto simp: um_find_def um_wf_def map_of_eq_None_iff)
    then have "\<forall>q \<in> set m. fst q \<noteq> k" by (auto simp: um_find_None_iff)
    then have "um_assign k v m = m" by (auto simp: um_assign_def intro!: map_idI)
    with True \<open>um_find m k = None\<close> um_erase_absent [of m k] show ?thesis
      by (simp add: um_erase_def um_assign_def)
  next
    case False
    with Cons have "mset (um_assign k v m) = add_mset (k, v) (mset (um_erase k m))"
      by (simp add: um_find_def um_wf_def)
    with False show ?thesis by (simp add: um_erase_def um_assign_def)
  qed
qed

lemma mset_um_insert_or_assign:
  assumes "um_wf m"
  shows "mset (um_insert_or_assign ho k v m) = add_mset (k, v) (mset (um_erase k m))"
  using assms mset_um_assign [of m k _ v] um_erase_absent [of m k]
  by (auto simp: um_insert_or_assign_def split: option.split)

lemma sum_um_insert_or_assign:
  fixes f :: "string \<times> 'v \<Rightarrow> 'b::comm_monoid_add"
  assumes "um_wf m"
  shows "sum_list (map f (um_insert_or_assign ho k v m)) = f (k, v) + sum_list (map f (um_erase k m))"
proof -
  have "mset (map f (um_insert_or_assign ho k v m)) = add_mset (f (k, v)) (mset (map f (um_erase k m)))"
    using mset_um_insert_or_assign [OF assms] by simp
  then show ?thesis by (metis sum_mset.add_mset sum_mset_sum_list)
qed

lemma length_um_erase_less: "p \<in> set m \<Longrightarrow> length (um_erase (fst p) m) < length m"
  unfolding um_erase_def by (rule length_filter_less) auto

end
