(* ===== verification/Metrics.thy ===== *)
theory Metrics
  imports Charconv
begin

text \<open>
  The server's counters: src/include/cachefly/metrics/metrics.h and src/src/metrics/metrics.cpp.
  Every field is a \<open>std::atomic<std::uint64_t>\<close>; each operation is a fixed set of independent
  \<open>fetch_add\<close> and \<open>fetch_sub\<close> calls, which commute, so the sequential update is the state that
  any interleaving of completed calls leaves.
\<close>

record Metrics =
  m_commands :: uint64
  m_errors :: uint64
  m_active_connections :: uint64
  m_total_connections :: uint64
  m_bytes_read :: uint64
  m_bytes_written :: uint64
  m_hits :: uint64
  m_misses :: uint64
  m_expired :: uint64
  m_evicted :: uint64
  m_latency_sum :: uint64
  m_buckets :: "uint64 list"

definition kBounds :: "uint64 list" where
  "kBounds = [50, 100, 250, 500, 1000, 2500, 5000, 10000, 50000, 100000]"

definition new_metrics :: Metrics where
  "new_metrics =
     \<lparr>m_commands = 0, m_errors = 0, m_active_connections = 0, m_total_connections = 0, m_bytes_read = 0,
      m_bytes_written = 0, m_hits = 0, m_misses = 0, m_expired = 0, m_evicted = 0, m_latency_sum = 0,
      m_buckets = replicate (length kBounds) 0\<rparr>"

definition ObserveCommand :: "uint64 \<Rightarrow> bool \<Rightarrow> Metrics \<Rightarrow> Metrics" where
  "ObserveCommand us is_error m =
     m\<lparr>m_commands := m_commands m + 1,
       m_latency_sum := m_latency_sum m + us,
       m_errors := (if is_error then m_errors m + 1 else m_errors m),
       m_buckets := map2 (\<lambda>bound b. if us \<le> bound then b + 1 else b) kBounds (m_buckets m)\<rparr>"

definition ConnectionOpened :: "Metrics \<Rightarrow> Metrics" where
  "ConnectionOpened m =
     m\<lparr>m_active_connections := m_active_connections m + 1, m_total_connections := m_total_connections m + 1\<rparr>"

definition ConnectionClosed :: "Metrics \<Rightarrow> Metrics" where
  "ConnectionClosed m = m\<lparr>m_active_connections := m_active_connections m - 1\<rparr>"

definition AddBytes :: "size_t \<Rightarrow> size_t \<Rightarrow> Metrics \<Rightarrow> Metrics" where
  "AddBytes r w m = m\<lparr>m_bytes_read := m_bytes_read m + r, m_bytes_written := m_bytes_written m + w\<rparr>"

definition CacheHit :: "Metrics \<Rightarrow> Metrics" where
  "CacheHit m = m\<lparr>m_hits := m_hits m + 1\<rparr>"

definition CacheMiss :: "Metrics \<Rightarrow> Metrics" where
  "CacheMiss m = m\<lparr>m_misses := m_misses m + 1\<rparr>"

definition KeyExpired :: "Metrics \<Rightarrow> Metrics" where
  "KeyExpired m = m\<lparr>m_expired := m_expired m + 1\<rparr>"

definition KeyEvicted :: "Metrics \<Rightarrow> Metrics" where
  "KeyEvicted m = m\<lparr>m_evicted := m_evicted m + 1\<rparr>"

definition show_word :: "uint64 \<Rightarrow> string" where
  "show_word w = to_string_nat (unat w)"

definition quote_char :: string where
  "quote_char = [CHR 0x22]"

definition bucket_line :: "uint64 \<times> uint64 \<Rightarrow> string" where
  "bucket_line = (\<lambda>(bound, b).
     ''cachefly_command_latency_microseconds_bucket{le='' @ quote_char @ show_word bound @ quote_char
       @ ''} '' @ show_word b @ [LF])"

definition Prometheus :: "Metrics \<Rightarrow> string" where
  "Prometheus m =
     ''# TYPE cachefly_commands_total counter'' @ [LF] @ ''cachefly_commands_total '' @ show_word (m_commands m) @ [LF]
   @ ''cachefly_command_errors_total '' @ show_word (m_errors m) @ [LF]
   @ ''# TYPE cachefly_connections gauge'' @ [LF] @ ''cachefly_connections '' @ show_word (m_active_connections m) @ [LF]
   @ ''cachefly_connections_total '' @ show_word (m_total_connections m) @ [LF]
   @ ''cachefly_network_bytes_read_total '' @ show_word (m_bytes_read m) @ [LF]
   @ ''cachefly_network_bytes_written_total '' @ show_word (m_bytes_written m) @ [LF]
   @ ''cachefly_cache_hits_total '' @ show_word (m_hits m) @ [LF]
   @ ''cachefly_cache_misses_total '' @ show_word (m_misses m) @ [LF]
   @ ''cachefly_expired_keys_total '' @ show_word (m_expired m) @ [LF]
   @ ''cachefly_evicted_keys_total '' @ show_word (m_evicted m) @ [LF]
   @ concat (map bucket_line (zip kBounds (m_buckets m)))
   @ ''cachefly_command_latency_microseconds_bucket{le='' @ quote_char @ ''+Inf'' @ quote_char @ ''} ''
       @ show_word (m_commands m) @ [LF]
   @ ''cachefly_command_latency_microseconds_sum '' @ show_word (m_latency_sum m) @ [LF]
   @ ''cachefly_command_latency_microseconds_count '' @ show_word (m_commands m) @ [LF]"

subsection \<open>The latency histogram\<close>

abbreviation observe_all :: "(uint64 \<times> bool) list \<Rightarrow> Metrics \<Rightarrow> Metrics" where
  "observe_all obs m \<equiv> foldl (\<lambda>m (us, is_error). ObserveCommand us is_error m) m obs"

lemma ObserveCommand_simps [simp]:
  "length (m_buckets m) = length kBounds \<Longrightarrow> length (m_buckets (ObserveCommand us e m)) = length kBounds"
  "m_commands (ObserveCommand us e m) = m_commands m + 1"
  "m_errors (ObserveCommand us e m) = m_errors m + of_bool e"
  by (simp_all add: ObserveCommand_def)

lemma observe_all_buckets:
  "length (m_buckets m) = length kBounds \<Longrightarrow> i < length kBounds \<Longrightarrow>
    length (m_buckets (observe_all obs m)) = length kBounds \<and>
    m_buckets (observe_all obs m) ! i =
      m_buckets m ! i + of_nat (length (filter (\<lambda>ob. fst ob \<le> kBounds ! i) obs))"
proof (induction obs arbitrary: m)
  case Nil
  then show ?case by simp
next
  case (Cons ob obs)
  obtain us e where ob: "ob = (us, e)" by force
  have "m_buckets (ObserveCommand us e m) ! i =
      (if us \<le> kBounds ! i then m_buckets m ! i + 1 else m_buckets m ! i)"
    using Cons.prems by (simp add: ObserveCommand_def)
  then show ?case using Cons.IH [of "ObserveCommand us e m"] Cons.prems ob by simp
qed

lemma observe_all_counters:
  "m_commands (observe_all obs m) = m_commands m + of_nat (length obs) \<and>
   m_errors (observe_all obs m) = m_errors m + of_nat (length (filter snd obs))"
  by (induction obs arbitrary: m) (auto split: prod.split)

text \<open>
  The latency histogram is exact: after any sequence of observations from a fresh start, each
  bucket holds the number of observations at most its bound, and the command and error counters
  hold the number of observations and of errors (all modulo \<open>2 ^ 64\<close>).
\<close>

theorem histogram_exact:
  "m_buckets (observe_all obs new_metrics) =
     map (\<lambda>bound. of_nat (length (filter (\<lambda>ob. fst ob \<le> bound) obs))) kBounds \<and>
   m_commands (observe_all obs new_metrics) = of_nat (length obs) \<and>
   m_errors (observe_all obs new_metrics) = of_nat (length (filter snd obs))"
proof -
  have len: "length (m_buckets new_metrics) = length kBounds" by (simp add: new_metrics_def)
  have pos: "0 < length kBounds" by (simp add: kBounds_def)
  have zero: "i < length kBounds \<Longrightarrow> m_buckets new_metrics ! i = 0" for i
    by (simp add: new_metrics_def)
  have "length (m_buckets (observe_all obs new_metrics)) = length kBounds"
    using observe_all_buckets [OF len pos] by blast
  then have "m_buckets (observe_all obs new_metrics) =
      map (\<lambda>bound. of_nat (length (filter (\<lambda>ob. fst ob \<le> bound) obs))) kBounds"
    using observe_all_buckets [OF len, of _ obs] zero by (intro nth_equalityI) auto
  then show ?thesis using observe_all_counters [of new_metrics obs] by (simp add: new_metrics_def)
qed

end
