(* ===== verification/Kv_Store.thy ===== *)
theory Kv_Store
  imports Database Unordered_Map Metrics
begin

unbundle bit_operations_syntax

text \<open>
  The key-value store of one shard: src/include/cachefly/storage/kv_store.h and
  src/src/storage/kv_store.cpp.  This theory holds the data and the operations;
  \<open>Kv_Store_Invariant\<close> and \<open>Kv_Store_Spec\<close> hold what is proved about them.

  Every \<open>clock_()\<close> call of an operation is an argument \<open>now\<close> of the operation (two of them where the
  code reads the clock twice), in nanoseconds.  The \<open>metrics_\<close> pointer is an optional record: the
  counters it points to.  \<open>memory_usage\<close>, \<open>maxmemory\<close> and the access counters wrap at 64 bits.
\<close>

datatype EvictionPolicy = kLru | kLfu | kRandom | kNoEviction

definition ParseEvictionPolicy :: "string \<Rightarrow> std_exception + EvictionPolicy" where
  "ParseEvictionPolicy name =
     (if name = ''lru'' then Inr kLru
      else if name = ''lfu'' then Inr kLfu
      else if name = ''random'' then Inr kRandom
      else if name = ''noeviction'' then Inr kNoEviction
      else Inl (invalid_argument (''invalid eviction policy: '' @ name)))"

record SnapshotEntry =
  snap_key :: string
  snap_value :: string
  snap_ttl :: "milliseconds option"

record Entry =
  e_value :: string
  expires_at :: "time_point option"
  last_access :: uint64
  frequency :: uint64

record KvStore =
  maxmemory :: size_t
  policy :: EvictionPolicy
  metrics :: "Metrics option"
  entries :: "Entry umap"
  memory_usage :: size_t
  access_clock :: uint64
  random_state :: uint64
  expire_scan_offset :: size_t

definition new_KvStore :: "size_t \<Rightarrow> EvictionPolicy \<Rightarrow> Metrics option \<Rightarrow> KvStore" where
  "new_KvStore mm pol met =
     \<lparr>maxmemory = mm, policy = pol, metrics = met, entries = [], memory_usage = 0,
      access_clock = 0, random_state = 0x9e3779b97f4a7c15, expire_scan_offset = 0\<rparr>"

text \<open>\<open>if (metrics_ != nullptr) metrics_->f();\<close>\<close>

definition count :: "(Metrics \<Rightarrow> Metrics) \<Rightarrow> KvStore \<Rightarrow> KvStore" where
  "count f s = s\<lparr>metrics := map_option f (metrics s)\<rparr>"

subsection \<open>Time\<close>

text \<open>
  \<open>steady_clock\<close> counts nanoseconds in a \<open>std::int64_t\<close>; adding \<open>std::chrono::milliseconds\<close> first
  scales them, and \<open>duration_cast\<close> to a coarser unit truncates towards zero.
\<close>

definition time_add_ms :: "time_point \<Rightarrow> milliseconds \<Rightarrow> time_point" where
  "time_add_ms t ms = wrap64 (t + wrap64 (ms * 1000000))"

definition time_diff_ms :: "time_point \<Rightarrow> time_point \<Rightarrow> milliseconds" where
  "time_diff_ms t now = wrap64 (t - now) sdiv 1000000"

definition time_diff_s :: "time_point \<Rightarrow> time_point \<Rightarrow> int" where
  "time_diff_s t now = wrap64 (t - now) sdiv 1000000000"

definition IsExpired :: "Entry \<Rightarrow> time_point \<Rightarrow> bool" where
  "IsExpired e now = (case expires_at e of None \<Rightarrow> False | Some t \<Rightarrow> t \<le> now)"

subsection \<open>Accounting\<close>

text \<open>\<open>sizeof(Entry)\<close> on LP64 with libstdc++: string 32, optional time point 16, two counters 8 each.\<close>

definition sizeof_Entry :: size_t where
  "sizeof_Entry = 64"

definition EntryBytes :: "string \<Rightarrow> string \<Rightarrow> size_t" where
  "EntryBytes key val = sizeof_Entry + of_nat (length key) + of_nat (length val)"

text \<open>The two statements that always go together: give the bytes back and erase the node.\<close>

definition erase_entry :: "string \<Rightarrow> Entry \<Rightarrow> KvStore \<Rightarrow> KvStore" where
  "erase_entry key e s =
     s\<lparr>memory_usage := memory_usage s - EntryBytes key (e_value e),
       entries := um_erase key (entries s)\<rparr>"

definition RemoveIfExpired :: "string \<Rightarrow> Entry \<Rightarrow> time_point \<Rightarrow> KvStore \<Rightarrow> bool \<times> KvStore" where
  "RemoveIfExpired key e now s =
     (if \<not> IsExpired e now then (False, s)
      else (True, count KeyExpired (erase_entry key e s)))"

text \<open>
  The shared prologue of the operations: \<open>find\<close> and, when found, \<open>RemoveIfExpired\<close>.  The result is the
  live entry, if there is one, and the store without an expired entry of that key.
\<close>

definition find_live :: "time_point \<Rightarrow> string \<Rightarrow> KvStore \<Rightarrow> Entry option \<times> KvStore" where
  "find_live now key s =
     (case um_find (entries s) key of
        None \<Rightarrow> (None, s)
      | Some e \<Rightarrow> (case RemoveIfExpired key e now s of
                      (True, s') \<Rightarrow> (None, s')
                    | (False, s') \<Rightarrow> (Some e, s')))"

subsection \<open>Get\<close>

definition kv_Get :: "time_point \<Rightarrow> string \<Rightarrow> KvStore \<Rightarrow> string option \<times> KvStore" where
  "kv_Get now key s =
     (case find_live now key s of
        (None, s1) \<Rightarrow> (None, count CacheMiss s1)
      | (Some e, s1) \<Rightarrow>
          (let s2 = count CacheHit s1;
               tick = access_clock s2 + 1;
               e' = e\<lparr>last_access := tick,
                      frequency := (if frequency e < -1 then frequency e + 1 else frequency e)\<rparr>
           in (Some (e_value e), s2\<lparr>access_clock := tick, entries := um_assign key e' (entries s2)\<rparr>)))"

subsection \<open>Eviction\<close>

definition xorshift :: "uint64 \<Rightarrow> uint64" where
  "xorshift r0 =
     (let r1 = r0 XOR push_bit 13 r0;
          r2 = r1 XOR drop_bit 7 r1
      in r2 XOR push_bit 17 r2)"

text \<open>The condition of both loops under which the iterator replaces the best candidate so far.\<close>

fun colder :: "EvictionPolicy \<Rightarrow> Entry \<Rightarrow> Entry \<Rightarrow> bool" where
  "colder kLru e best \<longleftrightarrow> last_access e < last_access best"
| "colder kLfu e best \<longleftrightarrow> frequency e < frequency best"
| "colder _ e best \<longleftrightarrow> False"

fun scan_protected ::
    "EvictionPolicy \<Rightarrow> string \<Rightarrow> (string \<times> Entry) option \<Rightarrow> Entry umap \<Rightarrow> (string \<times> Entry) option" where
  "scan_protected pol protected best [] = best"
| "scan_protected pol protected best (p # ps) =
     (if fst p = protected then scan_protected pol protected best ps
      else case best of
             None \<Rightarrow> scan_protected pol protected (Some p) ps
           | Some b \<Rightarrow>
               if pol = kRandom \<or> colder pol (snd p) (snd b)
               then scan_protected pol protected (Some p) ps
               else scan_protected pol protected best ps)"

fun scan_all ::
    "EvictionPolicy \<Rightarrow> (string \<times> Entry) option \<Rightarrow> Entry umap \<Rightarrow> (string \<times> Entry) option" where
  "scan_all pol best [] = best"
| "scan_all pol best (p # ps) =
     (case best of
        None \<Rightarrow> scan_all pol (Some p) ps
      | Some b \<Rightarrow>
          if colder pol (snd p) (snd b) then scan_all pol (Some p) ps
          else scan_all pol best ps)"

definition SelectVictim_protected :: "string \<Rightarrow> KvStore \<Rightarrow> (string \<times> Entry) option \<times> KvStore" where
  "SelectVictim_protected protected s =
     (if policy s = kRandom \<and> 1 < length (entries s)
      then (let r = xorshift (random_state s);
                s' = s\<lparr>random_state := r\<rparr>;
                candidate = entries s ! (unat r mod length (entries s))
            in if fst candidate \<noteq> protected then (Some candidate, s')
               else (scan_protected (policy s) protected None (entries s), s'))
      else (scan_protected (policy s) protected None (entries s), s))"

definition SelectVictim :: "KvStore \<Rightarrow> (string \<times> Entry) option \<times> KvStore" where
  "SelectVictim s =
     (if policy s = kRandom \<and> entries s \<noteq> []
      then (let r = xorshift (random_state s)
            in (Some (entries s ! (unat r mod length (entries s))), s\<lparr>random_state := r\<rparr>))
      else (scan_all (policy s) None (entries s), s))"

lemma scan_protected_in:
  "scan_protected pol protected best ps = Some v \<Longrightarrow>
    best = Some v \<or> (v \<in> set ps \<and> fst v \<noteq> protected)"
  by (induction pol protected best ps rule: scan_protected.induct) (auto split: if_splits option.splits)

lemma scan_all_in: "scan_all pol best ps = Some v \<Longrightarrow> best = Some v \<or> v \<in> set ps"
  by (induction pol best ps rule: scan_all.induct) (auto split: if_splits option.splits)

lemma SelectVictim_protected_in:
  "SelectVictim_protected protected s = (Some v, s') \<Longrightarrow> v \<in> set (entries s) \<and> fst v \<noteq> protected"
  by (cases "entries s = []")
    (auto simp: SelectVictim_protected_def Let_def dest: scan_protected_in split: if_splits)

lemma SelectVictim_in: "SelectVictim s = (Some v, s') \<Longrightarrow> v \<in> set (entries s)"
  by (auto simp: SelectVictim_def Let_def dest: scan_all_in split: if_splits)

lemma SelectVictim_protected_state:
  "SelectVictim_protected protected s = (v, s') \<Longrightarrow> \<exists>r. s' = s\<lparr>random_state := r\<rparr>"
  by (auto simp: SelectVictim_protected_def Let_def split: if_splits) (metis KvStore.surjective KvStore.update_convs(7))+

lemma SelectVictim_state: "SelectVictim s = (v, s') \<Longrightarrow> \<exists>r. s' = s\<lparr>random_state := r\<rparr>"
  by (auto simp: SelectVictim_def Let_def split: if_splits) (metis KvStore.surjective KvStore.update_convs(7))+

definition evict :: "string \<times> Entry \<Rightarrow> KvStore \<Rightarrow> KvStore" where
  "evict victim s = count KeyEvicted (erase_entry (fst victim) (snd victim) s)"

lemma SelectVictim_protected_shrinks:
  assumes "SelectVictim_protected protected s = (Some victim, s')"
  shows "length (entries (evict victim s')) < length (entries s)"
  using SelectVictim_protected_in [OF assms] SelectVictim_protected_state [OF assms]
  by (auto simp: evict_def count_def erase_entry_def intro: length_um_erase_less)

lemma SelectVictim_shrinks:
  assumes "SelectVictim s = (Some victim, s')"
  shows "length (entries (erase_entry (fst victim) (snd victim) s')) < length (entries s)"
  using SelectVictim_in [OF assms] SelectVictim_state [OF assms]
  by (auto simp: erase_entry_def intro: length_um_erase_less)

text \<open>The \<open>while\<close> loop of \<open>MakeRoom\<close>: each turn erases one entry, so it stops.\<close>

function MakeRoom_loop :: "size_t \<Rightarrow> string \<Rightarrow> KvStore \<Rightarrow> bool \<times> KvStore" where
  "MakeRoom_loop projected protected s =
     (if projected \<le> maxmemory s then (True, s)
      else case SelectVictim_protected protected s of
             (None, s') \<Rightarrow> (False, s')
           | (Some victim, s') \<Rightarrow>
               MakeRoom_loop (projected - EntryBytes (fst victim) (e_value (snd victim)))
                 protected (evict victim s'))"
  by pat_completeness auto
termination
  by (relation "measure (\<lambda>(projected, protected, s). length (entries s))")
    (simp, simp, metis SelectVictim_protected_shrinks)

declare MakeRoom_loop.simps [simp del]

definition MakeRoom :: "size_t \<Rightarrow> string \<Rightarrow> KvStore \<Rightarrow> bool \<times> KvStore" where
  "MakeRoom projected protected s =
     (if projected \<le> maxmemory s then (True, s)
      else if policy s = kNoEviction then (False, s)
      else MakeRoom_loop projected protected s)"

subsection \<open>Set\<close>

definition kv_Set :: "time_point \<Rightarrow> hash_order \<Rightarrow> SetRequest \<Rightarrow> KvStore \<Rightarrow> WriteResult \<times> KvStore" where
  "kv_Set now ho request s =
     (let (found, s1) = find_live now (req_key request) s
      in if req_condition request = kIfAbsent \<and> found \<noteq> None then (kConditionFailed, s1)
         else if req_condition request = kIfPresent \<and> found = None then (kConditionFailed, s1)
         else
           (let old_bytes = (case found of Some e \<Rightarrow> EntryBytes (req_key request) (e_value e) | None \<Rightarrow> 0);
                new_bytes = EntryBytes (req_key request) (req_value request)
            in if new_bytes > maxmemory s1 then (kNoMemory, s1)
               else case MakeRoom (memory_usage s1 - old_bytes + new_bytes) (req_key request) s1 of
                      (False, s2) \<Rightarrow> (kNoMemory, s2)
                    | (True, s2) \<Rightarrow>
                        (let e = \<lparr>e_value = req_value request,
                                  expires_at = map_option (time_add_ms now) (req_ttl request),
                                  last_access = access_clock s2 + 1,
                                  frequency = 1\<rparr>
                         in (kOk, s2\<lparr>memory_usage := memory_usage s2 - old_bytes + new_bytes,
                                     access_clock := access_clock s2 + 1,
                                     entries := um_insert_or_assign ho (req_key request) e (entries s2)\<rparr>))))"

subsection \<open>MSet\<close>

definition mset_updates :: "hash_order \<Rightarrow> (string \<times> string) list \<Rightarrow> string umap" where
  "mset_updates ho kvs = foldl (\<lambda>m (k, v). um_insert_or_assign ho k v m) [] kvs"

definition mset_drop_old :: "string umap \<Rightarrow> KvStore \<Rightarrow> KvStore" where
  "mset_drop_old updates s =
     foldl (\<lambda>s (k, v). case um_find (entries s) k of
                           None \<Rightarrow> s
                         | Some e \<Rightarrow> erase_entry k e s) s updates"

fun mset_required :: "size_t \<Rightarrow> size_t \<Rightarrow> string umap \<Rightarrow> size_t option" where
  "mset_required mm required [] = Some required"
| "mset_required mm required ((k, v) # ups) =
     (if EntryBytes k v > mm - required then None
      else mset_required mm (required + EntryBytes k v) ups)"

text \<open>The eviction loop of \<open>MSet\<close>: \<open>None\<close> is the early \<open>return kNoMemory\<close>.\<close>

function mset_evict :: "size_t \<Rightarrow> nat \<Rightarrow> KvStore \<Rightarrow> (nat \<times> KvStore) option" where
  "mset_evict projected evicted s =
     (if projected \<le> maxmemory s then Some (evicted, s)
      else case SelectVictim s of
             (None, s') \<Rightarrow> None
           | (Some victim, s') \<Rightarrow>
               mset_evict (projected - EntryBytes (fst victim) (e_value (snd victim))) (Suc evicted)
                 (erase_entry (fst victim) (snd victim) s'))"
  by pat_completeness auto
termination
  by (relation "measure (\<lambda>(projected, evicted, s). length (entries s))")
    (simp, simp, metis SelectVictim_shrinks)

declare mset_evict.simps [simp del]

definition mset_insert :: "hash_order \<Rightarrow> string umap \<Rightarrow> KvStore \<Rightarrow> KvStore" where
  "mset_insert ho updates s =
     foldl (\<lambda>s (k, v).
        let tick = access_clock s + 1
        in s\<lparr>access_clock := tick,
             entries := um_emplace ho k
               \<lparr>e_value = v, expires_at = None, last_access = tick, frequency = 1\<rparr> (entries s)\<rparr>)
       s updates"

text \<open>
  \<open>hc\<close>, \<open>hu\<close> and \<open>he\<close> are the iteration orders of the copied map, of the map of updates and of the
  map after each \<open>emplace\<close>.  The trial store has no metrics; the evictions are counted afterwards.
\<close>

definition kv_MSet ::
    "hash_order \<Rightarrow> hash_order \<Rightarrow> hash_order \<Rightarrow> (string \<times> string) list \<Rightarrow> KvStore \<Rightarrow> WriteResult \<times> KvStore" where
  "kv_MSet hc hu he kvs s =
     (let updates = mset_updates hu kvs;
          trial = mset_drop_old updates (s\<lparr>metrics := None, entries := um_copy hc (entries s)\<rparr>)
      in case mset_required (maxmemory trial) 0 updates of
           None \<Rightarrow> (kNoMemory, s)
         | Some required \<Rightarrow>
             (let projected = memory_usage trial + required
              in if projected < memory_usage trial then (kNoMemory, s)
                 else if policy trial = kNoEviction \<and> projected > maxmemory trial then (kNoMemory, s)
                 else case mset_evict projected 0 trial of
                        None \<Rightarrow> (kNoMemory, s)
                      | Some (evicted, trial1) \<Rightarrow>
                          (let trial2 = mset_insert he updates trial1;
                               s' = s\<lparr>entries := entries trial2,
                                      memory_usage := memory_usage trial2 + required,
                                      access_clock := access_clock trial2,
                                      random_state := random_state trial2,
                                      expire_scan_offset := expire_scan_offset trial2\<rparr>
                           in (kOk, ((count KeyEvicted) ^^ evicted) s'))))"

subsection \<open>Delete, Exists, Expire, TtlSeconds\<close>

fun kv_Delete :: "time_point \<Rightarrow> string list \<Rightarrow> KvStore \<Rightarrow> int \<times> KvStore" where
  "kv_Delete now [] s = (0, s)"
| "kv_Delete now (key # keys) s =
     (case find_live now key s of
        (None, s1) \<Rightarrow> kv_Delete now keys s1
      | (Some e, s1) \<Rightarrow>
          (let (n, s2) = kv_Delete now keys (erase_entry key e s1) in (n + 1, s2)))"

fun kv_Exists :: "time_point \<Rightarrow> string list \<Rightarrow> KvStore \<Rightarrow> int \<times> KvStore" where
  "kv_Exists now [] s = (0, s)"
| "kv_Exists now (key # keys) s =
     (case find_live now key s of
        (None, s1) \<Rightarrow> kv_Exists now keys s1
      | (Some e, s1) \<Rightarrow> (let (n, s2) = kv_Exists now keys s1 in (n + 1, s2)))"

definition kv_Expire :: "time_point \<Rightarrow> string \<Rightarrow> milliseconds \<Rightarrow> KvStore \<Rightarrow> bool \<times> KvStore" where
  "kv_Expire now key ttl s =
     (case find_live now key s of
        (None, s1) \<Rightarrow> (False, s1)
      | (Some e, s1) \<Rightarrow>
          if ttl \<le> 0 then (True, erase_entry key e s1)
          else (True, s1\<lparr>entries :=
                 um_assign key (e\<lparr>expires_at := Some (time_add_ms now ttl)\<rparr>) (entries s1)\<rparr>))"

definition kv_TtlSeconds :: "time_point \<Rightarrow> string \<Rightarrow> KvStore \<Rightarrow> int \<times> KvStore" where
  "kv_TtlSeconds now key s =
     (case find_live now key s of
        (None, s1) \<Rightarrow> (-2, s1)
      | (Some e, s1) \<Rightarrow>
          (case expires_at e of
             None \<Rightarrow> (-1, s1)
           | Some t \<Rightarrow> (max 0 (time_diff_s t now), s1)))"

subsection \<open>Increment\<close>

definition stored_integer :: "Entry option \<Rightarrow> int option" where
  "stored_integer found =
     (case found of
        None \<Rightarrow> Some 0
      | Some e \<Rightarrow> (case from_chars (e_value e) of
                      Parsed v n \<Rightarrow> if n = length (e_value e) then Some v else None
                    | _ \<Rightarrow> None))"

definition increment_overflows :: "int \<Rightarrow> int \<Rightarrow> bool" where
  "increment_overflows current delta \<longleftrightarrow>
     (delta > 0 \<and> current > INT64_MAX - delta) \<or> (delta < 0 \<and> current < INT64_MIN - delta)"

definition kv_Increment ::
    "time_point \<Rightarrow> time_point \<Rightarrow> hash_order \<Rightarrow> string \<Rightarrow> int \<Rightarrow> KvStore \<Rightarrow> IncrementResult \<times> KvStore" where
  "kv_Increment now now_set ho key delta s =
     (let (found, s1) = find_live now key s
      in case stored_integer found of
           None \<Rightarrow> (\<lparr>incr_status = kNotInteger, incr_value = 0\<rparr>, s1)
         | Some current \<Rightarrow>
             if increment_overflows current delta
             then (\<lparr>incr_status = kOverflow, incr_value = 0\<rparr>, s1)
             else
               (let result = current + delta;
                    request = \<lparr>req_key = key, req_value = to_string result,
                      req_ttl = (case found of
                                   None \<Rightarrow> None
                                 | Some e \<Rightarrow> map_option (\<lambda>t. time_diff_ms t now) (expires_at e)),
                      req_condition = kNone\<rparr>
                in case kv_Set now_set ho request s1 of
                     (r, s2) \<Rightarrow>
                       if r = kNoMemory then (\<lparr>incr_status = kIncrNoMemory, incr_value = 0\<rparr>, s2)
                       else (\<lparr>incr_status = kIncrOk, incr_value = result\<rparr>, s2)))"

subsection \<open>Active expiry, snapshots, clearing\<close>

text \<open>
  The scan of \<open>ActiveExpire\<close>.  The iterator splits the map in two: \<open>before\<close> it and \<open>after\<close> it, the
  head of \<open>after\<close> being the element it points to; \<open>end()\<close> is an empty \<open>after\<close>, from which the scan
  starts over at \<open>begin()\<close>.  \<open>fuel\<close> counts down \<open>min max_samples initial_size\<close>, the number of
  elements the loop examines at most.  Result: the split and the numbers examined and removed.
\<close>

fun expire_scan ::
    "nat \<Rightarrow> time_point \<Rightarrow> Entry umap \<Rightarrow> Entry umap \<Rightarrow> KvStore \<Rightarrow> nat \<times> nat \<times> Entry umap \<times> Entry umap \<times> KvStore" where
  "expire_scan 0 now before after s = (0, 0, before, after, s)"
| "expire_scan (Suc fuel) now before after s =
     (case (if after = [] then ([], before) else (before, after)) of
        (before, []) \<Rightarrow> (0, 0, before, [], s)
      | (before, p # after) \<Rightarrow>
          if IsExpired (snd p) now
          then (let s' = count KeyExpired (s\<lparr>memory_usage := memory_usage s - EntryBytes (fst p) (e_value (snd p))\<rparr>);
                    (examined, removed, rest) = expire_scan fuel now before after s'
                in (Suc examined, Suc removed, rest))
          else (let (examined, removed, rest) = expire_scan fuel now (before @ [p]) after s
                in (Suc examined, removed, rest)))"

definition kv_ActiveExpire :: "time_point \<Rightarrow> nat \<Rightarrow> KvStore \<Rightarrow> nat \<times> KvStore" where
  "kv_ActiveExpire now max_samples s =
     (if entries s = [] \<or> max_samples = 0 then (0, s)
      else
        (let initial_size = length (entries s);
             skip = unat (expire_scan_offset s) mod initial_size
         in case expire_scan (min max_samples initial_size) now
                   (take skip (entries s)) (drop skip (entries s)) s of
              (examined, removed, before, after, s1) \<Rightarrow>
                (removed, s1\<lparr>entries := before @ after,
                   expire_scan_offset :=
                     (if before @ after = [] then 0
                      else of_nat ((skip + examined) mod length (before @ after)))\<rparr>)))"

definition kv_Size :: "KvStore \<Rightarrow> size_t" where
  "kv_Size s = of_nat (length (entries s))"

definition kv_MemoryUsage :: "KvStore \<Rightarrow> size_t" where
  "kv_MemoryUsage s = memory_usage s"

definition snapshot_entry :: "time_point \<Rightarrow> string \<times> Entry \<Rightarrow> SnapshotEntry" where
  "snapshot_entry now p =
     \<lparr>snap_key = fst p, snap_value = e_value (snd p),
      snap_ttl = map_option (\<lambda>t. max 0 (time_diff_ms t now)) (expires_at (snd p))\<rparr>"

definition kv_Snapshot :: "time_point \<Rightarrow> time_point \<Rightarrow> KvStore \<Rightarrow> SnapshotEntry list \<times> KvStore" where
  "kv_Snapshot now_expire now s =
     (let s1 = snd (kv_ActiveExpire now_expire (length (entries s)) s)
      in (map (snapshot_entry now) (entries s1), s1))"

definition kv_Clear :: "KvStore \<Rightarrow> KvStore" where
  "kv_Clear s = s\<lparr>entries := [], memory_usage := 0, expire_scan_offset := 0\<rparr>"

end
