(* ===== verification/Kv_Store_Invariant.thy ===== *)
theory Kv_Store_Invariant
  imports Kv_Store
begin

text \<open>
  The representation invariant of the store and its memory budget.  \<open>kv_wf\<close> says that keys are
  distinct and that \<open>memory_usage_\<close> is exactly the sum of \<open>EntryBytes\<close> over the entries, modulo
  \<open>2 ^ 64\<close> as the code counts; every operation keeps it without further conditions.  \<open>kv_budget\<close> says
  that the entries really occupy at most \<open>maxmemory_\<close> bytes; it needs sums that do not wrap.
\<close>

definition entry_size :: "string \<times> Entry \<Rightarrow> nat" where
  "entry_size p = unat sizeof_Entry + length (fst p) + length (e_value (snd p))"

definition total_bytes :: "Entry umap \<Rightarrow> nat" where
  "total_bytes m = sum_list (map entry_size m)"

definition word_bytes :: "Entry umap \<Rightarrow> size_t" where
  "word_bytes m = sum_list (map (\<lambda>p. EntryBytes (fst p) (e_value (snd p))) m)"

definition kv_wf :: "KvStore \<Rightarrow> bool" where
  "kv_wf s \<longleftrightarrow> um_wf (entries s) \<and> memory_usage s = word_bytes (entries s)"

definition kv_budget :: "KvStore \<Rightarrow> bool" where
  "kv_budget s \<longleftrightarrow> total_bytes (entries s) \<le> unat (maxmemory s)"

subsection \<open>Sums\<close>

lemma EntryBytes_of_nat: "EntryBytes (fst p) (e_value (snd p)) = of_nat (entry_size p)"
  by (simp add: EntryBytes_def entry_size_def)

lemma word_bytes_of_nat: "word_bytes m = of_nat (total_bytes m)"
  by (induction m) (simp_all add: word_bytes_def total_bytes_def EntryBytes_of_nat)

lemma word_bytes_simps [simp]:
  "word_bytes [] = 0"
  "word_bytes (p # m) = EntryBytes (fst p) (e_value (snd p)) + word_bytes m"
  "word_bytes (m @ m') = word_bytes m + word_bytes m'"
  by (simp_all add: word_bytes_def)

lemma word_bytes_mset: "mset m = mset m' \<Longrightarrow> word_bytes m = word_bytes m'"
  unfolding word_bytes_def by (rule sum_list_map_mset)

lemma total_bytes_mset: "mset m = mset m' \<Longrightarrow> total_bytes m = total_bytes m'"
  unfolding total_bytes_def by (rule sum_list_map_mset)

lemma word_bytes_erase:
  "um_wf m \<Longrightarrow> um_find m k = Some e \<Longrightarrow> word_bytes (um_erase k m) = word_bytes m - EntryBytes k (e_value e)"
  unfolding word_bytes_def by (subst sum_um_erase) simp_all

lemma word_bytes_insert:
  "um_wf m \<Longrightarrow> word_bytes (um_insert_or_assign ho k e m) = EntryBytes k (e_value e) + word_bytes (um_erase k m)"
  unfolding word_bytes_def by (subst sum_um_insert_or_assign) simp_all

lemma word_bytes_assign:
  assumes "um_wf m" "um_find m k = Some e" "e_value e' = e_value e"
  shows "word_bytes (um_assign k e' m) = word_bytes m"
proof -
  have "word_bytes (um_assign k e' m) = word_bytes ((k, e') # um_erase k m)"
    using mset_um_assign [OF assms(1,2), of e'] by (intro word_bytes_mset) simp
  then show ?thesis using assms by (simp add: word_bytes_erase)
qed

subsection \<open>The building blocks\<close>

lemma count_simps [simp]:
  "maxmemory (count f s) = maxmemory s" "policy (count f s) = policy s"
  "entries (count f s) = entries s" "memory_usage (count f s) = memory_usage s"
  "access_clock (count f s) = access_clock s" "random_state (count f s) = random_state s"
  "expire_scan_offset (count f s) = expire_scan_offset s"
  by (simp_all add: count_def)

lemma erase_entry_simps [simp]:
  "maxmemory (erase_entry k e s) = maxmemory s" "policy (erase_entry k e s) = policy s"
  "entries (erase_entry k e s) = um_erase k (entries s)"
  "memory_usage (erase_entry k e s) = memory_usage s - EntryBytes k (e_value e)"
  by (simp_all add: erase_entry_def)

lemma kv_wf_count [simp]: "kv_wf (count f s) = kv_wf s"
  by (simp add: kv_wf_def)

lemma kv_wf_random [simp]: "kv_wf (s\<lparr>random_state := r\<rparr>) = kv_wf s"
  by (simp add: kv_wf_def)

lemma kv_wf_erase: "kv_wf s \<Longrightarrow> um_find (entries s) k = Some e \<Longrightarrow> kv_wf (erase_entry k e s)"
  by (simp add: kv_wf_def word_bytes_erase)

text \<open>Everything a client of the prologue \<open>find_live\<close> needs to know about its two results.\<close>

lemma find_live_Some:
  assumes "find_live now k s = (Some e, s')"
  shows "s' = s" and "um_find (entries s) k = Some e" and "\<not> IsExpired e now"
  using assms by (auto simp: find_live_def RemoveIfExpired_def split: option.splits if_splits)

lemma find_live_None:
  assumes "find_live now k s = (None, s')"
  shows "um_find (entries s') = (um_find (entries s))(k := None)"
    and "\<And>e. um_find (entries s) k = Some e \<Longrightarrow> IsExpired e now"
    and "maxmemory s' = maxmemory s" and "policy s' = policy s"
    and "access_clock s' = access_clock s"
  using assms
  by (auto simp: find_live_def RemoveIfExpired_def fun_eq_iff erase_entry_def split: option.splits if_splits)

lemma find_live_wf [inv_intros]: "kv_wf s \<Longrightarrow> find_live now k s = (r, s') \<Longrightarrow> kv_wf s'"
  by (auto simp: find_live_def RemoveIfExpired_def kv_wf_erase split: option.splits if_splits)

lemma find_live_exhaust:
  obtains (live) e where "find_live now k s = (Some e, s)" "um_find (entries s) k = Some e" "\<not> IsExpired e now"
  | (gone) s' where "find_live now k s = (None, s')" "um_find (entries s') = (um_find (entries s))(k := None)"
      "maxmemory s' = maxmemory s" "policy s' = policy s" "access_clock s' = access_clock s"
      "\<And>e. um_find (entries s) k = Some e \<Longrightarrow> IsExpired e now"
proof -
  obtain r s' where fl: "find_live now k s = (r, s')" by fastforce
  show ?thesis
  proof (cases r)
    case None
    note n = find_live_None [OF fl [unfolded None]]
    show ?thesis by (rule gone [OF fl [unfolded None] n(1,3,4,5)]) (rule n(2))
  next
    case (Some e)
    note l = find_live_Some [OF fl [unfolded Some]]
    show ?thesis using live [of e] fl Some l by simp
  qed
qed

subsection \<open>Making room\<close>

lemma scan_protected_None:
  "scan_protected pol protected best ps = None \<Longrightarrow> best = None \<and> (\<forall>p \<in> set ps. fst p = protected)"
proof (induction ps arbitrary: best)
  case Nil
  then show ?case by simp
next
  case (Cons p ps)
  show ?case
    using Cons.prems Cons.IH [of best] Cons.IH [of "Some p"] by (auto split: if_splits option.splits)
qed

lemma scan_all_None: "scan_all pol best ps = None \<Longrightarrow> best = None \<and> ps = []"
proof (induction ps arbitrary: best)
  case Nil
  then show ?case by simp
next
  case (Cons p ps)
  show ?case
    using Cons.prems Cons.IH [of best] Cons.IH [of "Some p"] by (auto split: if_splits option.splits)
qed

lemma SelectVictim_protected_None:
  "SelectVictim_protected protected s = (None, s') \<Longrightarrow> \<forall>p \<in> set (entries s). fst p = protected"
  by (auto simp: SelectVictim_protected_def Let_def dest: scan_protected_None split: if_splits)

lemma SelectVictim_None: "SelectVictim s = (None, s') \<Longrightarrow> entries s = []"
  by (auto simp: SelectVictim_def Let_def dest: scan_all_None split: if_splits)

text \<open>
  \<open>evicts s s' E\<close>: \<open>s'\<close> is \<open>s\<close> after evicting exactly the keys \<open>E\<close>; nothing else of the map changed.
\<close>

definition evicts :: "KvStore \<Rightarrow> KvStore \<Rightarrow> string set \<Rightarrow> bool" where
  "evicts s s' E \<longleftrightarrow>
     um_find (entries s') = um_find (entries s) |` (- E) \<and> maxmemory s' = maxmemory s \<and>
     policy s' = policy s \<and> access_clock s' = access_clock s"

lemma restrict_map_UNIV [simp]: "m |` UNIV = m"
  by (simp add: restrict_map_def)

lemma evicts_refl [simp]: "evicts s s {}"
  by (simp add: evicts_def)

lemma evicts_trans: "evicts s s1 E1 \<Longrightarrow> evicts s1 s2 E2 \<Longrightarrow> evicts s s2 (E1 \<union> E2)"
  by (simp add: evicts_def Compl_Un)

lemma evicts_erase [simp]: "evicts s (erase_entry k e s) {k}"
  by (simp add: evicts_def erase_entry_def restrict_complement_singleton_eq)

lemma access_clock_erase [simp]: "access_clock (erase_entry k e s) = access_clock s"
  by (simp add: erase_entry_def)

lemma evicts_evict [simp]: "evicts s (evict v (s\<lparr>random_state := r\<rparr>)) {fst v}"
  by (simp add: evicts_def evict_def erase_entry_def restrict_complement_singleton_eq)

lemma evicts_random [simp]: "evicts s (s\<lparr>random_state := r\<rparr>) {}"
  by (simp add: evicts_def)

lemma evict_random_simps [simp]:
  "entries (evict v (s\<lparr>random_state := r\<rparr>)) = um_erase (fst v) (entries s)"
  "maxmemory (evict v (s\<lparr>random_state := r\<rparr>)) = maxmemory s"
  "policy (evict v (s\<lparr>random_state := r\<rparr>)) = policy s"
  "access_clock (evict v (s\<lparr>random_state := r\<rparr>)) = access_clock s"
  "memory_usage (evict v (s\<lparr>random_state := r\<rparr>)) =
     memory_usage s - EntryBytes (fst v) (e_value (snd v))"
  by (simp_all add: evict_def erase_entry_def count_def)

lemma kv_wf_evict:
  "kv_wf s \<Longrightarrow> v \<in> set (entries s) \<Longrightarrow> kv_wf (evict v (s\<lparr>random_state := r\<rparr>))"
  by (cases v) (simp add: evict_def kv_wf_erase kv_wf_def um_find_Some_iff word_bytes_erase)

lemma MakeRoom_loop_spec:
  assumes "kv_wf s" and "MakeRoom_loop projected protected s = (ok, s')"
  shows "kv_wf s' \<and> (\<exists>E. protected \<notin> E \<and> evicts s s' E) \<and>
    (ok \<longrightarrow> projected - memory_usage s + memory_usage s' \<le> maxmemory s) \<and>
    (\<not> ok \<longrightarrow> (\<forall>p \<in> set (entries s'). fst p = protected) \<and>
       maxmemory s < projected - memory_usage s + memory_usage s')"
  using assms
proof (induction projected protected s rule: MakeRoom_loop.induct)
  case (1 projected protected s)
  show ?case
  proof (cases "projected \<le> maxmemory s")
    case True
    with 1(3) have "ok" "s' = s" by (simp_all add: MakeRoom_loop.simps [of projected])
    with True 1(2) show ?thesis using evicts_refl [of s] by auto
  next
    case False
    obtain v r where sv: "SelectVictim_protected protected s = (v, s\<lparr>random_state := r\<rparr>)"
      using SelectVictim_protected_state by (metis surj_pair)
    show ?thesis
    proof (cases v)
      case None
      with False 1(3) sv have "\<not> ok" "s' = s\<lparr>random_state := r\<rparr>"
        by (simp_all add: MakeRoom_loop.simps [of projected])
      moreover have "\<forall>p \<in> set (entries s). fst p = protected"
        using SelectVictim_protected_None sv None by blast
      ultimately show ?thesis using False 1(2) by (auto intro!: exI [of _ "{}"])
    next
      case (Some victim)
      let ?s1 = "evict victim (s\<lparr>random_state := r\<rparr>)"
      have vin: "victim \<in> set (entries s)" "fst victim \<noteq> protected"
        using SelectVictim_protected_in sv Some by blast+
      have step: "MakeRoom_loop (projected - EntryBytes (fst victim) (e_value (snd victim))) protected ?s1 = (ok, s')"
        using 1(3) False sv Some by (simp add: MakeRoom_loop.simps [of projected])
      have wf1: "kv_wf ?s1" by (rule kv_wf_evict [OF 1(2) vin(1)])
      note IH = 1(1) [OF False sv [symmetric] Some wf1 step]
      then obtain E where "protected \<notin> E" and E: "evicts ?s1 s' E" by blast
      then have "evicts s s' ({fst victim} \<union> E)"
        by (intro evicts_trans [OF evicts_evict])
      with \<open>protected \<notin> E\<close> vin(2) have "\<exists>E. protected \<notin> E \<and> evicts s s' E"
        by (intro exI [of _ "{fst victim} \<union> E"]) simp
      moreover have "projected - EntryBytes (fst victim) (e_value (snd victim)) - memory_usage ?s1 =
          projected - memory_usage s" "maxmemory ?s1 = maxmemory s" by simp_all
      ultimately show ?thesis using IH by argo
    qed
  qed
qed

lemma MakeRoom_spec:
  assumes "kv_wf s" and "MakeRoom projected protected s = (ok, s')"
  shows "kv_wf s' \<and> (\<exists>E. protected \<notin> E \<and> evicts s s' E) \<and>
    (ok \<longrightarrow> projected - memory_usage s + memory_usage s' \<le> maxmemory s) \<and>
    (\<not> ok \<longrightarrow> maxmemory s < projected - memory_usage s + memory_usage s') \<and>
    (\<not> ok \<longrightarrow> policy s \<noteq> kNoEviction \<longrightarrow> (\<forall>p \<in> set (entries s'). fst p = protected)) \<and>
    (policy s = kNoEviction \<or> projected \<le> maxmemory s \<longrightarrow> s' = s)"
proof (cases "projected \<le> maxmemory s \<or> policy s = kNoEviction")
  case True
  then show ?thesis
    using assms by (auto simp: MakeRoom_def intro!: exI [of _ "{}"] split: if_splits)
next
  case False
  with assms(2) have "MakeRoom_loop projected protected s = (ok, s')"
    by (simp add: MakeRoom_def)
  then show ?thesis using MakeRoom_loop_spec [OF assms(1)] False by blast
qed

subsection \<open>Set\<close>

definition new_entry :: "time_point \<Rightarrow> SetRequest \<Rightarrow> KvStore \<Rightarrow> Entry" where
  "new_entry now req s =
     \<lparr>e_value = req_value req, expires_at = map_option (time_add_ms now) (req_ttl req),
      last_access = access_clock s + 1, frequency = 1\<rparr>"

text \<open>
  \<open>kv_Set\<close> after its prologue: it fails the condition, or lacks memory, or evicts some other keys and
  stores the entry.
\<close>

lemma kv_Set_cases:
  assumes "kv_wf s" and "kv_Set now ho req s = (r, s')"
  obtains (condition) found where "r = kConditionFailed" "find_live now (req_key req) s = (found, s')"
      "req_condition req = kIfAbsent \<and> found \<noteq> None \<or> req_condition req = kIfPresent \<and> found = None"
  | (no_memory) found where "r = kNoMemory" "find_live now (req_key req) s = (found, s')" "kv_wf s'"
      "maxmemory s < EntryBytes (req_key req) (req_value req) \<or> policy s = kNoEviction \<and>
         maxmemory s < memory_usage s' - (case found of Some e \<Rightarrow> EntryBytes (req_key req) (e_value e) | None \<Rightarrow> 0)
           + EntryBytes (req_key req) (req_value req)"
  | (ok) found s1 s2 E where "r = kOk" "find_live now (req_key req) s = (found, s1)" "kv_wf s2" "kv_wf s'"
      "req_key req \<notin> E" "evicts s1 s2 E" "memory_usage s' \<le> maxmemory s"
      "s' = s2\<lparr>memory_usage := memory_usage s', access_clock := access_clock s2 + 1,
        entries := um_insert_or_assign ho (req_key req) (new_entry now req s2) (entries s2)\<rparr>"
      "EntryBytes (req_key req) (req_value req) \<le> maxmemory s"
      "policy s = kNoEviction \<or> memory_usage s1 - (case found of Some e \<Rightarrow> EntryBytes (req_key req) (e_value e) | None \<Rightarrow> 0)
         + EntryBytes (req_key req) (req_value req) \<le> maxmemory s \<Longrightarrow> s2 = s1"
      "memory_usage s' = memory_usage s2 - (case found of Some e \<Rightarrow> EntryBytes (req_key req) (e_value e) | None \<Rightarrow> 0)
         + EntryBytes (req_key req) (req_value req)"
      "\<not> (req_condition req = kIfAbsent \<and> found \<noteq> None)" "\<not> (req_condition req = kIfPresent \<and> found = None)"
      "\<exists>projected. MakeRoom projected (req_key req) s1 = (True, s2)"
proof -
  let ?k = "req_key req"
  let ?new = "EntryBytes ?k (req_value req)"
  obtain found s1 where fl: "find_live now ?k s = (found, s1)" by fastforce
  let ?old = "case found of Some e \<Rightarrow> EntryBytes ?k (e_value e) | None \<Rightarrow> 0"
  have wf1: "kv_wf s1" using find_live_wf [OF assms(1) fl] .
  have mm: "maxmemory s1 = maxmemory s" "policy s1 = policy s"
    using fl find_live_Some(1) [of now ?k s _ s1] find_live_None(3,4) [of now ?k s s1] by (cases found, auto)+
  have k1: "um_find (entries s1) ?k = found"
    using fl find_live_Some [of now ?k s _ s1] find_live_None(1) [of now ?k s s1] by (cases found) auto
  show thesis
  proof (cases "req_condition req = kIfAbsent \<and> found \<noteq> None \<or> req_condition req = kIfPresent \<and> found = None")
    case True
    then show thesis using condition [of found] assms(2) fl by (auto simp: kv_Set_def)
  next
    case cond: False
    show thesis
    proof (cases "maxmemory s1 < ?new")
      case True
      then show thesis
        using no_memory [of found] assms(2) fl cond wf1 mm by (auto simp: kv_Set_def)
    next
      case fits: False
      let ?proj = "memory_usage s1 - ?old + ?new"
      obtain b s2 where mr: "MakeRoom ?proj ?k s1 = (b, s2)" by fastforce
      note spec = MakeRoom_spec [OF wf1 mr]
      then obtain E where E: "?k \<notin> E" "evicts s1 s2 E" by blast
      have k2: "um_find (entries s2) ?k = found"
        using E k1 by (simp add: evicts_def restrict_map_def)
      show thesis
      proof (cases b)
        case True
        with assms(2) fl cond fits mr have r: "r = kOk"
          and s': "s' = s2\<lparr>memory_usage := memory_usage s2 - ?old + ?new, access_clock := access_clock s2 + 1,
            entries := um_insert_or_assign ho ?k (new_entry now req s2) (entries s2)\<rparr>"
          by (auto simp: kv_Set_def new_entry_def Let_def)
        have wf2: "um_wf (entries s2)" "memory_usage s2 = word_bytes (entries s2)"
          using spec by (simp_all add: kv_wf_def)
        have erased: "word_bytes (um_erase ?k (entries s2)) = memory_usage s2 - ?old"
          using wf2 k2 by (cases found) (simp_all add: word_bytes_erase um_erase_absent)
        have "kv_wf s'"
          unfolding kv_wf_def using wf2 erased by (simp add: s' word_bytes_insert new_entry_def)
        moreover have "memory_usage s' \<le> maxmemory s"
          using spec True by (simp add: s' mm algebra_simps)
        moreover have "\<exists>projected. MakeRoom projected ?k s1 = (True, s2)"
          using mr True by auto
        ultimately show thesis
          using ok [of found s1 s2 E] r s' fl spec E cond fits mm by auto
      next
        case False
        with assms(2) fl cond fits mr have "r = kNoMemory" "s' = s2" by (auto simp: kv_Set_def Let_def)
        moreover have "policy s = kNoEviction"
        proof (rule ccontr)
          assume "policy s \<noteq> kNoEviction"
          with spec False mm have only: "\<forall>p \<in> set (entries s2). fst p = ?k"
            and over: "maxmemory s < ?proj - memory_usage s1 + memory_usage s2" by simp_all
          have "um_erase ?k (entries s2) = []" using only by (simp add: um_erase_def)
          then have "word_bytes (entries s2) = ?old"
            using spec k2 only word_bytes_erase [of "entries s2" ?k]
            by (cases found) (auto simp: kv_wf_def um_find_None_iff um_erase_absent)
          with over spec fits mm show False by (simp add: kv_wf_def)
        qed
        ultimately show thesis
          using no_memory [of found] fl spec mm False by (auto simp: algebra_simps)
      qed
    qed
  qed
qed

lemma kv_Set_wf [inv_intros]:
  assumes "kv_wf s" and "kv_Set now ho req s = (r, s')"
  shows "kv_wf s'"
  by (rule kv_Set_cases [OF assms]) (use find_live_wf [OF assms(1)] in blast)+

subsection \<open>MSet\<close>

lemma mset_updates_snoc:
  "mset_updates ho (kvs @ [(k, v)]) = um_insert_or_assign ho k v (mset_updates ho kvs)"
  by (simp add: mset_updates_def)

lemma mset_updates_wf [simp]: "um_wf (mset_updates ho kvs)"
  by (induction kvs rule: rev_induct) (auto simp: mset_updates_snoc, simp add: mset_updates_def um_wf_def)

lemma um_find_mset_updates: "um_find (mset_updates ho kvs) = map_of (rev kvs)"
  by (induction kvs rule: rev_induct)
    (auto simp: mset_updates_snoc fun_eq_iff, simp add: mset_updates_def um_find_def)

lemma mset_drop_old_Cons:
  "mset_drop_old ((k, v) # ups) s =
    mset_drop_old ups (case um_find (entries s) k of None \<Rightarrow> s | Some e \<Rightarrow> erase_entry k e s)"
  by (simp add: mset_drop_old_def)

lemma mset_drop_old_spec:
  "kv_wf s \<Longrightarrow> kv_wf (mset_drop_old ups s) \<and>
    evicts s (mset_drop_old ups s) (fst ` set ups) \<and> metrics (mset_drop_old ups s) = metrics s"
proof (induction ups arbitrary: s)
  case Nil
  then show ?case by (simp add: mset_drop_old_def)
next
  case (Cons p ups)
  obtain k v where p: "p = (k, v)" by fastforce
  let ?s = "case um_find (entries s) k of None \<Rightarrow> s | Some e \<Rightarrow> erase_entry k e s"
  have "kv_wf ?s" using Cons.prems by (auto simp: kv_wf_erase split: option.split)
  moreover have "evicts s ?s {k}"
    by (cases "um_find (entries s) k") (simp_all add: evicts_def restrict_complement_singleton_eq fun_upd_idem)
  moreover have "metrics ?s = metrics s"
    by (simp add: erase_entry_def split: option.split)
  ultimately show ?case
    using Cons.IH [of ?s] evicts_trans [of s ?s "{k}"] by (fastforce simp: p mset_drop_old_Cons)
qed

lemma mset_required_spec:
  assumes "mset_required mm acc ups = Some required" and "acc \<le> mm"
  shows "required = acc + (\<Sum>(k, v) \<leftarrow> ups. EntryBytes k v) \<and> required \<le> mm"
  using assms
proof (induction mm acc ups rule: mset_required.induct)
  case (1 mm acc)
  then show ?case by simp
next
  case (2 mm acc k v ups)
  then have nl: "\<not> mm - acc < EntryBytes k v" by (auto split: if_splits)
  then have "acc + EntryBytes k v \<le> mm"
    using 2(3) by unat_arith
  moreover have "mset_required mm (acc + EntryBytes k v) ups = Some required"
    using 2(2) nl by simp
  ultimately show ?case using 2(1) [OF nl] by (auto simp: add.assoc)
qed

lemma mset_evict_spec:
  assumes "kv_wf s" and "mset_evict projected n s = Some (n', s')"
  shows "kv_wf s' \<and> (\<exists>E. evicts s s' E) \<and> metrics s' = metrics s \<and>
    projected - memory_usage s + memory_usage s' \<le> maxmemory s"
  using assms
proof (induction projected n s rule: mset_evict.induct)
  case (1 projected n s)
  show ?case
  proof (cases "projected \<le> maxmemory s")
    case True
    with 1(3) have "s' = s" by (simp add: mset_evict.simps [of projected])
    with True 1(2) show ?thesis by (auto intro: exI [of _ "{}"])
  next
    case False
    obtain v r where sv: "SelectVictim s = (v, s\<lparr>random_state := r\<rparr>)"
      using SelectVictim_state by (metis surj_pair)
    with False 1(3) obtain victim where v: "v = Some victim"
      by (cases v) (simp_all add: mset_evict.simps [of projected])
    let ?s1 = "erase_entry (fst victim) (snd victim) (s\<lparr>random_state := r\<rparr>)"
    have vin: "victim \<in> set (entries s)" using SelectVictim_in sv v by blast
    have step: "mset_evict (projected - EntryBytes (fst victim) (e_value (snd victim))) (Suc n) ?s1 = Some (n', s')"
      using 1(3) False sv v by (simp add: mset_evict.simps [of projected])
    have wf1: "kv_wf ?s1"
      using 1(2) vin by (intro kv_wf_erase) (auto simp: kv_wf_def um_find_Some_iff)
    note IH = 1(1) [OF False sv [symmetric] v wf1 step]
    then obtain E where E: "evicts ?s1 s' E" by blast
    then have "evicts s s' ({} \<union> ({fst victim} \<union> E))"
      by (intro evicts_trans [OF evicts_random evicts_trans [OF evicts_erase]])
    then have "\<exists>E. evicts s s' E" by (rule exI)
    moreover have "projected - EntryBytes (fst victim) (e_value (snd victim)) - memory_usage ?s1 =
        projected - memory_usage s" "maxmemory ?s1 = maxmemory s" "metrics ?s1 = metrics s"
      by (simp_all add: erase_entry_def)
    ultimately show ?thesis using IH by argo
  qed
qed

lemma mset_insert_Cons:
  "mset_insert ho ((k, v) # ups) s =
    mset_insert ho ups (s\<lparr>access_clock := access_clock s + 1, entries := um_emplace ho k
      \<lparr>e_value = v, expires_at = None, last_access = access_clock s + 1, frequency = 1\<rparr> (entries s)\<rparr>)"
  by (simp add: mset_insert_def Let_def)

lemma mset_insert_frame [simp]:
  "memory_usage (mset_insert ho ups s) = memory_usage s"
  by (induction ups arbitrary: s) (simp_all add: mset_insert_def Let_def split_def)

lemma um_emplace_absent:
  "um_find m k = None \<Longrightarrow> um_emplace ho k v m = um_arrange ho ((k, v) # m)"
  by (simp add: um_emplace_def)

definition plain_value :: "Entry \<Rightarrow> string \<times> time_point option" where
  "plain_value e = (e_value e, expires_at e)"

text \<open>Inserting updates whose keys are absent adds exactly them, with no expiry.\<close>

lemma mset_insert_spec:
  assumes "um_wf (entries s)" and "um_wf ups" and "\<forall>k \<in> fst ` set ups. um_find (entries s) k = None"
  shows "um_wf (entries (mset_insert ho ups s)) \<and>
    word_bytes (entries (mset_insert ho ups s)) = word_bytes (entries s) + (\<Sum>(k, v) \<leftarrow> ups. EntryBytes k v) \<and>
    (\<forall>k. map_option plain_value (um_find (entries (mset_insert ho ups s)) k) =
      (case um_find ups k of Some v \<Rightarrow> Some (v, None) | None \<Rightarrow> map_option plain_value (um_find (entries s) k)))"
  using assms
proof (induction ups arbitrary: s)
  case Nil
  then show ?case by (simp add: mset_insert_def um_find_def)
next
  case (Cons p ups)
  obtain k v where p: "p = (k, v)" by fastforce
  let ?e = "\<lparr>e_value = v, expires_at = None, last_access = access_clock s + 1, frequency = 1\<rparr>"
  let ?s = "s\<lparr>access_clock := access_clock s + 1, entries := um_emplace ho k ?e (entries s)\<rparr>"
  have k: "um_find (entries s) k = None" using Cons.prems(3) p by simp
  then have es: "entries ?s = um_arrange ho ((k, ?e) # entries s)"
    by (simp add: um_emplace_absent)
  have wf: "um_wf ((k, ?e) # entries s)" using Cons.prems(1) k by (rule um_wf_insert)
  have find: "um_find (entries ?s) = (um_find (entries s))(k \<mapsto> ?e)"
    unfolding es um_find_arrange [OF wf] by (auto simp: um_find_def)
  have fresh: "um_wf ups" "k \<notin> fst ` set ups"
    using Cons.prems(2) p by (auto simp: um_wf_def)
  have absent: "\<forall>j \<in> fst ` set ups. um_find (entries ?s) j = None"
    using Cons.prems(3) fresh(2) p unfolding find by auto
  have ups: "um_find (p # ups) j = (if j = k then Some v else um_find ups j)" for j
    by (simp add: p um_find_def)
  have upsk: "um_find ups k = None" using fresh(2) by (simp add: um_find_None_iff)
  have "um_wf (entries ?s)" unfolding es using wf by simp
  note IH = Cons.IH [OF this fresh(1) absent]
  have bytes: "word_bytes (entries ?s) = EntryBytes k v + word_bytes (entries s)"
    unfolding es using word_bytes_mset [of "um_arrange ho ((k, ?e) # entries s)" "(k, ?e) # entries s"] by simp
  have keys: "map_option plain_value (um_find (entries (mset_insert ho ups ?s)) j) =
      (case um_find (p # ups) j of Some v \<Rightarrow> Some (v, None) | None \<Rightarrow> map_option plain_value (um_find (entries s) j))" for j
  proof -
    have "map_option plain_value (um_find (entries (mset_insert ho ups ?s)) j) =
        (case um_find ups j of Some v \<Rightarrow> Some (v, None) | None \<Rightarrow> map_option plain_value (um_find (entries ?s) j))"
      using IH by blast
    then show ?thesis
      unfolding find ups using upsk by (cases "j = k") (simp_all add: plain_value_def split: option.split)
  qed
  show ?case
    using IH bytes keys unfolding p mset_insert_Cons by simp
qed

lemma count_funpow_simps [simp]:
  "maxmemory ((count f ^^ n) s) = maxmemory s" "policy ((count f ^^ n) s) = policy s"
  "entries ((count f ^^ n) s) = entries s" "memory_usage ((count f ^^ n) s) = memory_usage s"
  "access_clock ((count f ^^ n) s) = access_clock s"
  by (induction n) simp_all

text \<open>The two ways out of \<open>kv_MSet\<close>.\<close>

lemma kv_MSet_exits:
  assumes "kv_MSet hc hu he kvs s = (r, s')" and "ups = mset_updates hu kvs"
    and "trial = mset_drop_old ups (s\<lparr>metrics := None, entries := um_copy hc (entries s)\<rparr>)"
    and "\<not> (r = kNoMemory \<and> s' = s)"
  obtains required n t1 where
    "mset_required (maxmemory trial) 0 ups = Some required"
    "mset_evict (memory_usage trial + required) 0 trial = Some (n, t1)"
    "\<not> memory_usage trial + required < memory_usage trial"
    "r = kOk"
    "s' = (count KeyEvicted ^^ n) (s\<lparr>entries := entries (mset_insert he ups t1),
        memory_usage := memory_usage (mset_insert he ups t1) + required,
        access_clock := access_clock (mset_insert he ups t1),
        random_state := random_state (mset_insert he ups t1),
        expire_scan_offset := expire_scan_offset (mset_insert he ups t1)\<rparr>)"
proof -
  have eq: "kv_MSet hc hu he kvs s =
      (case mset_required (maxmemory trial) 0 ups of
         None \<Rightarrow> (kNoMemory, s)
       | Some required \<Rightarrow>
           if memory_usage trial + required < memory_usage trial then (kNoMemory, s)
           else if policy trial = kNoEviction \<and> memory_usage trial + required > maxmemory trial
           then (kNoMemory, s)
           else case mset_evict (memory_usage trial + required) 0 trial of
                  None \<Rightarrow> (kNoMemory, s)
                | Some (n, t1) \<Rightarrow>
                    (kOk, (count KeyEvicted ^^ n) (s\<lparr>entries := entries (mset_insert he ups t1),
                       memory_usage := memory_usage (mset_insert he ups t1) + required,
                       access_clock := access_clock (mset_insert he ups t1),
                       random_state := random_state (mset_insert he ups t1),
                       expire_scan_offset := expire_scan_offset (mset_insert he ups t1)\<rparr>)))"
    unfolding kv_MSet_def Let_def assms(2,3) by (rule refl)
  show thesis
    using assms(1,4) that unfolding eq
    by (auto simp del: mset_insert_frame split: option.splits if_splits prod.splits)
qed

text \<open>
  A successful \<open>MSet\<close> evicts some keys that are not among the updates and stores every update
  without expiry; a failed one returns the store untouched.
\<close>

lemma kv_MSet_spec:
  assumes "kv_wf s" and "kv_MSet hc hu he kvs s = (r, s')"
  shows "(r = kNoMemory \<and> s' = s) \<or>
    (r = kOk \<and> kv_wf s' \<and> memory_usage s' \<le> maxmemory s \<and> maxmemory s' = maxmemory s \<and>
     policy s' = policy s \<and>
     (\<exists>E. \<forall>k. map_option plain_value (um_find (entries s') k) =
       (case map_of (rev kvs) k of
          Some v \<Rightarrow> Some (v, None)
        | None \<Rightarrow> if k \<in> E then None else map_option plain_value (um_find (entries s) k))))"
proof -
  let ?ups = "mset_updates hu kvs"
  let ?copied = "s\<lparr>metrics := None, entries := um_copy hc (entries s)\<rparr>"
  let ?trial = "mset_drop_old ?ups ?copied"
  have wf0: "kv_wf ?copied"
    using assms(1) word_bytes_mset [of "um_copy hc (entries s)" "entries s"] by (simp add: kv_wf_def um_copy_def)
  note drop = mset_drop_old_spec [OF wf0, of ?ups]
  then have t: "kv_wf ?trial" "maxmemory ?trial = maxmemory s" "policy ?trial = policy s"
    by (simp_all add: evicts_def)
  have tf: "um_find (entries ?trial) = um_find (entries s) |` (- (fst ` set ?ups))"
    using drop assms(1) by (simp add: evicts_def kv_wf_def)
  show ?thesis
  proof (cases "r = kNoMemory \<and> s' = s")
    case False
    then obtain required n t1 where
      req: "mset_required (maxmemory ?trial) 0 ?ups = Some required" and
      ev: "mset_evict (memory_usage ?trial + required) 0 ?trial = Some (n, t1)" and
      r: "r = kOk" and
      s': "s' = (count KeyEvicted ^^ n) (s\<lparr>entries := entries (mset_insert he ?ups t1),
        memory_usage := memory_usage (mset_insert he ?ups t1) + required,
        access_clock := access_clock (mset_insert he ?ups t1),
        random_state := random_state (mset_insert he ?ups t1),
        expire_scan_offset := expire_scan_offset (mset_insert he ?ups t1)\<rparr>)"
      using kv_MSet_exits [OF assms(2) refl refl False] by blast
    note es = mset_evict_spec [OF t(1) ev]
    then obtain E where E: "evicts ?trial t1 E" by blast
    have f1: "um_find (entries t1) k = (if k \<in> E \<or> k \<in> fst ` set ?ups then None else um_find (entries s) k)" for k
      using E tf by (simp add: evicts_def restrict_map_def)
    have ins: "um_wf (entries t1)" "\<forall>k \<in> fst ` set ?ups. um_find (entries t1) k = None"
      using es f1 by (simp_all add: kv_wf_def)
    note ins = mset_insert_spec [OF ins(1) mset_updates_wf ins(2), of he]
    have need: "required = (\<Sum>(k, v) \<leftarrow> ?ups. EntryBytes k v)"
      using mset_required_spec [OF req] by simp
    have "kv_wf s'"
      unfolding kv_wf_def using ins es need by (simp add: s' kv_wf_def)
    moreover have "memory_usage s' \<le> maxmemory s"
      using es by (simp add: s' t(2) algebra_simps)
    moreover have "\<forall>k. map_option plain_value (um_find (entries s') k) =
       (case map_of (rev kvs) k of
          Some v \<Rightarrow> Some (v, None)
        | None \<Rightarrow> if k \<in> E then None else map_option plain_value (um_find (entries s) k))"
    proof
      fix k
      show "map_option plain_value (um_find (entries s') k) =
       (case map_of (rev kvs) k of
          Some v \<Rightarrow> Some (v, None)
        | None \<Rightarrow> if k \<in> E then None else map_option plain_value (um_find (entries s) k))"
        using ins f1 [of k] um_find_mset_updates [of hu kvs] um_find_None_iff [of ?ups k]
        by (cases "map_of (rev kvs) k") (simp_all add: s')
    qed
    moreover have "maxmemory s' = maxmemory s" "policy s' = policy s" by (simp_all add: s')
    ultimately show ?thesis using r by blast
  qed simp
qed

lemma kv_MSet_wf [inv_intros]: "kv_wf s \<Longrightarrow> kv_MSet hc hu he kvs s = (r, s') \<Longrightarrow> kv_wf s'"
  using kv_MSet_spec [of s hc hu he kvs r s'] by blast

subsection \<open>Get, Delete, Exists, Expire, TtlSeconds, Increment\<close>

lemma kv_wf_assign:
  assumes "kv_wf s" and "um_find (entries s) k = Some e" and "e_value e' = e_value e"
  shows "kv_wf (s\<lparr>entries := um_assign k e' (entries s)\<rparr>)"
  using assms word_bytes_assign [of "entries s" k e e'] by (simp add: kv_wf_def)

lemma kv_wf_access [simp]: "kv_wf (s\<lparr>access_clock := c\<rparr>) = kv_wf s"
  by (simp add: kv_wf_def)

lemma kv_Get_wf [inv_intros]: "kv_wf s \<Longrightarrow> kv_Get now k s = (r, s') \<Longrightarrow> kv_wf s'"
  using kv_wf_assign [of "(count CacheHit s)\<lparr>access_clock := access_clock s + 1\<rparr>" k]
  by (cases rule: find_live_exhaust [of now k s])
    (auto simp: kv_Get_def Let_def intro: find_live_wf)

lemma kv_Delete_wf [inv_intros]: "kv_wf s \<Longrightarrow> kv_Delete now ks s = (n, s') \<Longrightarrow> kv_wf s'"
proof (induction ks arbitrary: s n)
  case Nil
  then show ?case by simp
next
  case (Cons k ks)
  show ?case
  proof (cases rule: find_live_exhaust [of now k s])
    case (live e)
    with Cons.prems kv_wf_erase [OF Cons.prems(1) live(2)] show ?thesis
      by (auto simp: Let_def split: prod.splits dest: Cons.IH)
  next
    case (gone s1)
    then have "kv_wf s1" using find_live_wf [OF Cons.prems(1)] by blast
    with Cons.IH Cons.prems(2) gone(1) show ?thesis by simp
  qed
qed

lemma kv_Exists_wf [inv_intros]: "kv_wf s \<Longrightarrow> kv_Exists now ks s = (n, s') \<Longrightarrow> kv_wf s'"
proof (induction ks arbitrary: s n)
  case Nil
  then show ?case by simp
next
  case (Cons k ks)
  show ?case
  proof (cases rule: find_live_exhaust [of now k s])
    case (live e)
    with Cons.prems show ?thesis
      by (auto simp: Let_def split: prod.splits dest: Cons.IH)
  next
    case (gone s1)
    then have "kv_wf s1" using find_live_wf [OF Cons.prems(1)] by blast
    with Cons.IH Cons.prems(2) gone(1) show ?thesis by simp
  qed
qed

lemma kv_Expire_wf [inv_intros]: "kv_wf s \<Longrightarrow> kv_Expire now k ttl s = (b, s') \<Longrightarrow> kv_wf s'"
  by (cases rule: find_live_exhaust [of now k s])
    (auto simp: kv_Expire_def kv_wf_erase kv_wf_assign intro: find_live_wf split: if_splits)

lemma kv_TtlSeconds_wf [inv_intros]: "kv_wf s \<Longrightarrow> kv_TtlSeconds now k s = (n, s') \<Longrightarrow> kv_wf s'"
  by (cases rule: find_live_exhaust [of now k s])
    (auto simp: kv_TtlSeconds_def intro: find_live_wf split: option.splits)

lemma kv_Increment_wf [inv_intros]:
  assumes "kv_wf s" and "kv_Increment now now2 ho k d s = (r, s')"
  shows "kv_wf s'"
proof -
  obtain found s1 where fl: "find_live now k s = (found, s1)" by fastforce
  with assms(1) have "kv_wf s1" by (rule find_live_wf)
  then show ?thesis
    using assms(2) fl
    by (auto simp: kv_Increment_def Let_def split: option.splits if_splits prod.splits intro: kv_Set_wf)
qed

subsection \<open>Active expiry\<close>

text \<open>What a scan removes is expired, and its bytes leave the account.\<close>

lemma expire_scan_spec:
  "expire_scan n now b a s = (x, r, b', a', s') \<Longrightarrow>
    \<exists>R. mset (b @ a) = mset (b' @ a') + mset R \<and> (\<forall>p \<in> set R. IsExpired (snd p) now) \<and>
      memory_usage s' = memory_usage s - word_bytes R \<and> length R = r \<and>
      s' = s\<lparr>memory_usage := memory_usage s', metrics := metrics s'\<rparr>"
proof (induction n now b a s arbitrary: x r b' a' s' rule: expire_scan.induct)
  case (1 now b a s)
  then show ?case by (auto intro!: exI [of _ "[]"])
next
  case (2 n now b a s)
  define ba where "ba = (if a = [] then ([], b) else (b, a))"
  obtain b1 a1 where ba: "ba = (b1, a1)" by fastforce
  have same: "mset (b @ a) = mset (b1 @ a1)" using ba by (auto simp: ba_def split: if_splits)
  show ?case
  proof (cases a1)
    case Nil
    with 2(3) ba show ?thesis
      unfolding same by (auto simp: ba_def [symmetric] intro!: exI [of _ "[]"])
  next
    case (Cons p a2)
    show ?thesis
    proof (cases "IsExpired (snd p) now")
      case True
      let ?s = "count KeyExpired (s\<lparr>memory_usage := memory_usage s - EntryBytes (fst p) (e_value (snd p))\<rparr>)"
      obtain x1 r1 where rec: "expire_scan n now b1 a2 ?s = (x1, r1, b', a', s')" and r: "r = Suc r1"
        using 2(3) ba Cons True by (auto simp: ba_def [symmetric] Let_def split: prod.splits)
      from 2(1) [OF _ _ True refl rec] ba Cons obtain R where
        R: "mset (b1 @ a2) = mset (b' @ a') + mset R" "\<forall>p \<in> set R. IsExpired (snd p) now"
          "memory_usage s' = memory_usage ?s - word_bytes R" "length R = r1"
          "s' = ?s\<lparr>memory_usage := memory_usage s', metrics := metrics s'\<rparr>"
        by (auto simp: ba_def [symmetric])
      show ?thesis
        unfolding same
        by (rule exI [of _ "p # R"]) (use R True Cons r in \<open>auto simp: count_def algebra_simps\<close>)
    next
      case False
      obtain x1 where rec: "expire_scan n now (b1 @ [p]) a2 s = (x1, r, b', a', s')"
        using 2(3) ba Cons False by (auto simp: ba_def [symmetric] Let_def split: prod.splits)
      from 2(2) [OF _ _ False rec] ba Cons show ?thesis
        unfolding same by (auto simp: ba_def [symmetric])
    qed
  qed
qed

text \<open>A pass whose budget covers everything behind the iterator filters that part.\<close>

lemma expire_scan_filter:
  "n \<le> length a \<Longrightarrow> expire_scan n now b a s = (x, r, b', a', s') \<Longrightarrow>
    b' = b @ filter (\<lambda>p. \<not> IsExpired (snd p) now) (take n a) \<and> a' = drop n a \<and> x = n"
proof (induction n arbitrary: b a s x r)
  case 0
  then show ?case by simp
next
  case (Suc n)
  then obtain p a2 where a: "a = p # a2" by (cases a) auto
  show ?case
  proof (cases "IsExpired (snd p) now")
    case True
    obtain x1 r1 where "expire_scan n now b a2
        (count KeyExpired (s\<lparr>memory_usage := memory_usage s - EntryBytes (fst p) (e_value (snd p))\<rparr>)) =
        (x1, r1, b', a', s')" "x = Suc x1"
      using Suc.prems(2) a True by (auto simp: Let_def split: prod.splits)
    with Suc.IH [OF _ this(1)] Suc.prems(1) a True show ?thesis by simp
  next
    case False
    obtain x1 where "expire_scan n now (b @ [p]) a2 s = (x1, r, b', a', s')" "x = Suc x1"
      using Suc.prems(2) a False by (auto simp: Let_def split: prod.splits)
    with Suc.IH [OF _ this(1)] Suc.prems(1) a False show ?thesis by simp
  qed
qed

lemma expire_scan_append:
  "n = length a \<Longrightarrow> a \<noteq> [] \<or> m = 0 \<or> b = [] \<Longrightarrow>
   expire_scan (n + m) now b a s =
     (case expire_scan n now b a s of (x, r, b1, a1, s1) \<Rightarrow>
        (case expire_scan m now b1 [] s1 of (x2, r2, rest) \<Rightarrow> (x + x2, r + r2, rest)))"
proof (induction a arbitrary: n b s)
  case Nil
  then show ?case by (simp split: prod.split)
next
  case (Cons p a)
  then obtain k where n: "n = Suc k" "k = length a" by simp
  have IH: "expire_scan (k + m) now b' a s' =
     (case expire_scan k now b' a s' of (x, r, b1, a1, s1) \<Rightarrow>
        (case expire_scan m now b1 [] s1 of (x2, r2, rest) \<Rightarrow> (x + x2, r + r2, rest)))" for b' s'
    by (cases "a = []") (use n Cons.IH [OF n(2), of b' s'] in \<open>auto split: prod.split\<close>)
  show ?case unfolding n(1) by (simp add: IH Let_def split: prod.split)
qed

lemma expire_scan_restart: "0 < m \<Longrightarrow> expire_scan m now b [] s = expire_scan m now [] b s"
  by (cases m) simp_all

text \<open>
  A pass that examines every element, starting anywhere, leaves exactly the elements that are not
  expired.
\<close>

lemma expire_scan_full:
  assumes "expire_scan (length b + length a) now b a s = (x, r, b', a', s')"
  shows "b' @ a' = filter (\<lambda>p. \<not> IsExpired (snd p) now) (b @ a)"
proof -
  let ?live = "\<lambda>p. \<not> IsExpired (snd p) now"
  obtain x1 r1 b1 a1 s1 where one: "expire_scan (length a) now b a s = (x1, r1, b1, a1, s1)"
    by (metis prod_cases5)
  from expire_scan_filter [OF _ one] have b1: "b1 = b @ filter ?live a" "a1 = []" by simp_all
  obtain x2 r2 b2 a2 s2 where two: "expire_scan (length b) now [] b1 s1 = (x2, r2, b2, a2, s2)"
    by (metis prod_cases5)
  from expire_scan_filter [OF _ two] b1
  have b2: "b2 = filter ?live b" "a2 = filter ?live a" by simp_all
  consider "b = []" | "a = []" "b \<noteq> []" | "a \<noteq> []" "b \<noteq> []" by blast
  then show ?thesis
  proof cases
    case 1
    with assms expire_scan_filter [of "length a" a now "[]" s x r b' a' s'] show ?thesis by simp
  next
    case 2
    with assms expire_scan_filter [of "length b" b now "[]" s x r b' a' s'] show ?thesis
      by (simp add: expire_scan_restart)
  next
    case 3
    then have "expire_scan (length a + length b) now b a s = (x1 + x2, r1 + r2, b2, a2, s2)"
      using one two by (subst expire_scan_append) (auto simp: expire_scan_restart [of _ _ b1])
    with assms b2 show ?thesis by (simp add: add.commute)
  qed
qed

lemma kv_ActiveExpire_spec:
  assumes "kv_wf s" and "kv_ActiveExpire now n s = (r, s')"
  shows "kv_wf s' \<and> maxmemory s' = maxmemory s \<and> policy s' = policy s \<and>
    (\<exists>R. mset (entries s) = mset (entries s') + mset R \<and> length R = r \<and>
       (\<forall>p \<in> set R. IsExpired (snd p) now)) \<and> (unat (expire_scan_offset s') < max 1 (length (entries s')) \<or> s' = s)"
proof (cases "entries s = [] \<or> n = 0")
  case True
  with assms show ?thesis by (auto simp: kv_ActiveExpire_def)
next
  case False
  let ?skip = "unat (expire_scan_offset s) mod length (entries s)"
  obtain x r1 b a s1 where scan: "expire_scan (min n (length (entries s))) now
      (take ?skip (entries s)) (drop ?skip (entries s)) s = (x, r1, b, a, s1)"
    by (metis prod_cases5)
  from expire_scan_spec [OF scan] obtain R where
    R: "mset (entries s) = mset (b @ a) + mset R" "\<forall>p \<in> set R. IsExpired (snd p) now"
      "memory_usage s1 = memory_usage s - word_bytes R" "length R = r1"
    and s1: "s1 = s\<lparr>memory_usage := memory_usage s1, metrics := metrics s1\<rparr>"
    by (auto simp flip: mset_append)
  have s': "r = r1" "entries s' = b @ a" "memory_usage s' = memory_usage s1"
    "maxmemory s' = maxmemory s1" "policy s' = policy s1"
    "expire_scan_offset s' = (if b @ a = [] then 0 else of_nat ((?skip + x) mod length (b @ a)))"
    using assms(2) False scan by (auto simp: kv_ActiveExpire_def Let_def)
  have mm: "maxmemory s1 = maxmemory s" "policy s1 = policy s"
    by (subst s1, simp)+
  have perm: "mset (entries s) = mset ((b @ a) @ R)" using R(1) by simp
  then have "um_wf ((b @ a) @ R)" using assms(1) um_wf_mset [OF perm] by (simp add: kv_wf_def)
  then have wf: "um_wf (b @ a)" by (auto simp: um_wf_def)
  have "word_bytes (entries s) = word_bytes (b @ a) + word_bytes R"
    using word_bytes_mset [OF perm] by simp
  then have "kv_wf s'" using assms(1) wf s' R(3) by (simp add: kv_wf_def)
  moreover have "unat (expire_scan_offset s') < max 1 (length (entries s'))"
  proof (cases "b @ a = []")
    case False
    have "unat (of_nat m :: size_t) \<le> m" for m by (simp add: unat_of_nat)
    moreover have "(?skip + x) mod length (b @ a) < length (b @ a)" using False by simp
    ultimately have "unat (of_nat ((?skip + x) mod length (b @ a)) :: size_t) < length (b @ a)"
      by (meson le_less_trans)
    with False s' show ?thesis by auto
  qed (simp add: s')
  ultimately show ?thesis using R s' mm by (auto intro!: exI [of _ R])
qed

lemma kv_ActiveExpire_wf [inv_intros]: "kv_wf s \<Longrightarrow> kv_ActiveExpire now n s = (r, s') \<Longrightarrow> kv_wf s'"
  using kv_ActiveExpire_spec by blast

lemma kv_ActiveExpire_full:
  assumes "length (entries s) \<le> n"
  shows "entries (snd (kv_ActiveExpire now n s)) = filter (\<lambda>p. \<not> IsExpired (snd p) now) (entries s)"
proof (cases "entries s = [] \<or> n = 0")
  case True
  with assms show ?thesis by (auto simp: kv_ActiveExpire_def)
next
  case False
  let ?skip = "unat (expire_scan_offset s) mod length (entries s)"
  obtain x r1 b a s1 where scan: "expire_scan (length (entries s)) now
      (take ?skip (entries s)) (drop ?skip (entries s)) s = (x, r1, b, a, s1)"
    by (metis prod_cases5)
  moreover have "length (entries s) = length (take ?skip (entries s)) + length (drop ?skip (entries s))"
    by simp
  ultimately have "b @ a = filter (\<lambda>p. \<not> IsExpired (snd p) now) (take ?skip (entries s) @ drop ?skip (entries s))"
    by (intro expire_scan_full) simp
  then have "b @ a = filter (\<lambda>p. \<not> IsExpired (snd p) now) (entries s)" by (simp only: append_take_drop_id)
  with assms False scan show ?thesis by (simp add: kv_ActiveExpire_def Let_def min_absorb2)
qed

lemma kv_Snapshot_wf [inv_intros]: "kv_wf s \<Longrightarrow> kv_Snapshot t now s = (r, s') \<Longrightarrow> kv_wf s'"
  by (auto simp: kv_Snapshot_def Let_def intro: kv_ActiveExpire_wf [OF _ prod.collapse [symmetric]])

lemma kv_Clear_wf [inv_intros]: "kv_wf (kv_Clear s)"
  by (simp add: kv_Clear_def kv_wf_def um_wf_def)

lemma new_KvStore_wf [simp]: "kv_wf (new_KvStore mm pol met)"
  by (simp add: new_KvStore_def kv_wf_def um_wf_def)

end
