(* ===== verification/Kv_Store_Spec.thy ===== *)
theory Kv_Store_Spec
  imports Kv_Store_Invariant
begin

text \<open>
  What the store promises to its clients.  \<open>view t s\<close> is the abstract content of the store at time
  \<open>t\<close>: a partial map from keys to a value and an optional expiry, without the entries that are
  expired at \<open>t\<close>.  Lazy deletion of expired entries, access counters, the scan offset and the
  iteration order are invisible in it.  Each operation is related to the map it should compute.
\<close>

type_synonym kv_map = "string \<rightharpoonup> string \<times> time_point option"

definition expired_at :: "time_point \<Rightarrow> time_point option \<Rightarrow> bool" where
  "expired_at t x = (case x of None \<Rightarrow> False | Some u \<Rightarrow> u \<le> t)"

definition alive :: "time_point \<Rightarrow> kv_map \<Rightarrow> kv_map" where
  "alive t m k = (case m k of None \<Rightarrow> None | Some v \<Rightarrow> if expired_at t (snd v) then None else Some v)"

definition stored :: "KvStore \<Rightarrow> kv_map" where
  "stored s k = map_option plain_value (um_find (entries s) k)"

definition view :: "time_point \<Rightarrow> KvStore \<Rightarrow> kv_map" where
  "view t s = alive t (stored s)"

lemma IsExpired_expired_at: "IsExpired e t = expired_at t (expires_at e)"
  by (simp add: IsExpired_def expired_at_def)

lemma expired_at_mono: "expired_at t x \<Longrightarrow> t \<le> u \<Longrightarrow> expired_at u x"
  by (auto simp: expired_at_def split: option.splits)

lemma alive_alive [simp]: "t \<le> u \<Longrightarrow> alive u (alive t m) = alive u m"
  by (auto simp: alive_def fun_eq_iff expired_at_mono split: option.split)

lemma alive_view [simp]: "t \<le> u \<Longrightarrow> alive u (view t s) = view u s"
  by (simp add: view_def)

lemma alive_update:
  "alive t (m(k := v)) = (alive t m)(k := (case v of None \<Rightarrow> None | Some w \<Rightarrow> if expired_at t (snd w) then None else Some w))"
  by (auto simp: alive_def fun_eq_iff)

lemma alive_restrict: "alive t (m |` A) = alive t m |` A"
  by (auto simp: alive_def fun_eq_iff restrict_map_def)

lemma view_apply:
  "view t s k = (case um_find (entries s) k of
     None \<Rightarrow> None | Some e \<Rightarrow> if IsExpired e t then None else Some (plain_value e))"
  by (simp add: view_def alive_def stored_def IsExpired_expired_at plain_value_def split: option.split)

lemma view_None_mono: "view now s k = None \<Longrightarrow> now \<le> t \<Longrightarrow> view t s k = None"
  by (auto simp: view_apply IsExpired_expired_at intro: expired_at_mono split: option.splits if_splits)

lemma view_count [simp]: "view t (count f s) = view t s"
  by (simp add: fun_eq_iff view_apply)

lemma view_clock [simp]: "view t (s\<lparr>access_clock := c\<rparr>) = view t s"
  by (simp add: fun_eq_iff view_apply)

lemma view_erase [simp]: "view t (erase_entry k e s) = (view t s)(k := None)"
  by (simp add: fun_eq_iff view_apply)

lemma view_evicts: "evicts s s' E \<Longrightarrow> view t s' = view t s |` (- E)"
  by (auto simp: fun_eq_iff view_apply evicts_def restrict_map_def)

lemma view_assign:
  "um_find (entries s) k = Some e \<Longrightarrow> view t (s\<lparr>entries := um_assign k e' (entries s)\<rparr>) =
    alive t ((view t s)(k \<mapsto> plain_value e'))"
  by (auto simp: fun_eq_iff view_apply um_find_assign alive_def IsExpired_expired_at plain_value_def
      split: option.split)

lemma find_live_view:
  assumes "find_live now k s = (found, s')"
  shows "map_option plain_value found = view now s k" and "\<And>t. now \<le> t \<Longrightarrow> view t s' = view t s"
proof -
  have "map_option plain_value found = view now s k \<and> (\<forall>t \<ge> now. view t s' = view t s)"
  proof (cases rule: find_live_exhaust [of now k s])
    case (live e)
    with assms have "found = Some e" "s' = s" by simp_all
    with live show ?thesis by (simp add: view_apply)
  next
    case (gone s1)
    have "view t s1 j = view t s j" if "now \<le> t" for t j
      using gone(2,6) that expired_at_mono
      by (cases "j = k") (auto simp: view_apply IsExpired_expired_at split: option.split)
    moreover have "view now s k = None"
      using gone(6) by (auto simp: view_apply split: option.split)
    ultimately show ?thesis using assms gone(1) by auto
  qed
  then show "map_option plain_value found = view now s k" and "\<And>t. now \<le> t \<Longrightarrow> view t s' = view t s"
    by auto
qed

subsection \<open>Reading\<close>

lemma kv_Get_view:
  assumes "kv_Get now k s = (r, s')"
  shows "r = map_option fst (view now s k)" and "\<And>t. now \<le> t \<Longrightarrow> view t s' = view t s"
proof -
  have "r = map_option fst (view now s k) \<and> (\<forall>t \<ge> now. view t s' = view t s)"
  proof (cases rule: find_live_exhaust [of now k s])
    case (live e)
    let ?e = "e\<lparr>last_access := access_clock s + 1,
                frequency := (if frequency e < -1 then frequency e + 1 else frequency e)\<rparr>"
    from assms live(1) have r: "r = Some (e_value e)"
      and s': "s' = (count CacheHit s)\<lparr>access_clock := access_clock s + 1, entries := um_assign k ?e (entries s)\<rparr>"
      by (auto simp: kv_Get_def Let_def)
    have "view t s' = view t s" for t
      unfolding s' using live(2)
      by (auto simp: fun_eq_iff view_apply um_find_assign IsExpired_def plain_value_def split: option.split)
    with r live show ?thesis by (simp add: view_apply plain_value_def)
  next
    case (gone s1)
    with assms find_live_view [OF gone(1)] show ?thesis by (auto simp: kv_Get_def)
  qed
  then show "r = map_option fst (view now s k)" and "\<And>t. now \<le> t \<Longrightarrow> view t s' = view t s" by auto
qed

lemma kv_Exists_view:
  assumes "kv_Exists now ks s = (n, s')"
  shows "n = int (length (filter (\<lambda>k. view now s k \<noteq> None) ks)) \<and> (\<forall>t \<ge> now. view t s' = view t s)"
  using assms
proof (induction ks arbitrary: s n)
  case Nil
  then show ?case by simp
next
  case (Cons k ks)
  obtain found s1 where fl: "find_live now k s = (found, s1)" by fastforce
  obtain m where rec: "kv_Exists now ks s1 = (m, s')" and n: "n = (if found = None then m else m + 1)"
    using Cons.prems fl by (cases found) (auto split: prod.splits)
  note v = find_live_view [OF fl]
  show ?case using Cons.IH [OF rec] v(2) v(1) [symmetric] n by (cases found) auto
qed

lemma kv_TtlSeconds_view:
  assumes "kv_TtlSeconds now k s = (n, s')"
  shows "n = (case view now s k of
      None \<Rightarrow> -2 | Some (_, None) \<Rightarrow> -1 | Some (_, Some x) \<Rightarrow> max 0 (time_diff_s x now))"
    and "\<And>t. now \<le> t \<Longrightarrow> view t s' = view t s"
proof -
  obtain found s1 where fl: "find_live now k s = (found, s1)" by fastforce
  note v = find_live_view [OF fl]
  show "n = (case view now s k of
      None \<Rightarrow> -2 | Some (_, None) \<Rightarrow> -1 | Some (_, Some x) \<Rightarrow> max 0 (time_diff_s x now))"
    using assms fl unfolding v(1) [symmetric]
    by (cases found) (auto simp: kv_TtlSeconds_def plain_value_def split: option.splits)
  show "view t s' = view t s" if "now \<le> t" for t
    using assms fl v(2) [OF that] by (cases found) (auto simp: kv_TtlSeconds_def split: option.splits)
qed

subsection \<open>Deleting and expiring\<close>

lemma kv_Delete_view:
  assumes "kv_Delete now ks s = (n, s')"
  shows "n = int (card {k \<in> set ks. view now s k \<noteq> None}) \<and>
    (\<forall>t \<ge> now. view t s' = view t s |` (- set ks))"
  using assms
proof (induction ks arbitrary: s n)
  case Nil
  then show ?case by simp
next
  case (Cons k ks)
  obtain found s1 where fl: "find_live now k s = (found, s1)" by fastforce
  note v = find_live_view [OF fl]
  let ?s2 = "case found of None \<Rightarrow> s1 | Some e \<Rightarrow> erase_entry k e s1"
  obtain m where rec: "kv_Delete now ks ?s2 = (m, s')" and n: "n = (if found = None then m else m + 1)"
    using Cons.prems fl by (cases found) (auto split: prod.splits)
  note IH = Cons.IH [OF rec]
  have k: "view t ?s2 = (view t s)(k := None)" if "now \<le> t" for t
  proof (cases found)
    case None
    with v(1) have "view now s k = None" by simp
    then have "view t s k = None" using that by (rule view_None_mono)
    with None v(2) [OF that] show ?thesis by (simp add: fun_upd_idem)
  next
    case (Some e)
    with v(2) [OF that] show ?thesis by simp
  qed
  have "{j \<in> set (k # ks). view now s j \<noteq> None} =
      {j \<in> set ks. view now ?s2 j \<noteq> None} \<union> (if found = None then {} else {k})"
    using k [of now] v(1) [symmetric] by (auto split: if_splits)
  moreover have "k \<notin> {j \<in> set ks. view now ?s2 j \<noteq> None}" using k [of now] by simp
  ultimately have "n = int (card {j \<in> set (k # ks). view now s j \<noteq> None})"
    using IH n by simp
  moreover have "view t s' = view t s |` (- set (k # ks))" if "now \<le> t" for t
    using IH k [OF that] that by (simp add: fun_eq_iff restrict_map_def)
  ultimately show ?case by blast
qed

lemma kv_Expire_view:
  assumes "kv_Expire now k ttl s = (b, s')"
  shows "b = (view now s k \<noteq> None)"
    and "\<And>t. now \<le> t \<Longrightarrow> view t s' = (case view now s k of
      None \<Rightarrow> view t s
    | Some (v, x) \<Rightarrow> if ttl \<le> 0 then (view t s)(k := None)
        else alive t ((view t s)(k \<mapsto> (v, Some (time_add_ms now ttl)))))"
proof -
  obtain found s1 where fl: "find_live now k s = (found, s1)" by fastforce
  note v = find_live_view [OF fl]
  show "b = (view now s k \<noteq> None)"
    using assms fl unfolding v(1) [symmetric] by (cases found) (auto simp: kv_Expire_def split: if_splits)
  fix t assume t: "now \<le> t"
  show "view t s' = (case view now s k of
      None \<Rightarrow> view t s
    | Some (v, x) \<Rightarrow> if ttl \<le> 0 then (view t s)(k := None)
        else alive t ((view t s)(k \<mapsto> (v, Some (time_add_ms now ttl)))))"
  proof (cases found)
    case None
    with assms fl v(2) [OF t] show ?thesis
      unfolding v(1) [symmetric] by (simp add: kv_Expire_def)
  next
    case (Some e)
    note l = find_live_Some [OF fl [unfolded Some]]
    have a: "view t (s\<lparr>entries := um_assign k (e\<lparr>expires_at := Some (time_add_ms now ttl)\<rparr>) (entries s)\<rparr>) =
        alive t ((view t s)(k \<mapsto> (e_value e, Some (time_add_ms now ttl))))"
      by (subst view_assign [OF l(2)]) (simp add: plain_value_def)
    show ?thesis
      using assms fl Some l(1) a unfolding v(1) [symmetric]
      by (auto simp: kv_Expire_def plain_value_def split: if_splits)
  qed
qed

subsection \<open>Writing\<close>

text \<open>The bytes the account holds for a key, expired or not.\<close>

definition bytes_of :: "KvStore \<Rightarrow> string \<Rightarrow> size_t" where
  "bytes_of s k = (case um_find (entries s) k of None \<Rightarrow> 0 | Some e \<Rightarrow> EntryBytes k (e_value e))"

lemma find_live_bytes:
  assumes "find_live now k s = (found, s1)"
  shows "memory_usage s1 - (case found of Some e \<Rightarrow> EntryBytes k (e_value e) | None \<Rightarrow> 0) =
    memory_usage s - bytes_of s k"
  using assms
  by (auto simp: find_live_def RemoveIfExpired_def bytes_of_def split: option.splits if_splits)

definition set_refused :: "SetCondition \<Rightarrow> bool \<Rightarrow> bool" where
  "set_refused c present \<longleftrightarrow> c = kIfAbsent \<and> present \<or> c = kIfPresent \<and> \<not> present"

text \<open>The map a successful \<open>Set\<close> at time \<open>now\<close> stands for.\<close>

definition set_map :: "time_point \<Rightarrow> SetRequest \<Rightarrow> kv_map \<Rightarrow> kv_map" where
  "set_map now req m = m(req_key req \<mapsto> (req_value req, map_option (time_add_ms now) (req_ttl req)))"

lemma view_insert_new:
  assumes "um_wf (entries s2)" and "s' = s2\<lparr>memory_usage := u, access_clock := c,
      entries := um_insert_or_assign ho (req_key req) (new_entry now req s3) (entries s2)\<rparr>"
  shows "view t s' = alive t (set_map now req (view t s2))"
  using assms(1) unfolding assms(2)
  by (auto simp: fun_eq_iff view_apply alive_def set_map_def new_entry_def IsExpired_expired_at
      plain_value_def split: option.split)

lemma kv_Set_view:
  assumes "kv_wf s" and "kv_Set now ho req s = (r, s')"
  defines "need \<equiv> EntryBytes (req_key req) (req_value req)"
  shows "(r = kConditionFailed \<longleftrightarrow> set_refused (req_condition req) (view now s (req_key req) \<noteq> None)) \<and>
    (r \<noteq> kOk \<longrightarrow> (\<forall>t \<ge> now. view t s' = view t s)) \<and>
    (r = kNoMemory \<longrightarrow> maxmemory s < need \<or>
       policy s = kNoEviction \<and> maxmemory s < memory_usage s - bytes_of s (req_key req) + need) \<and>
    (r = kOk \<longrightarrow> (\<exists>E. req_key req \<notin> E \<and>
       (policy s = kNoEviction \<or> memory_usage s - bytes_of s (req_key req) + need \<le> maxmemory s \<longrightarrow> E = {}) \<and>
       (\<forall>t \<ge> now. view t s' = alive t (set_map now req (view t s |` (- E))))))"
proof (cases rule: kv_Set_cases [OF assms(1,2), case_names condition no_memory ok])
  case (condition found)
  have "view now s (req_key req) \<noteq> None \<longleftrightarrow> found \<noteq> None"
    unfolding find_live_view(1) [OF condition(2), symmetric] by simp
  then show ?thesis
    using condition find_live_view(2) [OF condition(2)] by (auto simp: set_refused_def)
next
  case (no_memory found)
  have v: "view now s (req_key req) \<noteq> None \<longleftrightarrow> found \<noteq> None"
    unfolding find_live_view(1) [OF no_memory(2), symmetric] by simp
  have "\<not> set_refused (req_condition req) (found \<noteq> None)"
    using assms(2) no_memory(1,2) by (auto simp: kv_Set_def set_refused_def split: if_splits)
  with v show ?thesis
    using no_memory find_live_view(2) [OF no_memory(2)] find_live_bytes [OF no_memory(2)]
    by (auto simp: need_def)
next
  case (ok found s1 s2 E)
  have v: "view now s (req_key req) \<noteq> None \<longleftrightarrow> found \<noteq> None"
    unfolding find_live_view(1) [OF ok(2), symmetric] by simp
  have step: "view t s' = alive t (set_map now req (view t s |` (- F)))"
    if "now \<le> t" and "evicts s1 s2 F" for t F
    using view_insert_new [OF _ ok(8), of t] ok(3) view_evicts [OF that(2), of t]
      find_live_view(2) [OF ok(2) that(1)] by (simp add: kv_wf_def)
  let ?fits = "policy s = kNoEviction \<or> memory_usage s - bytes_of s (req_key req) + need \<le> maxmemory s"
  have same: "?fits \<Longrightarrow> s2 = s1"
    using ok(10) find_live_bytes [OF ok(2)] by (simp add: need_def)
  have "\<exists>F. req_key req \<notin> F \<and> (?fits \<longrightarrow> F = {}) \<and> evicts s1 s2 F"
  proof (cases ?fits)
    case True
    with same show ?thesis by (intro exI [of _ "{}"]) simp
  next
    case False
    with ok(5,6) show ?thesis by blast
  qed
  then show ?thesis using ok(1,12,13) v step by (auto simp: set_refused_def)
qed

text \<open>When a store has no room for an entry: it alone is too large, or nothing may be evicted and the rest takes too much.\<close>

definition no_room :: "KvStore \<Rightarrow> string \<Rightarrow> string \<Rightarrow> bool" where
  "no_room s k v \<longleftrightarrow> maxmemory s < EntryBytes k v \<or>
     policy s = kNoEviction \<and> maxmemory s < memory_usage s - bytes_of s k + EntryBytes k v"

lemma kv_Set_no_room:
  assumes "kv_wf s" and "kv_Set now ho req s = (r, s')" and "req_condition req = kNone"
  shows "r = kNoMemory \<longleftrightarrow> no_room s (req_key req) (req_value req)"
proof (cases rule: kv_Set_cases [OF assms(1,2), case_names condition no_memory ok])
  case (condition found)
  with assms(3) show ?thesis by simp
next
  case (no_memory found)
  then show ?thesis using find_live_bytes [OF no_memory(2)] by (auto simp: no_room_def)
next
  case (ok found s1 s2 E)
  then show ?thesis using find_live_bytes [OF ok(2)] by (auto simp: no_room_def)
qed

lemma plain_view:
  "view t s k = (case map_option plain_value (um_find (entries s) k) of
     None \<Rightarrow> None | Some v \<Rightarrow> if expired_at t (snd v) then None else Some v)"
  by (simp add: view_apply IsExpired_expired_at plain_value_def split: option.split)

lemma kv_MSet_view:
  assumes "kv_wf s" and "kv_MSet hc hu he kvs s = (r, s')"
  shows "r = kNoMemory \<and> s' = s \<or>
    r = kOk \<and> (\<exists>E. fst ` set kvs \<inter> E = {} \<and>
      (\<forall>t. view t s' = view t s |` (- E) ++ (map_option (\<lambda>v. (v, None)) \<circ> map_of (rev kvs))))"
proof (cases "r = kNoMemory \<and> s' = s")
  case False
  with kv_MSet_spec [OF assms] obtain E where r: "r = kOk" and
    E: "\<And>k. map_option plain_value (um_find (entries s') k) =
       (case map_of (rev kvs) k of
          Some v \<Rightarrow> Some (v, None)
        | None \<Rightarrow> if k \<in> E then None else map_option plain_value (um_find (entries s) k))"
    by blast
  have "view t s' k = (view t s |` (- (E - fst ` set kvs)) ++ (map_option (\<lambda>v. (v, None)) \<circ> map_of (rev kvs))) k" for t k
  proof (cases "map_of (rev kvs) k")
    case None
    then have "k \<notin> fst ` set kvs" by (simp add: map_of_eq_None_iff)
    with None show ?thesis
      by (simp add: plain_view [of t s'] E map_add_def restrict_map_def plain_view [of t s])
  next
    case (Some v)
    then show ?thesis by (simp add: plain_view [of t s'] E map_add_def expired_at_def)
  qed
  then have "\<forall>t. view t s' = view t s |` (- (E - fst ` set kvs)) ++ (map_option (\<lambda>v. (v, None)) \<circ> map_of (rev kvs))"
    by (simp add: fun_eq_iff)
  with r show ?thesis by (intro disjI2 conjI exI [of _ "E - fst ` set kvs"]) auto
qed simp

subsection \<open>Increment\<close>

text \<open>The integer a value stands for: absent keys count as zero.\<close>

definition integer_of :: "(string \<times> time_point option) option \<Rightarrow> int option" where
  "integer_of v =
     (case v of
        None \<Rightarrow> Some 0
      | Some (text, _) \<Rightarrow> (case from_chars text of
                             Parsed i n \<Rightarrow> if n = length text then Some i else None
                           | _ \<Rightarrow> None))"

lemma stored_integer_view: "stored_integer found = integer_of (map_option plain_value found)"
  by (simp add: stored_integer_def integer_of_def plain_value_def split: option.split)

definition increment_request :: "time_point \<Rightarrow> string \<Rightarrow> int \<Rightarrow> (string \<times> time_point option) option \<Rightarrow> SetRequest" where
  "increment_request now k result v =
     \<lparr>req_key = k, req_value = to_string result,
      req_ttl = (case v of None \<Rightarrow> None | Some (_, x) \<Rightarrow> map_option (\<lambda>t. time_diff_ms t now) x),
      req_condition = kNone\<rparr>"

lemma time_add_ms_exact: "0 \<le> t \<Longrightarrow> 0 \<le> ms \<Longrightarrow> t + ms * 1000000 \<le> INT64_MAX \<Longrightarrow> time_add_ms t ms = t + ms * 1000000"
  by (simp add: time_add_ms_def in_int64_def INT64_MIN_def INT64_MAX_def)

lemma kv_Increment_cases:
  assumes "kv_wf s" and "kv_Increment now now2 ho k d s = (r, s')" and "now \<le> now2"
  obtains (not_integer) "integer_of (view now s k) = None" "r = \<lparr>incr_status = kNotInteger, incr_value = 0\<rparr>"
      "\<And>t. now \<le> t \<Longrightarrow> view t s' = view t s"
  | (overflow) i where "integer_of (view now s k) = Some i" "increment_overflows i d"
      "r = \<lparr>incr_status = kOverflow, incr_value = 0\<rparr>" "\<And>t. now \<le> t \<Longrightarrow> view t s' = view t s"
  | (set) i s1 w where "integer_of (view now s k) = Some i" "\<not> increment_overflows i d"
      "kv_wf s1" "\<And>t. now \<le> t \<Longrightarrow> view t s1 = view t s" "maxmemory s1 = maxmemory s" "policy s1 = policy s"
      "memory_usage s1 - bytes_of s1 k = memory_usage s - bytes_of s k"
      "kv_Set now2 ho (increment_request now k (i + d) (view now s k)) s1 = (w, s')"
      "r = (if w = kNoMemory then \<lparr>incr_status = kIncrNoMemory, incr_value = 0\<rparr>
            else \<lparr>incr_status = kIncrOk, incr_value = i + d\<rparr>)"
proof -
  obtain found s1 where fl: "find_live now k s = (found, s1)" by fastforce
  note v = find_live_view [OF fl]
  have wf1: "kv_wf s1" using find_live_wf [OF assms(1) fl] .
  have i: "stored_integer found = integer_of (view now s k)"
    by (simp add: stored_integer_view v(1))
  have req: "increment_request now k n (view now s k) =
      \<lparr>req_key = k, req_value = to_string n, req_ttl = (case found of
           None \<Rightarrow> None | Some e \<Rightarrow> map_option (\<lambda>t. time_diff_ms t now) (expires_at e)),
       req_condition = kNone\<rparr>" for n
    unfolding v(1) [symmetric] by (simp add: increment_request_def plain_value_def split: option.split)
  have mm: "maxmemory s1 = maxmemory s" "policy s1 = policy s"
    "memory_usage s1 - bytes_of s1 k = memory_usage s - bytes_of s k"
    using fl by (auto simp: find_live_def RemoveIfExpired_def bytes_of_def split: option.splits if_splits)
  show thesis
  proof (cases "integer_of (view now s k)")
    case None
    with assms(2) fl i v(2) show thesis by (intro not_integer) (auto simp: kv_Increment_def)
  next
    case (Some n)
    show thesis
    proof (cases "increment_overflows n d")
      case True
      with assms(2) fl i Some v(2) show thesis by (intro overflow) (auto simp: kv_Increment_def)
    next
      case False
      obtain w s2 where st: "kv_Set now2 ho (increment_request now k (n + d) (view now s k)) s1 = (w, s2)"
        by fastforce
      have "s2 = s'" "r = (if w = kNoMemory then \<lparr>incr_status = kIncrNoMemory, incr_value = 0\<rparr>
            else \<lparr>incr_status = kIncrOk, incr_value = n + d\<rparr>)"
        using assms(2) fl i Some False st unfolding req by (auto simp: kv_Increment_def Let_def split: if_splits)
      with st wf1 v(2) mm Some False show thesis by (intro set) auto
    qed
  qed
qed

lemma increment_no_wrap:
  "\<not> increment_overflows i d \<Longrightarrow> in_int64 i \<Longrightarrow> in_int64 d \<Longrightarrow> in_int64 (i + d)"
  by (auto simp: increment_overflows_def in_int64_def INT64_MAX_def INT64_MIN_def)

lemma increment_overflows_iff:
  "in_int64 i \<Longrightarrow> in_int64 d \<Longrightarrow> increment_overflows i d \<longleftrightarrow> \<not> in_int64 (i + d)"
  by (auto simp: increment_overflows_def in_int64_def INT64_MAX_def INT64_MIN_def)

lemma kv_Increment_view:
  assumes "kv_wf s" and "kv_Increment now now2 ho k d s = (r, s')" and "now \<le> now2"
  shows "(incr_status r = kNotInteger \<longleftrightarrow> integer_of (view now s k) = None) \<and>
    (incr_status r = kOverflow \<longleftrightarrow> (\<exists>i. integer_of (view now s k) = Some i \<and> increment_overflows i d)) \<and>
    (incr_status r \<noteq> kIncrOk \<longrightarrow> incr_value r = 0 \<and> (\<forall>t \<ge> now2. view t s' = view t s)) \<and>
    (incr_status r = kIncrOk \<longrightarrow> (\<exists>i E. integer_of (view now s k) = Some i \<and> incr_value r = i + d \<and> k \<notin> E \<and>
       (policy s = kNoEviction \<longrightarrow> E = {}) \<and>
       (\<forall>t \<ge> now2. view t s' =
          alive t (set_map now2 (increment_request now k (i + d) (view now s k)) (view t s |` (- E))))))"
proof (cases rule: kv_Increment_cases [OF assms, case_names not_integer overflow set])
  case not_integer
  with assms(3) show ?thesis by auto
next
  case (overflow i)
  with assms(3) show ?thesis by auto
next
  case (set i s1 w)
  let ?req = "increment_request now k (i + d) (view now s k)"
  note st = kv_Set_view [OF set(3) set(8)]
  have w: "w \<noteq> kConditionFailed" using st by (simp add: set_refused_def increment_request_def)
  have key: "req_key ?req = k" by (simp add: increment_request_def)
  show ?thesis
  proof (cases "w = kNoMemory")
    case True
    with st set assms(3) show ?thesis by auto
  next
    case False
    with w have ok: "w = kOk" by (cases w) simp_all
    with st key set(6) obtain E where E: "k \<notin> E" "policy s = kNoEviction \<longrightarrow> E = {}"
      "\<And>t. now2 \<le> t \<Longrightarrow> view t s' = alive t (set_map now2 ?req (view t s1 |` (- E)))" by auto
    have "\<forall>t \<ge> now2. view t s' = alive t (set_map now2 ?req (view t s |` (- E)))"
      using E(3) set(4) assms(3) by simp
    with E(1,2) set(1,2,9) ok show ?thesis by auto
  qed
qed

lemma integer_of_range: "integer_of v = Some i \<Longrightarrow> in_int64 i"
  by (auto simp: integer_of_def from_chars_def in_int64_def INT64_MAX_def INT64_MIN_def Let_def split: option.splits if_splits)

text \<open>The refusals of \<open>Increment\<close>, each exactly where the sum is not a 64-bit integer or has no room.\<close>

lemma kv_Increment_refusals:
  assumes "kv_wf s" and "kv_Increment now now2 ho k d s = (r, s')" and "now \<le> now2" and "in_int64 d"
  shows "(incr_status r = kOverflow \<longleftrightarrow> (\<exists>i. integer_of (view now s k) = Some i \<and> \<not> in_int64 (i + d))) \<and>
    (incr_status r = kIncrNoMemory \<longleftrightarrow>
      (\<exists>i. integer_of (view now s k) = Some i \<and> in_int64 (i + d) \<and> no_room s k (to_string (i + d))))"
proof (cases rule: kv_Increment_cases [OF assms(1-3), case_names not_integer overflow set])
  case (overflow i)
  with increment_overflows_iff [OF integer_of_range assms(4)] show ?thesis by auto
next
  case (set i s1 w)
  let ?req = "increment_request now k (i + d) (view now s k)"
  have "w = kNoMemory \<longleftrightarrow> no_room s1 k (to_string (i + d))"
    using kv_Set_no_room [OF set(3) set(8)] by (simp add: increment_request_def)
  moreover have "no_room s1 k v = no_room s k v" for v using set(5-7) by (simp add: no_room_def)
  moreover have "in_int64 (i + d)" using increment_no_wrap [OF set(2) integer_of_range [OF set(1)] assms(4)] .
  ultimately show ?thesis using set(1,9) by auto
qed auto

subsection \<open>Active expiry, snapshots, clearing\<close>

lemma kv_ActiveExpire_view:
  assumes "kv_wf s" and "kv_ActiveExpire now n s = (r, s')" and "now \<le> t"
  shows "view t s' = view t s"
proof -
  obtain R where R: "mset (entries s) = mset (entries s' @ R)" "\<And>p. p \<in> set R \<Longrightarrow> IsExpired (snd p) now"
    and wf: "kv_wf s'"
    using kv_ActiveExpire_spec [OF assms(1,2)] by auto
  have eq: "um_find (entries s) = um_find (entries s' @ R)"
    using um_find_mset [OF _ R(1)] assms(1) by (simp add: kv_wf_def)
  have find: "um_find (entries s' @ R) k =
      (case um_find (entries s') k of None \<Rightarrow> um_find R k | Some e \<Rightarrow> Some e)" for k
    unfolding um_find_def by (simp add: map_add_def)
  have gone: "IsExpired e t" if "um_find R k = Some e" for k e
    using R(2) [OF um_find_SomeD [OF that]] expired_at_mono [OF _ assms(3)]
    by (simp add: IsExpired_expired_at)
  have "view t s k = view t s' k" for k
    unfolding view_apply eq find using gone [of k]
    by (cases "um_find (entries s') k"; cases "um_find R k") simp_all
  then show ?thesis by auto
qed

lemma kv_Clear_view [simp]: "view t (kv_Clear s) = Map.empty"
  by (simp add: kv_Clear_def fun_eq_iff view_apply um_find_def)

lemma new_KvStore_view [simp]: "view t (new_KvStore mm pol met) = Map.empty"
  by (simp add: new_KvStore_def fun_eq_iff view_apply um_find_def)

end
