(* ===== verification/Kv_Store_Theorems.thy ===== *)
theory Kv_Store_Theorems
  imports Kv_Store_Spec
begin

text \<open>
  The theorems about the key-value store: the order of eviction, the memory account over every
  sequence of calls, and the functional contract of each operation.
\<close>

subsection \<open>Eviction order\<close>

text \<open>The counter by which a policy ranks entries: the smaller, the sooner evicted.\<close>

fun coldness :: "EvictionPolicy \<Rightarrow> Entry \<Rightarrow> uint64" where
  "coldness kLru e = last_access e"
| "coldness kLfu e = frequency e"
| "coldness _ e = 0"

lemma colder_coldness: "colder pol e b \<longleftrightarrow> coldness pol e < coldness pol b"
  by (cases pol) simp_all

lemma scan_protected_coldest:
  "scan_protected pol protected best ps = Some v \<Longrightarrow> pol \<noteq> kRandom \<Longrightarrow>
    (\<forall>b. best = Some b \<longrightarrow> coldness pol (snd v) \<le> coldness pol (snd b)) \<and>
    (\<forall>p \<in> set ps. fst p \<noteq> protected \<longrightarrow> coldness pol (snd v) \<le> coldness pol (snd p))"
proof (induction pol protected best ps rule: scan_protected.induct)
  case (1 pol protected best)
  then show ?case by simp
next
  case (2 pol protected best p ps)
  show ?case
  proof (cases "fst p = protected")
    case True
    with 2 show ?thesis by simp
  next
    case False
    then show ?thesis
      using 2(2-5) by (cases best) (force simp: colder_coldness split: if_splits)+
  qed
qed

lemma scan_all_coldest:
  "scan_all pol best ps = Some v \<Longrightarrow>
    (\<forall>b. best = Some b \<longrightarrow> coldness pol (snd v) \<le> coldness pol (snd b)) \<and>
    (\<forall>p \<in> set ps. coldness pol (snd v) \<le> coldness pol (snd p))"
proof (induction pol best ps rule: scan_all.induct)
  case (1 pol best)
  then show ?case by simp
next
  case (2 pol best p ps)
  then show ?case by (cases best) (force simp: colder_coldness split: if_splits)+
qed

text \<open>
  \<open>coldest_first pol keep s s'\<close>: what \<open>s'\<close> lost of \<open>s\<close> is no warmer than anything but \<open>keep\<close> that it kept.
\<close>

definition coldest_first :: "EvictionPolicy \<Rightarrow> string \<Rightarrow> KvStore \<Rightarrow> KvStore \<Rightarrow> bool" where
  "coldest_first pol keep s s' \<longleftrightarrow>
     (\<forall>k e k' e'. um_find (entries s) k = Some e \<longrightarrow> um_find (entries s') k = None \<longrightarrow>
        um_find (entries s') k' = Some e' \<longrightarrow> k' \<noteq> keep \<longrightarrow> coldness pol e \<le> coldness pol e')"

lemma MakeRoom_loop_coldest:
  assumes "kv_wf s" and "policy s = kLru \<or> policy s = kLfu"
    and "MakeRoom_loop projected protected s = (ok, s')"
  shows "coldest_first (policy s) protected s s'"
  using assms
proof (induction projected protected s rule: MakeRoom_loop.induct)
  case (1 projected protected s)
  show ?case
  proof (cases "projected \<le> maxmemory s")
    case True
    with 1(4) have "s' = s" by (simp add: MakeRoom_loop.simps [of projected])
    then show ?thesis by (simp add: coldest_first_def)
  next
    case False
    obtain v r where sv: "SelectVictim_protected protected s = (v, s\<lparr>random_state := r\<rparr>)"
      using SelectVictim_protected_state by (metis surj_pair)
    show ?thesis
    proof (cases v)
      case None
      with False 1(4) sv have "s' = s\<lparr>random_state := r\<rparr>" by (simp add: MakeRoom_loop.simps [of projected])
      then show ?thesis by (simp add: coldest_first_def)
    next
      case (Some victim)
      let ?s1 = "evict victim (s\<lparr>random_state := r\<rparr>)"
      have vin: "victim \<in> set (entries s)" using SelectVictim_protected_in sv Some by blast
      have wf1: "kv_wf ?s1" by (rule kv_wf_evict [OF 1(2) vin])
      have step: "MakeRoom_loop (projected - EntryBytes (fst victim) (e_value (snd victim))) protected ?s1 = (ok, s')"
        using 1(4) False sv Some by (simp add: MakeRoom_loop.simps [of projected])
      have IH: "coldest_first (policy s) protected ?s1 s'"
        using 1(1) [OF False sv [symmetric] Some wf1 _ step] 1(3) by simp
      have "scan_protected (policy s) protected None (entries s) = Some victim"
        using sv Some 1(3) by (auto simp: SelectVictim_protected_def)
      moreover have "policy s \<noteq> kRandom" using 1(3) by auto
      ultimately have cold: "\<forall>p \<in> set (entries s). fst p \<noteq> protected \<longrightarrow>
          coldness (policy s) (snd victim) \<le> coldness (policy s) (snd p)"
        using scan_protected_coldest by blast
      obtain E where E: "evicts ?s1 s' E" using MakeRoom_loop_spec [OF wf1 step] by blast
      have kept: "um_find (entries s') k = Some e \<Longrightarrow> um_find (entries s) k = Some e" for k e
        using E by (auto simp: evicts_def restrict_map_def split: if_splits)
      have "coldness (policy s) e \<le> coldness (policy s) e'"
        if "um_find (entries s) k = Some e" "um_find (entries s') k = None"
          "um_find (entries s') k' = Some e'" "k' \<noteq> protected" for k e k' e'
      proof (cases "k = fst victim")
        case True
        with that(1) vin 1(2) have "e = snd victim"
          using um_find_Some_iff [of "entries s" "fst victim" "snd victim"] by (simp add: kv_wf_def)
        moreover have "(k', e') \<in> set (entries s)" by (rule um_find_SomeD [OF kept [OF that(3)]])
        ultimately show ?thesis using bspec [OF cold, of "(k', e')"] that(4) by simp
      next
        case False
        with that IH show ?thesis unfolding coldest_first_def by (metis evict_random_simps(1) fun_upd_apply um_find_erase)
      qed
      then show ?thesis unfolding coldest_first_def by blast
    qed
  qed
qed

text \<open>
  C21. Under the LRU and LFU policies a write evicts the coldest entries first: every entry that a
  \<open>Set\<close> removes, other than the expired one of its own key, has a recency (a frequency) counter no
  larger than that of every entry that survives it, the written key apart.
\<close>

theorem Set_evicts_coldest:
  assumes "kv_wf s" and "policy s = kLru \<or> policy s = kLfu" and "kv_Set now ho req s = (r, s')"
    and "um_find (entries s) k = Some e" and "um_find (entries s') k = None" and "k \<noteq> req_key req"
    and "um_find (entries s') k' = Some e'" and "k' \<noteq> req_key req"
  shows "coldness (policy s) e \<le> coldness (policy s) e'"
proof -
  have other: "um_find (entries s1) k = Some e \<and> policy s1 = policy s"
    if "find_live now (req_key req) s = (found, s1)" for found s1
    using that assms(4,6) by (auto simp: find_live_def RemoveIfExpired_def split: option.splits if_splits)
  show ?thesis
  proof (cases rule: kv_Set_cases [OF assms(1,3), case_names condition no_memory ok])
    case (condition found)
    with other assms(5) show ?thesis by fastforce
  next
    case (no_memory found)
    with other assms(5) show ?thesis by fastforce
  next
    case (ok found s1 s2 E)
    have wf1: "kv_wf s1" by (rule find_live_wf [OF assms(1) ok(2)])
    obtain projected where mr: "MakeRoom projected (req_key req) s1 = (True, s2)" using ok(14) by blast
    have find: "um_find (entries s') = (um_find (entries s2))(req_key req \<mapsto> new_entry now req s2)"
      using ok(3) by (subst ok(8)) (simp add: kv_wf_def)
    have "s2 = s1 \<or> MakeRoom_loop projected (req_key req) s1 = (True, s2)"
      using mr by (auto simp: MakeRoom_def split: if_splits)
    then have "coldest_first (policy s) (req_key req) s1 s2"
      using MakeRoom_loop_coldest [OF wf1] other [OF ok(2)] assms(2)
      by (auto simp: coldest_first_def)
    with other [OF ok(2)] assms(5-8) find show ?thesis unfolding coldest_first_def by (metis fun_upd_apply)
  qed
qed

subsection \<open>The memory account over every sequence of calls\<close>

text \<open>
  What one call may read from its surroundings: the clock (twice in \<open>Increment\<close> and \<open>Snapshot\<close>) and
  the iteration orders its containers end up in.
\<close>

record kv_env =
  env_now :: time_point
  env_now2 :: time_point
  env_copy :: hash_order
  env_updates :: hash_order
  env_map :: hash_order

datatype kv_call =
    GetC string
  | SetC SetRequest
  | MSetC "(string \<times> string) list"
  | DeleteC "string list"
  | ExistsC "string list"
  | ExpireC string milliseconds
  | TtlC string
  | IncrementC string int
  | ActiveExpireC nat
  | SnapshotC
  | ClearC

fun kv_run :: "kv_env \<Rightarrow> kv_call \<Rightarrow> KvStore \<Rightarrow> KvStore" where
  "kv_run e (GetC k) s = snd (kv_Get (env_now e) k s)"
| "kv_run e (SetC req) s = snd (kv_Set (env_now e) (env_map e) req s)"
| "kv_run e (MSetC kvs) s = snd (kv_MSet (env_copy e) (env_updates e) (env_map e) kvs s)"
| "kv_run e (DeleteC ks) s = snd (kv_Delete (env_now e) ks s)"
| "kv_run e (ExistsC ks) s = snd (kv_Exists (env_now e) ks s)"
| "kv_run e (ExpireC k ttl) s = snd (kv_Expire (env_now e) k ttl s)"
| "kv_run e (TtlC k) s = snd (kv_TtlSeconds (env_now e) k s)"
| "kv_run e (IncrementC k d) s = snd (kv_Increment (env_now e) (env_now2 e) (env_map e) k d s)"
| "kv_run e (ActiveExpireC n) s = snd (kv_ActiveExpire (env_now e) n s)"
| "kv_run e SnapshotC s = snd (kv_Snapshot (env_now e) (env_now2 e) s)"
| "kv_run e ClearC s = kv_Clear s"

definition pair_size :: "string \<times> string \<Rightarrow> nat" where
  "pair_size p = unat sizeof_Entry + length (fst p) + length (snd p)"

text \<open>The strings of one call fit in the address space.\<close>

fun addressable :: "kv_call \<Rightarrow> bool" where
  "addressable (SetC req) \<longleftrightarrow> pair_size (req_key req, req_value req) < 2 ^ 63"
| "addressable (MSetC kvs) \<longleftrightarrow> (\<forall>p \<in> set kvs. pair_size p < 2 ^ 63)"
| "addressable (IncrementC k d) \<longleftrightarrow> length k < 2 ^ 62 \<and> in_int64 d"
| "addressable _ \<longleftrightarrow> True"

inductive kv_reachable :: "size_t \<Rightarrow> EvictionPolicy \<Rightarrow> Metrics option \<Rightarrow> KvStore \<Rightarrow> bool" for mm pol met where
  start: "kv_reachable mm pol met (new_KvStore mm pol met)"
| call: "kv_reachable mm pol met s \<Longrightarrow> addressable c \<Longrightarrow> kv_reachable mm pol met (kv_run e c s)"

lemma kv_run_wf [inv_intros]: "kv_wf s \<Longrightarrow> kv_wf (kv_run e c s)"
  by (cases c)
    (auto intro: kv_Get_wf kv_Set_wf kv_MSet_wf kv_Delete_wf kv_Exists_wf kv_Expire_wf kv_TtlSeconds_wf
       kv_Increment_wf kv_ActiveExpire_wf kv_Snapshot_wf kv_Clear_wf prod.collapse [symmetric])

lemma kv_reachable_wf: "kv_reachable mm pol met s \<Longrightarrow> kv_wf s"
  by (induction rule: kv_reachable.induct) (simp_all add: kv_run_wf)

lemma digits_bound: "n < 10 ^ Suc d \<Longrightarrow> length (to_string_nat n) \<le> Suc d"
proof (induction d arbitrary: n)
  case 0
  then show ?case by (simp add: to_string_nat.simps [of n])
next
  case (Suc d)
  then have "n div 10 < 10 ^ Suc d" by (simp add: less_mult_imp_div_less mult.commute)
  with Suc.IH show ?case by (auto simp: to_string_nat.simps [of n])
qed

lemma length_to_string:
  assumes "in_int64 i"
  shows "length (to_string i) \<le> 20"
proof -
  have "nat (- i) < 10 ^ Suc 18" "nat i < 10 ^ Suc 18"
    using assms by (simp_all add: in_int64_def INT64_MIN_def INT64_MAX_def) linarith+
  then have "length (to_string_nat (nat (- i))) \<le> Suc 18" "length (to_string_nat (nat i)) \<le> Suc 18"
    by (simp_all only: digits_bound)
  then show ?thesis by (simp add: to_string_def)
qed

lemma total_bytes_sum:
  assumes "um_wf m"
  shows "total_bytes m = (\<Sum>k \<in> fst ` set m. entry_size (k, the (um_find m k)))"
proof -
  have inj: "inj_on fst (set m)" "distinct m" using assms by (auto simp: um_wf_def distinct_map)
  have "total_bytes m = (\<Sum>p \<in> set m. entry_size p)"
    using inj(2) by (simp add: total_bytes_def sum_list_distinct_conv_sum_set)
  also have "\<dots> = (\<Sum>p \<in> set m. entry_size (fst p, the (um_find m (fst p))))"
    using assms by (intro sum.cong) (auto simp: um_find_Some_iff [THEN iffD2])
  also have "\<dots> = (\<Sum>k \<in> fst ` set m. entry_size (k, the (um_find m k)))"
    using inj(1) by (simp add: sum.reindex)
  finally show ?thesis .
qed

text \<open>
  \<open>s'\<close> holds nothing but keys of \<open>s\<close> with their values, and the updates \<open>U\<close>: then its size is bounded.
\<close>

definition grows_by :: "(string \<times> string) set \<Rightarrow> KvStore \<Rightarrow> KvStore \<Rightarrow> bool" where
  "grows_by U s s' \<longleftrightarrow> maxmemory s' = maxmemory s \<and>
     (\<forall>k e'. um_find (entries s') k = Some e' \<longrightarrow>
        (\<exists>e. um_find (entries s) k = Some e \<and> e_value e = e_value e') \<or> (k, e_value e') \<in> U)"

lemma grows_by_refl [simp]: "grows_by {} s s"
  by (simp add: grows_by_def)

lemma grows_by_trans: "grows_by {} s s1 \<Longrightarrow> grows_by U s1 s2 \<Longrightarrow> grows_by U s s2"
  unfolding grows_by_def by (metis empty_iff)

lemma grows_by_subset: "grows_by U s s' \<Longrightarrow> U \<subseteq> U' \<Longrightarrow> grows_by U' s s'"
  unfolding grows_by_def by (meson subsetD)

lemma evicts_grows: "evicts s s' E \<Longrightarrow> grows_by {} s s'"
  by (auto simp: evicts_def grows_by_def restrict_map_def split: if_splits)

lemma count_grows [simp]: "grows_by U s (count f s') = grows_by U s s'"
  by (simp add: grows_by_def)

lemma find_live_grows: "find_live now k s = (r, s') \<Longrightarrow> grows_by {} s s'"
  by (cases rule: find_live_exhaust [of now k s]) (auto simp: grows_by_def split: if_splits)

lemma total_bytes_grows:
  assumes "grows_by U s s'" and "um_wf (entries s)" and "um_wf (entries s')" and "finite U"
  shows "total_bytes (entries s') \<le> total_bytes (entries s) + (\<Sum>p \<in> U. pair_size p)"
proof -
  let ?w = "\<lambda>s k. entry_size (k, the (um_find (entries s) k))"
  let ?K = "fst ` set (entries s)" and ?K' = "fst ` set (entries s')"
  let ?old = "{k \<in> ?K'. k \<in> ?K \<and> ?w s' k = ?w s k}"
  have mem: "k \<in> fst ` set (entries x) \<longleftrightarrow> um_find (entries x) k \<noteq> None" for k x
    by (simp add: um_find_None_iff)
  have new: "(k, e_value (the (um_find (entries s') k))) \<in> U" if "k \<in> ?K' - ?old" for k
  proof -
    from that mem [of k s'] obtain e' where e': "um_find (entries s') k = Some e'" by auto
    have "\<not> (\<exists>e. um_find (entries s) k = Some e \<and> e_value e = e_value e')"
      using that mem [of k s] e' by (auto simp: entry_size_def)
    with assms(1) e' show ?thesis unfolding grows_by_def by (metis option.sel)
  qed
  have "(\<Sum>k \<in> ?K' - ?old. ?w s' k) =
      (\<Sum>p \<in> (\<lambda>k. (k, e_value (the (um_find (entries s') k)))) ` (?K' - ?old). pair_size p)"
    by (subst sum.reindex) (auto simp: inj_on_def pair_size_def entry_size_def)
  also have "\<dots> \<le> (\<Sum>p \<in> U. pair_size p)"
    using new by (intro sum_mono2 assms(4)) auto
  finally have n: "(\<Sum>k \<in> ?K' - ?old. ?w s' k) \<le> (\<Sum>p \<in> U. pair_size p)" .
  have "(\<Sum>k \<in> ?old. ?w s' k) = (\<Sum>k \<in> ?old. ?w s k)" by (intro sum.cong) auto
  also have "\<dots> \<le> (\<Sum>k \<in> ?K. ?w s k)" by (intro sum_mono2) auto
  finally have o: "(\<Sum>k \<in> ?old. ?w s' k) \<le> total_bytes (entries s)"
    using total_bytes_sum [OF assms(2)] by simp
  have "total_bytes (entries s') = (\<Sum>k \<in> ?K' - ?old. ?w s' k) + (\<Sum>k \<in> ?old. ?w s' k)"
    unfolding total_bytes_sum [OF assms(3)] by (rule sum.subset_diff) auto
  with n o show ?thesis by linarith
qed

lemma kv_Set_grows:
  assumes "kv_wf s" and "kv_Set now ho req s = (r, s')"
  shows "grows_by (if r = kOk then {(req_key req, req_value req)} else {}) s s' \<and>
    (r = kOk \<longrightarrow> memory_usage s' \<le> maxmemory s)"
proof (cases rule: kv_Set_cases [OF assms, case_names condition no_memory ok])
  case (condition found)
  then show ?thesis using find_live_grows by simp
next
  case (no_memory found)
  then show ?thesis using find_live_grows by simp
next
  case (ok found s1 s2 E)
  have find: "um_find (entries s') = (um_find (entries s2))(req_key req \<mapsto> new_entry now req s2)"
    using ok(3) by (subst ok(8)) (simp add: kv_wf_def)
  have "maxmemory s' = maxmemory s2" by (subst ok(8)) simp
  with find have "grows_by {(req_key req, req_value req)} s2 s'"
    by (auto simp: grows_by_def new_entry_def)
  with ok(1,7) show ?thesis
    using grows_by_trans [OF find_live_grows [OF ok(2)] grows_by_trans [OF evicts_grows [OF ok(6)]]]
    by simp
qed

lemma mset_required_exact:
  assumes "mset_required mm acc ups = Some required" and "acc \<le> mm"
    and "\<forall>p \<in> set ups. pair_size p < 2 ^ 64"
  shows "unat required = unat acc + sum_list (map pair_size ups)"
  using assms
proof (induction mm acc ups rule: mset_required.induct)
  case (1 mm acc)
  then show ?case by simp
next
  case (2 mm acc k v ups)
  then have nl: "\<not> mm - acc < EntryBytes k v" by (auto split: if_splits)
  have size: "unat (EntryBytes k v) = pair_size (k, v)"
  proof -
    have "EntryBytes k v = of_nat (pair_size (k, v))" by (simp add: EntryBytes_def pair_size_def)
    with 2(4) show ?thesis by (simp add: unat_of_nat)
  qed
  have le: "acc + EntryBytes k v \<le> mm" and sum: "unat (acc + EntryBytes k v) = unat acc + unat (EntryBytes k v)"
    using 2(3) nl by unat_arith+
  have "mset_required mm (acc + EntryBytes k v) ups = Some required"
    using 2(2) nl by simp
  then show ?case using 2(1) [OF nl _ le] 2(4) sum size by simp
qed

lemma set_mset_updates: "set (mset_updates ho kvs) \<subseteq> set kvs"
proof
  fix p assume "p \<in> set (mset_updates ho kvs)"
  then have "um_find (mset_updates ho kvs) (fst p) = Some (snd p)"
    by (simp add: um_find_Some_iff)
  then have "map_of (rev kvs) (fst p) = Some (snd p)" by (simp add: um_find_mset_updates)
  from map_of_SomeD [OF this] show "p \<in> set kvs" by simp
qed

lemma kv_MSet_grows:
  assumes "kv_wf s" and "kv_MSet hc hu he kvs s = (r, s')" and "\<forall>p \<in> set kvs. pair_size p < 2 ^ 64"
  shows "grows_by (if r = kOk then set (mset_updates hu kvs) else {}) s s' \<and>
    (r = kOk \<longrightarrow> memory_usage s' \<le> maxmemory s \<and>
       (\<Sum>p \<in> set (mset_updates hu kvs). pair_size p) \<le> unat (maxmemory s))"
proof (cases "r = kNoMemory \<and> s' = s")
  case False
  let ?ups = "mset_updates hu kvs"
  let ?trial = "mset_drop_old ?ups (s\<lparr>metrics := None, entries := um_copy hc (entries s)\<rparr>)"
  from kv_MSet_spec [OF assms(1,2)] False obtain E where r: "r = kOk"
    and mu: "memory_usage s' \<le> maxmemory s" "maxmemory s' = maxmemory s"
    and E: "\<And>k. map_option plain_value (um_find (entries s') k) =
       (case map_of (rev kvs) k of
          Some v \<Rightarrow> Some (v, None)
        | None \<Rightarrow> if k \<in> E then None else map_option plain_value (um_find (entries s) k))"
    by blast
  have "grows_by (set ?ups) s s'"
    unfolding grows_by_def
  proof (intro conjI allI impI)
    fix k e' assume e': "um_find (entries s') k = Some e'"
    show "(\<exists>e. um_find (entries s) k = Some e \<and> e_value e = e_value e') \<or> (k, e_value e') \<in> set ?ups"
    proof (cases "map_of (rev kvs) k")
      case None
      with E [of k] e' show ?thesis
        by (cases "um_find (entries s) k") (auto simp: plain_value_def split: if_splits)
    next
      case (Some v)
      with E [of k] e' have "um_find ?ups k = Some (e_value e')"
        by (simp add: plain_value_def um_find_mset_updates)
      then show ?thesis by (simp add: um_find_Some_iff)
    qed
  qed (rule mu(2))
  moreover obtain required where "mset_required (maxmemory ?trial) 0 ?ups = Some required"
    using kv_MSet_exits [OF assms(2) refl refl False] by metis
  moreover have "maxmemory ?trial = maxmemory s"
  proof -
    have "kv_wf (s\<lparr>metrics := None, entries := um_copy hc (entries s)\<rparr>)"
      using assms(1) word_bytes_mset [of "um_copy hc (entries s)" "entries s"]
      by (simp add: kv_wf_def um_copy_def)
    from mset_drop_old_spec [OF this, of ?ups] show ?thesis by (simp add: evicts_def)
  qed
  ultimately have "unat required = sum_list (map pair_size ?ups)" "required \<le> maxmemory s"
    using mset_required_exact [of "maxmemory s" 0 ?ups required] mset_required_spec [of "maxmemory s" 0 ?ups required]
      assms(3) set_mset_updates [of hu kvs] by auto
  moreover have "distinct ?ups"
    using mset_updates_wf [of hu kvs] by (auto simp: um_wf_def distinct_map)
  ultimately have "(\<Sum>p \<in> set ?ups. pair_size p) \<le> unat (maxmemory s)"
    by (simp add: sum_list_distinct_conv_sum_set word_le_nat_alt)
  with r mu \<open>grows_by (set ?ups) s s'\<close> show ?thesis by simp
qed simp

lemma kv_Increment_grows:
  assumes "kv_wf s" and "kv_Increment now now2 ho k d s = (r, s')" and "in_int64 d"
  shows "grows_by {} s s' \<or>
    (\<exists>v. length v \<le> 20 \<and> grows_by {(k, v)} s s' \<and> memory_usage s' \<le> maxmemory s)"
proof -
  obtain found s1 where fl: "find_live now k s = (found, s1)" by fastforce
  have wf1: "kv_wf s1" using find_live_wf [OF assms(1) fl] .
  note g = find_live_grows [OF fl]
  show ?thesis
  proof (cases "\<exists>i. stored_integer found = Some i \<and> \<not> increment_overflows i d")
    case False
    then have "s' = s1"
      using assms(2) fl by (auto simp: kv_Increment_def split: option.splits if_splits)
    with g show ?thesis by simp
  next
    case True
    then obtain i where i: "stored_integer found = Some i" "\<not> increment_overflows i d" by blast
    have "in_int64 i"
      using i(1) by (auto simp: stored_integer_def from_chars_def in_int64_def INT64_MAX_def INT64_MIN_def Let_def
          split: option.splits if_splits)
    then have len: "length (to_string (i + d)) \<le> 20"
      using increment_no_wrap [OF i(2)] assms(3) by (intro length_to_string) simp
    obtain req w where st: "kv_Set now2 ho req s1 = (w, s')" "req_key req = k" "req_value req = to_string (i + d)"
      using assms(2) fl i by (auto simp: kv_Increment_def Let_def split: if_splits prod.splits)
    note gs = kv_Set_grows [OF wf1 st(1)]
    have "maxmemory s1 = maxmemory s" using g by (simp add: grows_by_def)
    then show ?thesis using gs grows_by_trans [OF g] len st(2,3)
      by (cases "w = kOk") (auto intro!: exI [of _ "to_string (i + d)"])
  qed
qed

lemma kv_Delete_grows: "kv_Delete now ks s = (n, s') \<Longrightarrow> grows_by {} s s'"
proof (induction ks arbitrary: s n)
  case Nil
  then show ?case by simp
next
  case (Cons k ks)
  obtain found s1 where fl: "find_live now k s = (found, s1)" by fastforce
  let ?s2 = "case found of None \<Rightarrow> s1 | Some e \<Rightarrow> erase_entry k e s1"
  obtain m where rec: "kv_Delete now ks ?s2 = (m, s')"
    using Cons.prems fl by (cases found) (auto split: prod.splits)
  have "grows_by {} s1 ?s2"
    by (cases found) (simp_all add: evicts_grows [OF evicts_erase])
  then show ?case using Cons.IH [OF rec] grows_by_trans find_live_grows [OF fl] by blast
qed

lemma kv_Exists_grows: "kv_Exists now ks s = (n, s') \<Longrightarrow> grows_by {} s s'"
proof (induction ks arbitrary: s n)
  case Nil
  then show ?case by simp
next
  case (Cons k ks)
  obtain found s1 where fl: "find_live now k s = (found, s1)" by fastforce
  obtain m where "kv_Exists now ks s1 = (m, s')"
    using Cons.prems fl by (cases found) (auto split: prod.splits)
  then show ?case using Cons.IH grows_by_trans find_live_grows [OF fl] by blast
qed

lemma kv_Get_grows:
  assumes "kv_Get now k s = (r, s')"
  shows "grows_by {} s s'"
proof (cases rule: find_live_exhaust [of now k s])
  case (live e)
  with assms show ?thesis by (auto simp: kv_Get_def Let_def grows_by_def um_find_assign split: if_splits)
next
  case (gone s1)
  with assms show ?thesis using find_live_grows [OF gone(1)] by (auto simp: kv_Get_def)
qed

lemma kv_Expire_grows:
  assumes "kv_Expire now k ttl s = (r, s')"
  shows "grows_by {} s s'"
proof (cases rule: find_live_exhaust [of now k s])
  case (live e)
  then show ?thesis
  proof (cases "ttl \<le> 0")
    case True
    with assms live(1) show ?thesis by (auto simp: kv_Expire_def evicts_grows [OF evicts_erase])
  next
    case False
    with assms live(1) show ?thesis using live(2) by (auto simp: kv_Expire_def grows_by_def um_find_assign split: if_splits)
  qed
next
  case (gone s1)
  with assms show ?thesis using find_live_grows [OF gone(1)] by (auto simp: kv_Expire_def)
qed

lemma kv_TtlSeconds_grows: "kv_TtlSeconds now k s = (r, s') \<Longrightarrow> grows_by {} s s'"
  by (cases rule: find_live_exhaust [of now k s])
    (auto simp: kv_TtlSeconds_def intro: find_live_grows split: option.splits)

lemma kv_ActiveExpire_grows:
  assumes "kv_wf s" and "kv_ActiveExpire now n s = (r, s')"
  shows "grows_by {} s s'"
proof -
  note spec = kv_ActiveExpire_spec [OF assms]
  then obtain R where "mset (entries s) = mset (entries s') + mset R" by blast
  then have "mset (entries s) = mset (entries s' @ R)" by simp
  from mset_eq_setD [OF this] have "set (entries s') \<subseteq> set (entries s)" by auto
  with spec assms(1) show ?thesis
    by (auto simp: grows_by_def kv_wf_def um_find_Some_iff)
qed

lemmas kv_read_grows = kv_Get_grows kv_Delete_grows kv_Exists_grows kv_Expire_grows kv_TtlSeconds_grows

lemma kv_run_grows:
  assumes "kv_wf s" and "addressable c" and "unat (maxmemory s) < 2 ^ 63"
  shows "grows_by {} s (kv_run e c s) \<or>
    (\<exists>U. finite U \<and> grows_by U s (kv_run e c s) \<and> (\<Sum>p \<in> U. pair_size p) < 2 ^ 63 \<and>
       memory_usage (kv_run e c s) \<le> maxmemory s)"
proof (cases c)
  case (SetC req)
  obtain r s' where st: "kv_Set (env_now e) (env_map e) req s = (r, s')" by fastforce
  with kv_Set_grows [OF assms(1) st] SetC assms(2) show ?thesis
    by (cases "r = kOk") (auto intro!: exI [of _ "{(req_key req, req_value req)}"])
next
  case (MSetC kvs)
  obtain r s' where st: "kv_MSet (env_copy e) (env_updates e) (env_map e) kvs s = (r, s')" by fastforce
  have "\<forall>p \<in> set kvs. pair_size p < 2 ^ 64" using MSetC assms(2) by fastforce
  from kv_MSet_grows [OF assms(1) st this] MSetC st assms(3) show ?thesis
    by (cases "r = kOk") (auto intro!: exI [of _ "set (mset_updates (env_updates e) kvs)"])
next
  case (IncrementC k d)
  obtain r s' where st: "kv_Increment (env_now e) (env_now2 e) (env_map e) k d s = (r, s')" by fastforce
  have "pair_size (k, v) < 2 ^ 63" if "length v \<le> 20" for v
    using that IncrementC assms(2) by (simp add: pair_size_def sizeof_Entry_def)
  with kv_Increment_grows [OF assms(1) st] IncrementC st assms(2) show ?thesis
    by (auto intro: exI [of _ "{(k, _)}"])
next
  case SnapshotC
  then show ?thesis
    using kv_ActiveExpire_grows [OF assms(1) prod.collapse [symmetric]] by (auto simp: kv_Snapshot_def Let_def)
next
  case ClearC
  then show ?thesis by (simp add: kv_Clear_def grows_by_def um_find_def)
next
  case (ActiveExpireC n)
  then show ?thesis using kv_ActiveExpire_grows [OF assms(1) prod.collapse [symmetric]] by auto
qed (auto intro: kv_read_grows [OF prod.collapse [symmetric]])

lemma kv_run_budget:
  assumes "kv_wf s" and "kv_budget s" and "addressable c" and "unat (maxmemory s) < 2 ^ 63"
  shows "kv_budget (kv_run e c s)" and "maxmemory (kv_run e c s) = maxmemory s"
proof -
  let ?s = "kv_run e c s"
  have wf: "um_wf (entries s)" "um_wf (entries ?s)" "kv_wf ?s"
    using assms(1) kv_run_wf [OF assms(1)] by (simp_all add: kv_wf_def)
  from kv_run_grows [OF assms(1,3,4)] obtain U where "grows_by U s ?s" by blast
  then show mm: "maxmemory ?s = maxmemory s" by (simp add: grows_by_def)
  from kv_run_grows [OF assms(1,3,4), of e] show "kv_budget ?s"
  proof (elim disjE exE conjE)
    assume "grows_by {} s ?s"
    from total_bytes_grows [OF this wf(1,2)] assms(2) mm show ?thesis by (simp add: kv_budget_def)
  next
    fix U assume U: "finite U" "grows_by U s ?s" "(\<Sum>p \<in> U. pair_size p) < 2 ^ 63"
      and le: "memory_usage ?s \<le> maxmemory s"
    have "total_bytes (entries ?s) < 2 ^ 64"
      using total_bytes_grows [OF U(2) wf(1,2) U(1)] U(3) assms(2,4) by (simp add: kv_budget_def)
    then have "unat (memory_usage ?s) = total_bytes (entries ?s)"
      using wf(3) by (simp add: kv_wf_def word_bytes_of_nat unat_of_nat)
    with le mm show ?thesis by (simp add: kv_budget_def word_le_nat_alt)
  qed
qed

definition sample_env :: kv_env where
  "sample_env = \<lparr>env_now = 0, env_now2 = 1, env_copy = (\<lambda>ks k. 0), env_updates = (\<lambda>ks k. 0),
     env_map = (\<lambda>ks k. 0)\<rparr>"

definition sample_set :: "string \<Rightarrow> string \<Rightarrow> milliseconds option \<Rightarrow> kv_call" where
  "sample_set k v ttl = SetC \<lparr>req_key = k, req_value = v, req_ttl = ttl, req_condition = kNone\<rparr>"

definition sample_store :: KvStore where
  "sample_store = kv_run sample_env (sample_set ''b'' ''two'' None)
     (kv_run sample_env (sample_set ''a'' ''1'' (Some 5)) (new_KvStore 140 kLru None))"

lemma sample_reachable: "kv_reachable 140 kLru None sample_store"
  unfolding sample_store_def sample_set_def
  by (intro kv_reachable.intros) (simp_all add: pair_size_def sizeof_Entry_def)

lemma sample_wf: "kv_wf sample_store"
  by (rule kv_reachable_wf [OF sample_reachable])

text \<open>
  C1. Over every sequence of calls on a store of less than \<open>2 ^ 63\<close> bytes, whatever the clock, the
  iteration orders and the eviction policy, the keys stay distinct, \<open>memory_usage_\<close> is exactly the sum
  of \<open>EntryBytes\<close> over the entries as a natural number, and it never exceeds \<open>maxmemory_\<close>.
\<close>

theorem store_memory_budget:
  assumes "kv_reachable mm pol met s" and "unat mm < 2 ^ 63"
  shows "um_wf (entries s) \<and> unat (kv_MemoryUsage s) = total_bytes (entries s) \<and>
    total_bytes (entries s) \<le> unat mm"
proof -
  have inv: "kv_wf s \<and> kv_budget s \<and> maxmemory s = mm"
    using assms
  proof (induction rule: kv_reachable.induct)
    case start
    show ?case by (simp add: kv_budget_def new_KvStore_def total_bytes_def kv_wf_def um_wf_def)
  next
    case (call s c e)
    then show ?case using kv_run_wf kv_run_budget [of s c e] by simp
  qed
  then have le: "total_bytes (entries s) \<le> unat mm" by (auto simp: kv_budget_def)
  then have "unat (memory_usage s) = total_bytes (entries s)"
    using inv assms(2) by (simp add: kv_wf_def word_bytes_of_nat unat_of_nat)
  with inv le show ?thesis by (simp add: kv_wf_def kv_MemoryUsage_def)
qed

theorem store_memory_budget_witness:
  "unat (kv_MemoryUsage sample_store) = total_bytes (entries sample_store) \<and>
   total_bytes (entries sample_store) \<le> 140 \<and> length (entries sample_store) = 2"
proof -
  have "length (entries sample_store) = 2" by code_simp
  with store_memory_budget [OF sample_reachable] show ?thesis by simp
qed

theorem Set_evicts_coldest_witness:
  "coldness kLru (the (um_find (entries sample_store) ''a'')) \<le> coldness kLru (the (um_find (entries sample_store) ''b''))"
proof -
  let ?req = "\<lparr>req_key = ''c'', req_value = ''3'', req_ttl = None, req_condition = kNone\<rparr>"
  let ?after = "kv_Set 0 (\<lambda>ks k. 0) ?req sample_store"
  have "um_find (entries sample_store) ''a'' = Some (the (um_find (entries sample_store) ''a''))"
    "um_find (entries (snd ?after)) ''a'' = None"
    "um_find (entries (snd ?after)) ''b'' = Some (the (um_find (entries sample_store) ''b''))"
    "policy sample_store = kLru"
    by code_simp+
  with Set_evicts_coldest [OF sample_wf, where now = 0 and ho = "\<lambda>ks k. 0" and req = ?req
      and r = "fst ?after" and s' = "snd ?after" and k = "''a''" and k' = "''b''"
      and e = "the (um_find (entries sample_store) ''a'')" and e' = "the (um_find (entries sample_store) ''b'')"]
  show ?thesis by simp
qed

subsection \<open>The contract of each operation\<close>

text \<open>
  C2. \<open>Set\<close>, on every branch.  It answers \<open>kConditionFailed\<close> exactly when NX meets a live key or XX
  meets none; it answers \<open>kNoMemory\<close> only if the entry alone exceeds the limit or, without
  eviction, the store would; unless it answers \<open>kOk\<close> no live entry changes.  On \<open>kOk\<close> the key holds
  the new value and expiry from then on, and some other keys may be evicted: none when the entry
  fits or the policy forbids it.
\<close>

theorem Set_refines:
  assumes "kv_wf s" and "kv_Set now ho req s = (r, s')"
  shows "(r = kConditionFailed \<longleftrightarrow> set_refused (req_condition req) (view now s (req_key req) \<noteq> None)) \<and>
    (r \<noteq> kOk \<longrightarrow> (\<forall>t \<ge> now. view t s' = view t s)) \<and>
    (r = kNoMemory \<longrightarrow> maxmemory s < EntryBytes (req_key req) (req_value req) \<or>
       policy s = kNoEviction \<and> maxmemory s <
         memory_usage s - bytes_of s (req_key req) + EntryBytes (req_key req) (req_value req)) \<and>
    (r = kOk \<longrightarrow> (\<exists>E. req_key req \<notin> E \<and>
       (policy s = kNoEviction \<or> memory_usage s - bytes_of s (req_key req)
          + EntryBytes (req_key req) (req_value req) \<le> maxmemory s \<longrightarrow> E = {}) \<and>
       (\<forall>t \<ge> now. view t s' = alive t (set_map now req (view t s |` (- E))))))"
  by (rule kv_Set_view [OF assms])

theorem Set_refines_witness:
  "\<exists>E. ''a'' \<notin> E \<and> (\<forall>t \<ge> 7. view t (snd (kv_Set 7 (\<lambda>ks k. 0)
     \<lparr>req_key = ''a'', req_value = ''9'', req_ttl = None, req_condition = kIfPresent\<rparr> sample_store)) =
   alive t (set_map 7 \<lparr>req_key = ''a'', req_value = ''9'', req_ttl = None, req_condition = kIfPresent\<rparr>
     (view t sample_store |` (- E))))"
proof -
  let ?req = "\<lparr>req_key = ''a'', req_value = ''9'', req_ttl = None, req_condition = kIfPresent\<rparr>"
  have "fst (kv_Set 7 (\<lambda>ks k. 0) ?req sample_store) = kOk" by code_simp
  with Set_refines [OF sample_wf prod.collapse [symmetric], of 7 "\<lambda>ks k. 0" ?req] show ?thesis by auto
qed

text \<open>
  C3. \<open>MSet\<close> is all or nothing: it either answers \<open>kNoMemory\<close> and leaves the whole store, counters
  included, as it was, or answers \<open>kOk\<close> and stores every pair, the last one of a repeated key winning,
  without expiry; keys it does not mention are kept, except those it evicts.
\<close>

theorem MSet_all_or_nothing:
  assumes "kv_wf s" and "kv_MSet hc hu he kvs s = (r, s')"
  shows "r = kNoMemory \<and> s' = s \<or>
    r = kOk \<and> (\<exists>E. fst ` set kvs \<inter> E = {} \<and>
      (\<forall>t. view t s' = view t s |` (- E) ++ (map_option (\<lambda>v. (v, None)) \<circ> map_of (rev kvs))))"
  by (rule kv_MSet_view [OF assms])

theorem MSet_all_or_nothing_witness:
  "\<exists>E. view 0 (snd (kv_MSet (\<lambda>ks k. 0) (\<lambda>ks k. 0) (\<lambda>ks k. 0) [(''a'', ''x''), (''a'', ''y'')] sample_store)) =
     view 0 sample_store |` (- E) ++ (map_option (\<lambda>v. (v, None)) \<circ> map_of (rev [(''a'', ''x''), (''a'', ''y'')]))"
proof -
  let ?run = "kv_MSet (\<lambda>ks k. 0) (\<lambda>ks k. 0) (\<lambda>ks k. 0) [(''a'', ''x''), (''a'', ''y'')] sample_store"
  have "fst ?run = kOk" by code_simp
  with MSet_all_or_nothing [OF sample_wf prod.collapse [symmetric], of "\<lambda>ks k. 0" "\<lambda>ks k. 0" "\<lambda>ks k. 0"
      "[(''a'', ''x''), (''a'', ''y'')]"]
  show ?thesis by auto
qed

text \<open>
  C24. The reads answer from the live content and leave it alone: \<open>Get\<close> returns the value of a live key
  and nothing for an absent or expired one, \<open>Exists\<close> counts the live keys of its list with
  repetitions, \<open>TtlSeconds\<close> returns -2 for an absent key, -1 for one without expiry and otherwise the
  truncated remaining seconds.  Whatever they drop was expired already.
\<close>

theorem reads_refine:
  assumes "now \<le> t"
  shows "fst (kv_Get now k s) = map_option fst (view now s k) \<and>
    fst (kv_Exists now ks s) = int (length (filter (\<lambda>k. view now s k \<noteq> None) ks)) \<and>
    fst (kv_TtlSeconds now k s) = (case view now s k of
      None \<Rightarrow> -2 | Some (_, None) \<Rightarrow> -1 | Some (_, Some x) \<Rightarrow> max 0 (time_diff_s x now)) \<and>
    view t (snd (kv_Get now k s)) = view t s \<and> view t (snd (kv_Exists now ks s)) = view t s \<and>
    view t (snd (kv_TtlSeconds now k s)) = view t s"
proof -
  obtain r1 s1 r2 s2 r3 s3 where "kv_Get now k s = (r1, s1)" "kv_Exists now ks s = (r2, s2)"
    "kv_TtlSeconds now k s = (r3, s3)" by fastforce
  with kv_Get_view [OF this(1)] kv_Exists_view [OF this(2)] kv_TtlSeconds_view [OF this(3)] assms
  show ?thesis by simp
qed

theorem reads_refine_witness:
  "fst (kv_Get 3 ''a'' sample_store) = Some ''1'' \<and> view 3 (snd (kv_Get 3 ''a'' sample_store)) = view 3 sample_store"
proof -
  have "view 3 sample_store ''a'' = Some (''1'', Some 5000000)" by code_simp
  with reads_refine [of 3 3 "''a''" sample_store "[]"] show ?thesis by simp
qed

text \<open>
  C22. \<open>Delete\<close> returns the number of distinct live keys of its list and removes exactly those keys.
\<close>

theorem Delete_refines:
  assumes "kv_Delete now ks s = (n, s')"
  shows "n = int (card {k \<in> set ks. view now s k \<noteq> None}) \<and>
    (\<forall>t \<ge> now. view t s' = view t s |` (- set ks))"
  by (rule kv_Delete_view [OF assms])

theorem Delete_refines_witness:
  "fst (kv_Delete 3 [''a'', ''x'', ''a''] sample_store) = 1 \<and>
   view 3 (snd (kv_Delete 3 [''a'', ''x'', ''a''] sample_store)) = view 3 sample_store |` (- set [''a'', ''x'', ''a''])"
proof -
  have "fst (kv_Delete 3 [''a'', ''x'', ''a''] sample_store) = 1" by code_simp
  with Delete_refines [OF prod.collapse [symmetric], of 3 "[''a'', ''x'', ''a'']" sample_store]
  show ?thesis by (simp only: fst_conv order.refl simp_thms)
qed

text \<open>
  C23. \<open>Expire\<close> answers whether the key is live.  On a live key a positive lifetime becomes its expiry
  and keeps its value, a lifetime of zero or less deletes it at once, and no other key changes.
\<close>

theorem Expire_refines:
  assumes "kv_Expire now k ttl s = (b, s')" and "now \<le> t"
  shows "b = (view now s k \<noteq> None) \<and> view t s' = (case view now s k of
      None \<Rightarrow> view t s
    | Some (v, x) \<Rightarrow> if ttl \<le> 0 then (view t s)(k := None)
        else alive t ((view t s)(k \<mapsto> (v, Some (time_add_ms now ttl)))))"
  using kv_Expire_view [OF assms(1)] assms(2) by blast

theorem Expire_refines_witness:
  "fst (kv_Expire 3 ''b'' 0 sample_store) \<and>
   view 4 (snd (kv_Expire 3 ''b'' 0 sample_store)) = (view 4 sample_store)(''b'' := None)"
proof -
  have "view 3 sample_store ''b'' = Some (''two'', None)" by code_simp
  with Expire_refines [OF prod.collapse [symmetric], of 3 4 "''b''" 0 sample_store] show ?thesis by simp
qed

lemma sdiv_nonneg: "0 \<le> a \<Longrightarrow> 0 < b \<Longrightarrow> a sdiv b = a div (b :: int)"
  by (cases "a = 0") (simp_all add: signed_divide_int_def sgn_if)

lemma time_add_diff:
  assumes "now \<le> x" and "in_int64 (x - now)" and "in_int64 now2" and "in_int64 (now2 + (x - now))"
  shows "time_add_ms now2 (time_diff_ms x now) = now2 + (x - now) div 1000000 * 1000000"
proof -
  let ?d = "x - now"
  have le: "0 \<le> ?d div 1000000 * 1000000" "?d div 1000000 * 1000000 \<le> ?d" using assms(1) by simp_all
  have "in_int64 (?d div 1000000 * 1000000)" "in_int64 (now2 + ?d div 1000000 * 1000000)"
    using le assms(2-4) unfolding in_int64_def INT64_MIN_def INT64_MAX_def by linarith+
  then show ?thesis
    using assms(1,2) by (simp add: time_add_ms_def time_diff_ms_def sdiv_nonneg)
qed

text \<open>
  C20. \<open>Increment\<close> by a 64-bit amount, on every branch.  It answers \<open>kNotInteger\<close> exactly when the key has a live value that is not
  the decimal form of a 64-bit integer; \<open>kOverflow\<close> exactly when the sum is no 64-bit integer; lack of memory exactly when the
  decimal form of the sum has no room in the store, even after eviction if the policy has any; only \<open>kIncrOk\<close> changes a live entry, and
  then the key holds the decimal form of the sum, absent keys counting as zero.
\<close>

theorem Increment_refines:
  assumes "kv_wf s" and "kv_Increment now now2 ho k d s = (r, s')" and "now \<le> now2" and "in_int64 d"
  shows "(incr_status r = kNotInteger \<longleftrightarrow> integer_of (view now s k) = None) \<and>
    (incr_status r = kOverflow \<longleftrightarrow> (\<exists>i. integer_of (view now s k) = Some i \<and> \<not> in_int64 (i + d))) \<and>
    (incr_status r = kIncrNoMemory \<longleftrightarrow>
      (\<exists>i. integer_of (view now s k) = Some i \<and> in_int64 (i + d) \<and> no_room s k (to_string (i + d)))) \<and>
    (incr_status r \<noteq> kIncrOk \<longrightarrow> incr_value r = 0 \<and> (\<forall>t \<ge> now2. view t s' = view t s)) \<and>
    (incr_status r = kIncrOk \<longrightarrow> (\<exists>i E. integer_of (view now s k) = Some i \<and> incr_value r = i + d \<and> k \<notin> E \<and>
       (policy s = kNoEviction \<longrightarrow> E = {}) \<and>
       (\<forall>t \<ge> now2. view t s' =
          alive t (set_map now2 (increment_request now k (i + d) (view now s k)) (view t s |` (- E))))))"
  using kv_Increment_view [OF assms(1-3)] kv_Increment_refusals [OF assms] by blast

theorem Increment_refines_witness:
  "integer_of (view 3 sample_store ''a'') = Some 1 \<and>
   incr_value (fst (kv_Increment 3 4 (\<lambda>ks k. 0) ''a'' 41 sample_store)) = 42"
proof -
  let ?run = "kv_Increment 3 4 (\<lambda>ks k. 0) ''a'' 41 sample_store"
  have st: "incr_status (fst ?run) = kIncrOk" "integer_of (view 3 sample_store ''a'') = Some 1" by code_simp+
  have "in_int64 41" by code_simp
  with Increment_refines [OF sample_wf prod.collapse [symmetric], of 3 4 41 "\<lambda>ks k. 0" "''a''"] st
  show ?thesis by auto
qed

text \<open>
  C25. \<open>Increment\<close> keeps the time to live of a key up to the millisecond it is truncated to: if the key
  expires at \<open>x\<close> and the two clock readings of the call are \<open>now\<close> and \<open>now2\<close>, the new expiry lies within
  one millisecond below \<open>x\<close>, shifted by the time the call took.
\<close>

theorem Increment_keeps_ttl:
  assumes "kv_wf s" and "kv_Increment now now2 ho k d s = (r, s')" and "now \<le> now2"
    and "incr_status r = kIncrOk" and "view now s k = Some (v, Some x)"
    and "in_int64 (x - now)" and "in_int64 now2" and "in_int64 (now2 + (x - now))"
  shows "\<exists>x'. x + (now2 - now) - 1000000 < x' \<and> x' \<le> x + (now2 - now) \<and>
    (\<forall>t \<ge> now2. t < x' \<longrightarrow> view t s' k = Some (to_string (incr_value r), Some x')) \<and>
    (\<forall>t \<ge> now2. x' \<le> t \<longrightarrow> view t s' k = None)"
proof -
  have live: "now < x" using assms(5) by (auto simp: view_def alive_def expired_at_def split: option.splits if_splits)
  let ?x = "time_add_ms now2 (time_diff_ms x now)"
  obtain i where i: "incr_value r = i + d" and
    eff: "\<And>t. now2 \<le> t \<Longrightarrow> view t s' k =
      alive t (\<lambda>_. Some (to_string (i + d), Some ?x)) k"
    using kv_Increment_view [OF assms(1-3)] assms(4,5)
    by (auto simp: set_map_def increment_request_def alive_def)
  have "?x = now2 + (x - now) div 1000000 * 1000000"
    using time_add_diff [of now x now2] live assms(6-8) by simp
  moreover have "(x - now) div 1000000 * 1000000 = (x - now) - (x - now) mod 1000000"
    by (simp add: minus_mod_eq_div_mult)
  moreover have "0 \<le> (x - now) mod 1000000" "(x - now) mod 1000000 < 1000000" by simp_all
  ultimately have "x + (now2 - now) - 1000000 < ?x" "?x \<le> x + (now2 - now)" by linarith+
  with eff i show ?thesis by (intro exI [of _ ?x]) (auto simp: alive_def expired_at_def)
qed

theorem Increment_keeps_ttl_witness:
  "\<exists>x'. 5000000 + 1 - 1000000 < x' \<and> x' \<le> 5000000 + (1 :: int) \<and>
     (\<forall>t \<ge> 4. t < x' \<longrightarrow> view t (snd (kv_Increment 3 4 (\<lambda>ks k. 0) ''a'' 41 sample_store)) ''a'' = Some (''42'', Some x'))"
proof -
  let ?run = "kv_Increment 3 4 (\<lambda>ks k. 0) ''a'' 41 sample_store"
  have st: "incr_status (fst ?run) = kIncrOk" "view 3 sample_store ''a'' = Some (''1'', Some 5000000)"
    "to_string (incr_value (fst ?run)) = ''42''" by code_simp+
  have "in_int64 (5000000 - 3)" "in_int64 4" "in_int64 (4 + (5000000 - 3))" by code_simp+
  with Increment_keeps_ttl [OF sample_wf prod.collapse [symmetric], of 3 4 "\<lambda>ks k. 0" "''a''" 41 "''1''" 5000000] st
  show ?thesis by auto
qed

text \<open>
  C40. A lifetime that fits \<open>std::chrono::milliseconds\<close> need not fit the nanosecond clock.  With the
  largest lifetime the command layer lets through, \<open>now + ttl\<close> wraps to one millisecond before
  \<open>now\<close>: \<open>Set\<close> answers \<open>kOk\<close> and the key is absent from that moment on.
\<close>

theorem Set_huge_ttl_lost:
  assumes "kv_wf s" and "kv_Set now ho req s = (kOk, s')" and "req_ttl req = Some INT64_MAX"
    and "INT64_MIN + 1000000 \<le> now" and "now \<le> INT64_MAX" and "now \<le> t"
  shows "view t s' (req_key req) = None"
proof -
  have "wrap64 (INT64_MAX * 1000000) = -1000000" by (simp add: wrap64_def INT64_MAX_def)
  moreover have "in_int64 (now - 1000000)" using assms(4,5) by (simp add: in_int64_def)
  ultimately have "time_add_ms now INT64_MAX = now - 1000000" by (simp add: time_add_ms_def)
  then show ?thesis
    using kv_Set_view [OF assms(1,2)] assms(3,6)
    by (auto simp: set_map_def alive_def expired_at_def)
qed

theorem Set_huge_ttl_lost_witness:
  "fst (kv_Set 7 (\<lambda>ks k. 0) \<lparr>req_key = ''a'', req_value = ''9'', req_ttl = Some INT64_MAX, req_condition = kNone\<rparr>
      sample_store) = kOk \<and>
   view 7 (snd (kv_Set 7 (\<lambda>ks k. 0) \<lparr>req_key = ''a'', req_value = ''9'', req_ttl = Some INT64_MAX, req_condition = kNone\<rparr>
      sample_store)) ''a'' = None"
proof -
  let ?req = "\<lparr>req_key = ''a'', req_value = ''9'', req_ttl = Some INT64_MAX, req_condition = kNone\<rparr>"
  have ok: "fst (kv_Set 7 (\<lambda>ks k. 0) ?req sample_store) = kOk" by code_simp
  then have "kv_Set 7 (\<lambda>ks k. 0) ?req sample_store = (kOk, snd (kv_Set 7 (\<lambda>ks k. 0) ?req sample_store))"
    by (metis prod.collapse)
  from Set_huge_ttl_lost [OF sample_wf this, of 7] ok show ?thesis by (simp add: INT64_MIN_def INT64_MAX_def)
qed

text \<open>
  C26. \<open>ActiveExpire\<close> is invisible to clients and only removes expired entries, as many as it reports;
  a pass whose budget covers the map removes every one of them, wherever the previous pass stopped,
  and so \<open>Snapshot\<close> lists exactly the live entries.
\<close>

theorem ActiveExpire_sound_and_complete:
  assumes "kv_wf s" and "kv_ActiveExpire now n s = (r, s')" and "now \<le> t"
  shows "view t s' = view t s \<and>
    (\<exists>R. mset (entries s) = mset (entries s') + mset R \<and> length R = r \<and> (\<forall>p \<in> set R. IsExpired (snd p) now)) \<and>
    (length (entries s) \<le> n \<longrightarrow> entries s' = filter (\<lambda>p. \<not> IsExpired (snd p) now) (entries s)) \<and>
    fst (kv_Snapshot now t s) =
      map (snapshot_entry t) (filter (\<lambda>p. \<not> IsExpired (snd p) now) (entries s))"
proof -
  have "fst (kv_Snapshot now t s) =
      map (snapshot_entry t) (filter (\<lambda>p. \<not> IsExpired (snd p) now) (entries s))"
    using kv_ActiveExpire_full [of s "length (entries s)" now] by (simp add: kv_Snapshot_def Let_def)
  moreover have "length (entries s) \<le> n \<longrightarrow> entries s' = filter (\<lambda>p. \<not> IsExpired (snd p) now) (entries s)"
    using kv_ActiveExpire_full [of s n now] assms(2) by simp
  ultimately show ?thesis
    using kv_ActiveExpire_view [OF assms] kv_ActiveExpire_spec [OF assms(1,2)] by blast
qed

theorem ActiveExpire_sound_and_complete_witness:
  "fst (kv_ActiveExpire 6000000 9 sample_store) = 1 \<and>
   entries (snd (kv_ActiveExpire 6000000 9 sample_store)) =
     filter (\<lambda>p. \<not> IsExpired (snd p) 6000000) (entries sample_store)"
proof -
  have "fst (kv_ActiveExpire 6000000 9 sample_store) = 1" "length (entries sample_store) \<le> 9" by code_simp+
  with ActiveExpire_sound_and_complete [OF sample_wf prod.collapse [symmetric], of 6000000 6000000 9]
  show ?thesis by simp
qed

end
