(* ===== verification/Database_Contract.thy ===== *)
theory Database_Contract
  imports Kv_Store_Theorems
begin

text \<open>
  The contract of src/include/cachefly/command/database.h as a locale: what the command layer may
  assume of any \<open>Database\<close>, stated over the abstract content \<open>contents t d\<close> of the database at time \<open>t\<close>.
  \<open>'e\<close> is what one call reads from its surroundings; \<open>starts e\<close> and \<open>ends e\<close> bound its clock readings.
  The single store is an instance here, the sharded database is one in its own theory.
\<close>

text \<open>Nothing visible has changed from time \<open>u\<close> on.\<close>

definition unchanged :: "(time_point \<Rightarrow> 'd \<Rightarrow> kv_map) \<Rightarrow> time_point \<Rightarrow> 'd \<Rightarrow> 'd \<Rightarrow> bool" where
  "unchanged contents u d d' \<longleftrightarrow> (\<forall>t \<ge> u. contents t d' = contents t d)"

text \<open>The maps that successful writes stand for.\<close>

definition mset_map :: "(string \<times> string) list \<Rightarrow> kv_map \<Rightarrow> kv_map" where
  "mset_map kvs m = m ++ (map_option (\<lambda>v. (v, None)) \<circ> map_of (rev kvs))"

definition expire_map :: "time_point \<Rightarrow> string \<Rightarrow> milliseconds \<Rightarrow> (string \<times> time_point option) option \<Rightarrow> kv_map \<Rightarrow> kv_map" where
  "expire_map now k ttl found m =
     (case found of
        None \<Rightarrow> m
      | Some (v, x) \<Rightarrow> if ttl \<le> 0 then m(k := None) else m(k \<mapsto> (v, Some (time_add_ms now ttl))))"

definition ttl_of :: "time_point \<Rightarrow> (string \<times> time_point option) option \<Rightarrow> int" where
  "ttl_of now found = (case found of
     None \<Rightarrow> -2 | Some (_, None) \<Rightarrow> -1 | Some (_, Some x) \<Rightarrow> max 0 (time_diff_s x now))"

locale database_contract =
  fixes ops :: "'e \<Rightarrow> 'd Database"
    and inv :: "'d \<Rightarrow> bool"
    and contents :: "time_point \<Rightarrow> 'd \<Rightarrow> kv_map"
    and valid :: "'e \<Rightarrow> bool"
    and starts :: "'e \<Rightarrow> time_point"
    and ends :: "'e \<Rightarrow> time_point"
  assumes window: "valid e \<Longrightarrow> starts e \<le> ends e"
    and ages: "t \<le> u \<Longrightarrow> alive u (contents t d) = contents u d"
    and Get_law: "valid e \<Longrightarrow> inv d \<Longrightarrow> db_Get (ops e) k d = (r, d') \<Longrightarrow>
      inv d' \<and> unchanged contents (ends e) d d' \<and>
      (\<exists>u. starts e \<le> u \<and> u \<le> ends e \<and> r = map_option fst (contents u d k))"
    and Set_law: "valid e \<Longrightarrow> inv d \<Longrightarrow> db_Set (ops e) req d = (w, d') \<Longrightarrow>
      inv d' \<and> (w \<noteq> kOk \<longrightarrow> unchanged contents (ends e) d d') \<and>
      (\<exists>u. starts e \<le> u \<and> u \<le> ends e \<and>
         (w = kConditionFailed \<longleftrightarrow> set_refused (req_condition req) (contents u d (req_key req) \<noteq> None)) \<and>
         (w = kOk \<longrightarrow> (\<exists>E. req_key req \<notin> E \<and>
            (\<forall>t \<ge> ends e. contents t d' = alive t (set_map u req (contents t d |` (- E)))))))"
    and MSet_law: "valid e \<Longrightarrow> inv d \<Longrightarrow> db_MSet (ops e) kvs d = (w, d') \<Longrightarrow>
      inv d' \<and> w \<noteq> kConditionFailed \<and> (w \<noteq> kOk \<longrightarrow> unchanged contents (ends e) d d') \<and>
      (w = kOk \<longrightarrow> (\<exists>E. fst ` set kvs \<inter> E = {} \<and>
         (\<forall>t \<ge> ends e. contents t d' = mset_map kvs (contents t d |` (- E)))))"
    and Delete_law: "valid e \<Longrightarrow> inv d \<Longrightarrow> db_Delete (ops e) ks d = (n, d') \<Longrightarrow>
      inv d' \<and> (\<forall>t \<ge> ends e. contents t d' = contents t d |` (- set ks)) \<and>
      (\<exists>at. (\<forall>k. starts e \<le> at k \<and> at k \<le> ends e) \<and>
         n = int (card {k \<in> set ks. contents (at k) d k \<noteq> None}))"
    and Exists_law: "valid e \<Longrightarrow> inv d \<Longrightarrow> db_Exists (ops e) ks d = (n, d') \<Longrightarrow>
      inv d' \<and> unchanged contents (ends e) d d' \<and>
      (\<exists>us. length us = length ks \<and> (\<forall>u \<in> set us. starts e \<le> u \<and> u \<le> ends e) \<and>
         n = int (length (filter (\<lambda>(k, u). contents u d k \<noteq> None) (zip ks us))))"
    and Expire_law: "valid e \<Longrightarrow> inv d \<Longrightarrow> db_Expire (ops e) k ttl d = (b, d') \<Longrightarrow>
      inv d' \<and> (\<exists>u. starts e \<le> u \<and> u \<le> ends e \<and> b = (contents u d k \<noteq> None) \<and>
         (\<forall>t \<ge> ends e. contents t d' = alive t (expire_map u k ttl (contents u d k) (contents t d))))"
    and Ttl_law: "valid e \<Longrightarrow> inv d \<Longrightarrow> db_TtlSeconds (ops e) k d = (n, d') \<Longrightarrow>
      inv d' \<and> unchanged contents (ends e) d d' \<and>
      (\<exists>u. starts e \<le> u \<and> u \<le> ends e \<and> n = ttl_of u (contents u d k))"
    and Increment_law: "valid e \<Longrightarrow> inv d \<Longrightarrow> db_Increment (ops e) k delta d = (ir, d') \<Longrightarrow>
      inv d' \<and> (incr_status ir \<noteq> kIncrOk \<longrightarrow> unchanged contents (ends e) d d') \<and>
      (\<exists>u u2. starts e \<le> u \<and> u \<le> u2 \<and> u2 \<le> ends e \<and>
         (incr_status ir = kNotInteger \<longleftrightarrow> integer_of (contents u d k) = None) \<and>
         (incr_status ir = kOverflow \<longleftrightarrow>
            (\<exists>i. integer_of (contents u d k) = Some i \<and> increment_overflows i delta)) \<and>
         (incr_status ir = kIncrOk \<longrightarrow> (\<exists>i E. integer_of (contents u d k) = Some i \<and>
            incr_value ir = i + delta \<and> k \<notin> E \<and>
            (\<forall>t \<ge> ends e. contents t d' =
               alive t (set_map u2 (increment_request u k (i + delta) (contents u d k)) (contents t d |` (- E)))))))"

subsection \<open>The single store\<close>

definition kv_database :: "kv_env \<Rightarrow> KvStore Database" where
  "kv_database e =
     \<lparr>db_Get = kv_Get (env_now e), db_Set = kv_Set (env_now e) (env_map e),
      db_MSet = kv_MSet (env_copy e) (env_updates e) (env_map e), db_Delete = kv_Delete (env_now e),
      db_Exists = kv_Exists (env_now e), db_Expire = kv_Expire (env_now e),
      db_TtlSeconds = kv_TtlSeconds (env_now e),
      db_Increment = kv_Increment (env_now e) (env_now2 e) (env_map e)\<rparr>"

definition kv_env_valid :: "kv_env \<Rightarrow> bool" where
  "kv_env_valid e \<longleftrightarrow> env_now e \<le> env_now2 e"

lemma alive_expire_map:
  "now \<le> t \<Longrightarrow> view t s' = (case found of
      None \<Rightarrow> view t s
    | Some (v, x) \<Rightarrow> if ttl \<le> 0 then (view t s)(k := None)
        else alive t ((view t s)(k \<mapsto> (v, Some (time_add_ms now ttl))))) \<Longrightarrow>
    view t s' = alive t (expire_map now k ttl found (view t s))"
  using alive_view [of t t s]
  by (auto simp: expire_map_def alive_update split: option.splits if_splits)

lemma zip_replicate_filter:
  "length (filter (\<lambda>(k, u). P u k) (zip ks (replicate (length ks) v))) = length (filter (P v) ks)"
  by (induction ks) auto

interpretation kv: database_contract kv_database kv_wf view kv_env_valid env_now env_now2
proof
  fix e d k r d'
  assume e: "kv_env_valid e" and wf: "kv_wf d" and run: "db_Get (kv_database e) k d = (r, d')"
  then show "kv_wf d' \<and> unchanged view (env_now2 e) d d' \<and>
      (\<exists>u. env_now e \<le> u \<and> u \<le> env_now2 e \<and> r = map_option fst (view u d k))"
    using kv_Get_view [of "env_now e" k d r d'] kv_Get_wf [of d "env_now e" k r d']
    by (auto simp: kv_database_def kv_env_valid_def unchanged_def)
next
  fix e d req w d'
  assume e: "kv_env_valid e" and wf: "kv_wf d" and run: "db_Set (kv_database e) req d = (w, d')"
  then have st: "kv_Set (env_now e) (env_map e) req d = (w, d')" and le: "env_now e \<le> env_now2 e"
    by (simp_all add: kv_database_def kv_env_valid_def)
  note v = kv_Set_view [OF wf st]
  have "unchanged view (env_now2 e) d d'" if "w \<noteq> kOk"
    using v that le by (simp add: unchanged_def)
  moreover have "\<exists>E. req_key req \<notin> E \<and>
      (\<forall>t \<ge> env_now2 e. view t d' = alive t (set_map (env_now e) req (view t d |` (- E))))" if "w = kOk"
    using v that le by (meson order_trans)
  ultimately show "kv_wf d' \<and> (w \<noteq> kOk \<longrightarrow> unchanged view (env_now2 e) d d') \<and>
      (\<exists>u. env_now e \<le> u \<and> u \<le> env_now2 e \<and>
         (w = kConditionFailed \<longleftrightarrow> set_refused (req_condition req) (view u d (req_key req) \<noteq> None)) \<and>
         (w = kOk \<longrightarrow> (\<exists>E. req_key req \<notin> E \<and>
            (\<forall>t \<ge> env_now2 e. view t d' = alive t (set_map u req (view t d |` (- E)))))))"
    using kv_Set_wf [OF wf st] v le by blast
next
  fix e d kvs w d'
  assume e: "kv_env_valid e" and wf: "kv_wf d" and run: "db_MSet (kv_database e) kvs d = (w, d')"
  then have st: "kv_MSet (env_copy e) (env_updates e) (env_map e) kvs d = (w, d')"
    by (simp add: kv_database_def)
  from kv_MSet_view [OF wf st] kv_MSet_wf [OF wf st]
  show "kv_wf d' \<and> w \<noteq> kConditionFailed \<and> (w \<noteq> kOk \<longrightarrow> unchanged view (env_now2 e) d d') \<and>
      (w = kOk \<longrightarrow> (\<exists>E. fst ` set kvs \<inter> E = {} \<and>
         (\<forall>t \<ge> env_now2 e. view t d' = mset_map kvs (view t d |` (- E)))))"
    by (auto simp: unchanged_def mset_map_def)
next
  fix e d ks n d'
  assume e: "kv_env_valid e" and wf: "kv_wf d" and run: "db_Delete (kv_database e) ks d = (n, d')"
  then have st: "kv_Delete (env_now e) ks d = (n, d')" and le: "env_now e \<le> env_now2 e"
    by (simp_all add: kv_database_def kv_env_valid_def)
  show "kv_wf d' \<and> (\<forall>t \<ge> env_now2 e. view t d' = view t d |` (- set ks)) \<and>
      (\<exists>at. (\<forall>k. env_now e \<le> at k \<and> at k \<le> env_now2 e) \<and>
         n = int (card {k \<in> set ks. view (at k) d k \<noteq> None}))"
    using kv_Delete_view [OF st] kv_Delete_wf [OF wf st] le
    by (intro conjI exI [of _ "\<lambda>_. env_now e"]) auto
next
  fix e d ks n d'
  assume e: "kv_env_valid e" and wf: "kv_wf d" and run: "db_Exists (kv_database e) ks d = (n, d')"
  then have st: "kv_Exists (env_now e) ks d = (n, d')" and le: "env_now e \<le> env_now2 e"
    by (simp_all add: kv_database_def kv_env_valid_def)
  show "kv_wf d' \<and> unchanged view (env_now2 e) d d' \<and>
      (\<exists>us. length us = length ks \<and> (\<forall>u \<in> set us. env_now e \<le> u \<and> u \<le> env_now2 e) \<and>
         n = int (length (filter (\<lambda>(k, u). view u d k \<noteq> None) (zip ks us))))"
    using kv_Exists_view [OF st] kv_Exists_wf [OF wf st] le
      zip_replicate_filter [of "\<lambda>u k. view u d k \<noteq> None" ks "env_now e"]
    by (intro conjI exI [of _ "replicate (length ks) (env_now e)"]) (auto simp: unchanged_def)
next
  fix e d k ttl b d'
  assume e: "kv_env_valid e" and wf: "kv_wf d" and run: "db_Expire (kv_database e) k ttl d = (b, d')"
  then have st: "kv_Expire (env_now e) k ttl d = (b, d')" and le: "env_now e \<le> env_now2 e"
    by (simp_all add: kv_database_def kv_env_valid_def)
  have "view t d' = alive t (expire_map (env_now e) k ttl (view (env_now e) d k) (view t d))"
    if "env_now2 e \<le> t" for t
    using kv_Expire_view(2) [OF st, of t] le that by (intro alive_expire_map) auto
  then show "kv_wf d' \<and> (\<exists>u. env_now e \<le> u \<and> u \<le> env_now2 e \<and> b = (view u d k \<noteq> None) \<and>
         (\<forall>t \<ge> env_now2 e. view t d' = alive t (expire_map u k ttl (view u d k) (view t d))))"
    using kv_Expire_view(1) [OF st] kv_Expire_wf [OF wf st] le by blast
next
  fix e d k n d'
  assume e: "kv_env_valid e" and wf: "kv_wf d" and run: "db_TtlSeconds (kv_database e) k d = (n, d')"
  then have st: "kv_TtlSeconds (env_now e) k d = (n, d')" and le: "env_now e \<le> env_now2 e"
    by (simp_all add: kv_database_def kv_env_valid_def)
  then show "kv_wf d' \<and> unchanged view (env_now2 e) d d' \<and>
      (\<exists>u. env_now e \<le> u \<and> u \<le> env_now2 e \<and> n = ttl_of u (view u d k))"
    using kv_TtlSeconds_view [OF st] kv_TtlSeconds_wf [OF wf st] by (auto simp: unchanged_def ttl_of_def)
next
  fix e d k delta r d'
  assume e: "kv_env_valid e" and wf: "kv_wf d" and run: "db_Increment (kv_database e) k delta d = (r, d')"
  then have st: "kv_Increment (env_now e) (env_now2 e) (env_map e) k delta d = (r, d')"
    and le: "env_now e \<le> env_now2 e"
    by (simp_all add: kv_database_def kv_env_valid_def)
  note v = kv_Increment_view [OF wf st le]
  have "unchanged view (env_now2 e) d d'" if "incr_status r \<noteq> kIncrOk"
    using v that by (simp add: unchanged_def)
  moreover have main: "env_now e \<le> env_now e \<and> env_now e \<le> env_now2 e \<and> env_now2 e \<le> env_now2 e \<and>
         (incr_status r = kNotInteger \<longleftrightarrow> integer_of (view (env_now e) d k) = None) \<and>
         (incr_status r = kOverflow \<longleftrightarrow>
            (\<exists>i. integer_of (view (env_now e) d k) = Some i \<and> increment_overflows i delta)) \<and>
         (incr_status r = kIncrOk \<longrightarrow> (\<exists>i E. integer_of (view (env_now e) d k) = Some i \<and>
            incr_value r = i + delta \<and> k \<notin> E \<and>
            (\<forall>t \<ge> env_now2 e. view t d' = alive t
               (set_map (env_now2 e) (increment_request (env_now e) k (i + delta) (view (env_now e) d k)) (view t d |` (- E))))))"
    using v le by blast
  ultimately show "kv_wf d' \<and> (incr_status r \<noteq> kIncrOk \<longrightarrow> unchanged view (env_now2 e) d d') \<and>
      (\<exists>u u2. env_now e \<le> u \<and> u \<le> u2 \<and> u2 \<le> env_now2 e \<and>
         (incr_status r = kNotInteger \<longleftrightarrow> integer_of (view u d k) = None) \<and>
         (incr_status r = kOverflow \<longleftrightarrow>
            (\<exists>i. integer_of (view u d k) = Some i \<and> increment_overflows i delta)) \<and>
         (incr_status r = kIncrOk \<longrightarrow> (\<exists>i E. integer_of (view u d k) = Some i \<and>
            incr_value r = i + delta \<and> k \<notin> E \<and>
            (\<forall>t \<ge> env_now2 e. view t d' =
               alive t (set_map u2 (increment_request u k (i + delta) (view u d k)) (view t d |` (- E)))))))"
    using kv_Increment_wf [OF wf st] main by (intro conjI) (simp, simp, rule exI, rule exI, rule main)
qed (simp_all add: kv_env_valid_def)

end
