(* ===== verification/Sharded_Database.thy ===== *)
theory Sharded_Database
  imports Database_Contract
begin

text \<open>
  src/include/cachefly/shard/sharded_database.h and src/src/shard/sharded_database.cpp: the worker
  thread of one shard and the database that spreads keys over the shards.

  \<open>std::hash<std::string>\<close> is a parameter \<open>hash\<close>.  The metrics object is shared by all shards and only
  ever added to; each store of the model carries its own share of the counters.
\<close>

subsection \<open>One shard: a queue of tasks and a worker\<close>

text \<open>A task receives the clock readings and iteration orders its run meets.\<close>

type_synonym Task = "kv_env \<Rightarrow> KvStore \<Rightarrow> KvStore"

record Shard =
  store :: KvStore
  tasks :: "Task list"
  stopping :: bool

definition new_Shard :: "size_t \<Rightarrow> EvictionPolicy \<Rightarrow> Metrics option \<Rightarrow> Shard" where
  "new_Shard mm pol met = \<lparr>store = new_KvStore mm pol met, tasks = [], stopping = False\<rparr>"

definition Post :: "Task \<Rightarrow> Shard \<Rightarrow> std_exception + Shard" where
  "Post task sh =
     (if stopping sh then Inl (runtime_error ''shard is stopping'')
      else Inr (sh\<lparr>tasks := tasks sh @ [task]\<rparr>))"

text \<open>The first half of the destructor; the second waits for the worker to leave its loop.\<close>

definition Stop_Shard :: "Shard \<Rightarrow> Shard" where
  "Stop_Shard sh = sh\<lparr>stopping := True\<rparr>"

text \<open>
  One turn of \<open>Run\<close>, \<open>None\<close> being the \<open>break\<close>: a turn without a task is the timeout of \<open>wait_for\<close>.
  \<open>t\<close> is the clock reading of the \<open>ActiveExpire\<close> pass that ends the turn.
\<close>

definition Run_turn :: "kv_env \<Rightarrow> time_point \<Rightarrow> Shard \<Rightarrow> Shard option" where
  "Run_turn e t sh =
     (if stopping sh \<and> tasks sh = [] then None
      else (let (s, rest) = (case tasks sh of [] \<Rightarrow> (store sh, []) | task # ts \<Rightarrow> (task e (store sh), ts))
            in Some (sh\<lparr>store := snd (kv_ActiveExpire t 64 s), tasks := rest\<rparr>)))"

subsection \<open>Submitting and waiting\<close>

text \<open>
  \<open>Submit(f).get()\<close> as the caller sees it: the worker makes some expiry passes (the one that ends the
  previous turn, and one per idle turn), then runs \<open>f\<close>.
\<close>

record task_env =
  passes :: "time_point list"
  kenv :: kv_env

definition expire_pass :: "time_point \<Rightarrow> KvStore \<Rightarrow> KvStore" where
  "expire_pass t s = snd (kv_ActiveExpire t 64 s)"

definition run_task :: "task_env \<Rightarrow> (kv_env \<Rightarrow> KvStore \<Rightarrow> 'r \<times> KvStore) \<Rightarrow> KvStore \<Rightarrow> 'r \<times> KvStore" where
  "run_task te f s = f (kenv te) (fold expire_pass (passes te) s)"

definition Submit ::
    "task_env \<Rightarrow> nat \<Rightarrow> (kv_env \<Rightarrow> KvStore \<Rightarrow> 'r \<times> KvStore) \<Rightarrow> KvStore list \<Rightarrow> 'r \<times> KvStore list" where
  "Submit te i f shards = (let (r, s) = run_task te f (shards ! i) in (r, shards[i := s]))"

subsection \<open>The database\<close>

definition shard_budget :: "size_t \<Rightarrow> nat \<Rightarrow> nat \<Rightarrow> size_t" where
  "shard_budget mm n index = mm div of_nat n + (if of_nat index < mm mod of_nat n then 1 else 0)"

definition new_ShardedDatabase :: "nat \<Rightarrow> size_t \<Rightarrow> EvictionPolicy \<Rightarrow> Metrics option \<Rightarrow> std_exception + KvStore list" where
  "new_ShardedDatabase shard_count mm pol met =
     (if shard_count = 0 then Inl (invalid_argument ''shard count must be positive'')
      else if vector_limit < int shard_count then Inl (length_error ''vector::reserve'')
      else Inr (map (\<lambda>index. store (new_Shard (shard_budget mm shard_count index) pol met)) [0..<shard_count]))"

type_synonym hash_function = "string \<Rightarrow> size_t"

definition ShardForKey :: "hash_function \<Rightarrow> KvStore list \<Rightarrow> string \<Rightarrow> nat" where
  "ShardForKey hash shards key = unat (hash key) mod length shards"

record call_env =
  c_start :: time_point
  c_end :: time_point
  c_task :: "nat \<Rightarrow> task_env"

definition sh_Get :: "hash_function \<Rightarrow> call_env \<Rightarrow> string \<Rightarrow> KvStore list \<Rightarrow> string option \<times> KvStore list" where
  "sh_Get hash ce key shards =
     Submit (c_task ce 0) (ShardForKey hash shards key) (\<lambda>e. kv_Get (env_now e) key) shards"

definition sh_Set :: "hash_function \<Rightarrow> call_env \<Rightarrow> SetRequest \<Rightarrow> KvStore list \<Rightarrow> WriteResult \<times> KvStore list" where
  "sh_Set hash ce request shards =
     Submit (c_task ce 0) (ShardForKey hash shards (req_key request))
       (\<lambda>e. kv_Set (env_now e) (env_map e) request) shards"

fun sh_Delete_loop :: "hash_function \<Rightarrow> (nat \<Rightarrow> task_env) \<Rightarrow> nat \<Rightarrow> string list \<Rightarrow> KvStore list \<Rightarrow> int \<times> KvStore list" where
  "sh_Delete_loop hash te n [] shards = (0, shards)"
| "sh_Delete_loop hash te n (key # keys) shards =
     (let (r, shards1) = Submit (te n) (ShardForKey hash shards key) (\<lambda>e. kv_Delete (env_now e) [key]) shards;
          (total, shards2) = sh_Delete_loop hash te (Suc n) keys shards1
      in (r + total, shards2))"

definition sh_Delete :: "hash_function \<Rightarrow> call_env \<Rightarrow> string list \<Rightarrow> KvStore list \<Rightarrow> int \<times> KvStore list" where
  "sh_Delete hash ce = sh_Delete_loop hash (c_task ce) 0"

fun sh_Exists_loop :: "hash_function \<Rightarrow> (nat \<Rightarrow> task_env) \<Rightarrow> nat \<Rightarrow> string list \<Rightarrow> KvStore list \<Rightarrow> int \<times> KvStore list" where
  "sh_Exists_loop hash te n [] shards = (0, shards)"
| "sh_Exists_loop hash te n (key # keys) shards =
     (let (r, shards1) = Submit (te n) (ShardForKey hash shards key) (\<lambda>e. kv_Exists (env_now e) [key]) shards;
          (total, shards2) = sh_Exists_loop hash te (Suc n) keys shards1
      in (r + total, shards2))"

definition sh_Exists :: "hash_function \<Rightarrow> call_env \<Rightarrow> string list \<Rightarrow> KvStore list \<Rightarrow> int \<times> KvStore list" where
  "sh_Exists hash ce = sh_Exists_loop hash (c_task ce) 0"

definition sh_Expire :: "hash_function \<Rightarrow> call_env \<Rightarrow> string \<Rightarrow> milliseconds \<Rightarrow> KvStore list \<Rightarrow> bool \<times> KvStore list" where
  "sh_Expire hash ce key ttl shards =
     Submit (c_task ce 0) (ShardForKey hash shards key) (\<lambda>e. kv_Expire (env_now e) key ttl) shards"

definition sh_TtlSeconds :: "hash_function \<Rightarrow> call_env \<Rightarrow> string \<Rightarrow> KvStore list \<Rightarrow> int \<times> KvStore list" where
  "sh_TtlSeconds hash ce key shards =
     Submit (c_task ce 0) (ShardForKey hash shards key) (\<lambda>e. kv_TtlSeconds (env_now e) key) shards"

definition sh_Increment :: "hash_function \<Rightarrow> call_env \<Rightarrow> string \<Rightarrow> int \<Rightarrow> KvStore list \<Rightarrow> IncrementResult \<times> KvStore list" where
  "sh_Increment hash ce key delta shards =
     Submit (c_task ce 0) (ShardForKey hash shards key)
       (\<lambda>e. kv_Increment (env_now e) (env_now2 e) (env_map e) key delta) shards"

subsection \<open>MSet across shards\<close>

text \<open>
  The groups by shard, the indices of the nonempty ones, a copy of each touched store, one \<open>MSet\<close> per
  touched shard, and on the first failure the copies put back.  The counter \<open>n\<close> numbers the submitted
  tasks.  Putting a copy back keeps what the metrics have counted meanwhile.
\<close>

definition mset_groups :: "hash_function \<Rightarrow> KvStore list \<Rightarrow> (string \<times> string) list \<Rightarrow> (string \<times> string) list list" where
  "mset_groups hash shards kvs =
     map (\<lambda>index. filter (\<lambda>(k, v). ShardForKey hash shards k = index) kvs) [0..<length shards]"

definition touched_shards :: "(string \<times> string) list list \<Rightarrow> nat list" where
  "touched_shards groups = filter (\<lambda>index. groups ! index \<noteq> []) [0..<length groups]"

definition copy_store :: "kv_env \<Rightarrow> KvStore \<Rightarrow> KvStore \<times> KvStore" where
  "copy_store e s = (s\<lparr>entries := um_copy (env_copy e) (entries s)\<rparr>, s)"

fun take_checkpoints ::
    "(nat \<Rightarrow> task_env) \<Rightarrow> nat \<Rightarrow> nat list \<Rightarrow> KvStore list \<Rightarrow> (nat \<times> KvStore) list \<times> nat \<times> KvStore list" where
  "take_checkpoints te n [] shards = ([], n, shards)"
| "take_checkpoints te n (index # indices) shards =
     (let (copy, shards1) = Submit (te n) index copy_store shards;
          (copies, m, shards2) = take_checkpoints te (Suc n) indices shards1
      in ((index, copy) # copies, m, shards2))"

definition restore_store :: "KvStore \<Rightarrow> kv_env \<Rightarrow> KvStore \<Rightarrow> unit \<times> KvStore" where
  "restore_store checkpoint e s = ((), checkpoint\<lparr>metrics := metrics s\<rparr>)"

fun rollback :: "(nat \<Rightarrow> task_env) \<Rightarrow> nat \<Rightarrow> (nat \<times> KvStore) list \<Rightarrow> KvStore list \<Rightarrow> KvStore list" where
  "rollback te n [] shards = shards"
| "rollback te n ((index, checkpoint) # copies) shards =
     rollback te (Suc n) copies (snd (Submit (te n) index (restore_store checkpoint) shards))"

text \<open>\<open>Inr\<close> is success, \<open>Inl\<close> the first result that is not \<open>kOk\<close>, with the counter for the rollback.\<close>

fun mset_apply ::
    "(nat \<Rightarrow> task_env) \<Rightarrow> nat \<Rightarrow> (string \<times> string) list list \<Rightarrow> nat list \<Rightarrow> KvStore list \<Rightarrow>
     (WriteResult \<times> nat + unit) \<times> KvStore list" where
  "mset_apply te n groups [] shards = (Inr (), shards)"
| "mset_apply te n groups (index # indices) shards =
     (let (result, shards1) = Submit (te n) index
            (\<lambda>e. kv_MSet (env_copy e) (env_updates e) (env_map e) (groups ! index)) shards
      in if result \<noteq> kOk then (Inl (result, Suc n), shards1)
         else mset_apply te (Suc n) groups indices shards1)"

definition sh_MSet :: "hash_function \<Rightarrow> call_env \<Rightarrow> (string \<times> string) list \<Rightarrow> KvStore list \<Rightarrow> WriteResult \<times> KvStore list" where
  "sh_MSet hash ce kvs shards =
     (let groups = mset_groups hash shards kvs;
          touched = touched_shards groups;
          (copies, n, shards1) = take_checkpoints (c_task ce) 0 touched shards
      in case mset_apply (c_task ce) n groups touched shards1 of
           (Inr _, shards2) \<Rightarrow> (kOk, shards2)
         | (Inl (result, m), shards2) \<Rightarrow> (result, rollback (c_task ce) m copies shards2))"

subsection \<open>Whole-database operations\<close>

fun submit_all ::
    "(nat \<Rightarrow> task_env) \<Rightarrow> nat \<Rightarrow> (kv_env \<Rightarrow> KvStore \<Rightarrow> 'r \<times> KvStore) \<Rightarrow> KvStore list \<Rightarrow> 'r list \<times> KvStore list" where
  "submit_all te n f [] = ([], [])"
| "submit_all te n f (s # ss) =
     (let (r, s1) = run_task (te n) f s; (rs, ss1) = submit_all te (Suc n) f ss in (r # rs, s1 # ss1))"

definition sh_Snapshot :: "call_env \<Rightarrow> KvStore list \<Rightarrow> SnapshotEntry list \<times> KvStore list" where
  "sh_Snapshot ce shards =
     (let (rs, shards1) = submit_all (c_task ce) 0 (\<lambda>e. kv_Snapshot (env_now e) (env_now2 e)) shards
      in (concat rs, shards1))"

definition sh_Stats :: "call_env \<Rightarrow> KvStore list \<Rightarrow> (size_t \<times> size_t) \<times> KvStore list" where
  "sh_Stats ce shards =
     (let (rs, shards1) = submit_all (c_task ce) 0 (\<lambda>e s. ((kv_Size s, kv_MemoryUsage s), s)) shards
      in ((sum_list (map fst rs), sum_list (map snd rs)), shards1))"

definition sh_Clear :: "call_env \<Rightarrow> KvStore list \<Rightarrow> KvStore list" where
  "sh_Clear ce shards = snd (submit_all (c_task ce) 0 (\<lambda>e s. ((), kv_Clear s)) shards)"

definition ShardCount :: "KvStore list \<Rightarrow> nat" where
  "ShardCount shards = length shards"

definition sharded_database :: "hash_function \<Rightarrow> call_env \<Rightarrow> KvStore list Database" where
  "sharded_database hash ce =
     \<lparr>db_Get = sh_Get hash ce, db_Set = sh_Set hash ce, db_MSet = sh_MSet hash ce, db_Delete = sh_Delete hash ce,
      db_Exists = sh_Exists hash ce, db_Expire = sh_Expire hash ce, db_TtlSeconds = sh_TtlSeconds hash ce,
      db_Increment = sh_Increment hash ce\<rparr>"

end
