(* ===== verification/Command_Executor.thy ===== *)
theory Command_Executor
  imports Database Resp_Value Metrics Unordered_Map
begin

text \<open>
  The command layer: src/include/cachefly/command/command_registry.h,
  src/src/command/command_registry.cpp, src/include/cachefly/command/command_executor.h and
  src/src/command/command_executor.cpp.

  \<open>database_\<close> is a family \<open>ops\<close> of interface records: \<open>ops i\<close> is the interface as the \<open>i\<close>-th call of
  one command sees it, with the clock readings of that call inside.  \<open>'d\<close> is the state of the
  database, \<open>'p\<close> that of the persistence layer behind the mutation callback and guard.
\<close>

subsection \<open>Registry\<close>

record 'd CommandSpec =
  name :: string
  minimum_arguments :: nat
  maximum_arguments :: "nat option"
  mutating :: bool
  handler :: "string list \<Rightarrow> 'd \<Rightarrow> Value \<times> 'd"

type_synonym 'd CommandRegistry = "'d CommandSpec umap"

text \<open>Nothing iterates over the registry, so the order of its map does not matter.\<close>

definition Register :: "'d CommandSpec \<Rightarrow> 'd CommandRegistry \<Rightarrow> std_exception + 'd CommandRegistry" where
  "Register command commands =
     (if um_find commands (name command) \<noteq> None
      then Inl (logic_error (''duplicate command registration: '' @ name command))
      else Inr (um_emplace (\<lambda>ks k. 0) (name command) command commands))"

definition Find :: "'d CommandRegistry \<Rightarrow> string \<Rightarrow> 'd CommandSpec option" where
  "Find commands uppercase_name = um_find commands uppercase_name"

definition registry_Size :: "'d CommandRegistry \<Rightarrow> nat" where
  "registry_Size commands = length commands"

subsection \<open>Helpers\<close>

definition upper_char :: "char \<Rightarrow> char" where
  "upper_char c =
     (if of_char (CHR ''a'') \<le> (of_char c :: nat) \<and> (of_char c :: nat) \<le> of_char (CHR ''z'')
      then char_of ((of_char c :: nat) - of_char (CHR ''a'') + of_char (CHR ''A'')) else c)"

definition Uppercase :: "string \<Rightarrow> string" where
  "Uppercase text = map upper_char text"

definition ArityError :: "string \<Rightarrow> Value" where
  "ArityError command = ErrorValue (''ERR wrong number of arguments for '' @ [CHR 0x27] @ command @ [CHR 0x27] @ '' command'')"

definition IntegerError :: Value where
  "IntegerError = ErrorValue ''ERR value is not an integer or out of range''"

definition WriteReply :: "WriteResult \<Rightarrow> Value" where
  "WriteReply result =
     (if result = kOk then SimpleString ''OK''
      else if result = kConditionFailed then Null
      else ErrorValue ''OOM command not allowed when used memory > maxmemory'')"

subsection \<open>Handlers\<close>

text \<open>The loop over the options of \<open>SET\<close>: \<open>Inl\<close> is the early return of an error reply.\<close>

fun set_options :: "SetRequest \<Rightarrow> string list \<Rightarrow> Value + SetRequest" where
  "set_options request [] = Inr request"
| "set_options request (arg # rest) =
     (let option = Uppercase arg
      in if (option = ''EX'' \<or> option = ''PX'') \<and> rest \<noteq> [] \<and> req_ttl request = None
         then (case ParseInteger (hd rest) of
                 None \<Rightarrow> Inl IntegerError
               | Some amount \<Rightarrow>
                   if amount \<le> 0 \<or> (option = ''EX'' \<and> amount > INT64_MAX div 1000) then Inl IntegerError
                   else set_options
                     (request\<lparr>req_ttl := Some (if option = ''EX'' then amount * 1000 else amount)\<rparr>) (tl rest))
         else if option = ''NX'' \<and> req_condition request = kNone
         then set_options (request\<lparr>req_condition := kIfAbsent\<rparr>) rest
         else if option = ''XX'' \<and> req_condition request = kNone
         then set_options (request\<lparr>req_condition := kIfPresent\<rparr>) rest
         else Inl (ErrorValue ''ERR syntax error''))"

definition exec_Set :: "(nat \<Rightarrow> 'd Database) \<Rightarrow> string list \<Rightarrow> 'd \<Rightarrow> Value \<times> 'd" where
  "exec_Set ops arguments d =
     (case set_options \<lparr>req_key = arguments ! 1, req_value = arguments ! 2, req_ttl = None, req_condition = kNone\<rparr>
             (drop 3 arguments) of
        Inl reply \<Rightarrow> (reply, d)
      | Inr request \<Rightarrow> (let (r, d') = db_Set (ops 0) request d in (WriteReply r, d')))"

definition exec_Del :: "(nat \<Rightarrow> 'd Database) \<Rightarrow> string list \<Rightarrow> 'd \<Rightarrow> Value \<times> 'd" where
  "exec_Del ops arguments d = (let (n, d') = db_Delete (ops 0) (tl arguments) d in (Integer n, d'))"

definition exec_Exists :: "(nat \<Rightarrow> 'd Database) \<Rightarrow> string list \<Rightarrow> 'd \<Rightarrow> Value \<times> 'd" where
  "exec_Exists ops arguments d = (let (n, d') = db_Exists (ops 0) (tl arguments) d in (Integer n, d'))"

definition bulk_or_null :: "string option \<Rightarrow> Value" where
  "bulk_or_null v = (case v of Some text \<Rightarrow> BulkString text | None \<Rightarrow> Null)"

fun mget_loop :: "(nat \<Rightarrow> 'd Database) \<Rightarrow> nat \<Rightarrow> string list \<Rightarrow> 'd \<Rightarrow> Value list \<times> 'd" where
  "mget_loop ops i [] d = ([], d)"
| "mget_loop ops i (key # keys) d =
     (let (v, d1) = db_Get (ops i) key d;
          (vs, d2) = mget_loop ops (Suc i) keys d1
      in (bulk_or_null v # vs, d2))"

definition exec_MGet :: "(nat \<Rightarrow> 'd Database) \<Rightarrow> string list \<Rightarrow> 'd \<Rightarrow> Value \<times> 'd" where
  "exec_MGet ops arguments d = (let (vs, d') = mget_loop ops 0 (tl arguments) d in (Array vs, d'))"

fun pairs :: "string list \<Rightarrow> (string \<times> string) list" where
  "pairs (k # v # rest) = (k, v) # pairs rest"
| "pairs _ = []"

definition exec_MSet :: "(nat \<Rightarrow> 'd Database) \<Rightarrow> string list \<Rightarrow> 'd \<Rightarrow> Value \<times> 'd" where
  "exec_MSet ops arguments d =
     (if length arguments mod 2 = 0 then (ArityError ''mset'', d)
      else (let (r, d') = db_MSet (ops 0) (pairs (tl arguments)) d in (WriteReply r, d')))"

definition exec_Ping :: "string list \<Rightarrow> 'd \<Rightarrow> Value \<times> 'd" where
  "exec_Ping arguments d = (if length arguments = 1 then SimpleString ''PONG'' else BulkString (arguments ! 1), d)"

definition exec_Echo :: "string list \<Rightarrow> 'd \<Rightarrow> Value \<times> 'd" where
  "exec_Echo arguments d = (BulkString (arguments ! 1), d)"

definition exec_Get :: "(nat \<Rightarrow> 'd Database) \<Rightarrow> string list \<Rightarrow> 'd \<Rightarrow> Value \<times> 'd" where
  "exec_Get ops arguments d = (let (v, d') = db_Get (ops 0) (arguments ! 1) d in (bulk_or_null v, d'))"

definition exec_Expire :: "(nat \<Rightarrow> 'd Database) \<Rightarrow> string list \<Rightarrow> 'd \<Rightarrow> Value \<times> 'd" where
  "exec_Expire ops arguments d =
     (case ParseInteger (arguments ! 2) of
        None \<Rightarrow> (IntegerError, d)
      | Some seconds \<Rightarrow>
          if seconds > INT64_MAX div 1000 then (IntegerError, d)
          else (let ttl = (if seconds \<le> 0 then 0 else seconds * 1000);
                    (b, d') = db_Expire (ops 0) (arguments ! 1) ttl d
                in (Integer (if b then 1 else 0), d')))"

definition exec_Ttl :: "(nat \<Rightarrow> 'd Database) \<Rightarrow> string list \<Rightarrow> 'd \<Rightarrow> Value \<times> 'd" where
  "exec_Ttl ops arguments d = (let (n, d') = db_TtlSeconds (ops 0) (arguments ! 1) d in (Integer n, d'))"

text \<open>\<open>INCR\<close> and \<open>DECR\<close> differ in the delta and the word of their memory error.\<close>

definition exec_Increment :: "int \<Rightarrow> string \<Rightarrow> (nat \<Rightarrow> 'd Database) \<Rightarrow> string list \<Rightarrow> 'd \<Rightarrow> Value \<times> 'd" where
  "exec_Increment delta oom ops arguments d =
     (let (result, d') = db_Increment (ops 0) (arguments ! 1) delta d
      in (if incr_status result = kIncrOk then Integer (incr_value result)
          else if incr_status result = kIncrNoMemory then ErrorValue oom
          else IntegerError, d'))"

subsection \<open>Registration\<close>

definition command_table :: "(nat \<Rightarrow> 'd Database) \<Rightarrow> 'd CommandSpec list" where
  "command_table ops =
     [\<lparr>name = ''PING'', minimum_arguments = 1, maximum_arguments = Some 2, mutating = False, handler = exec_Ping\<rparr>,
      \<lparr>name = ''ECHO'', minimum_arguments = 2, maximum_arguments = Some 2, mutating = False, handler = exec_Echo\<rparr>,
      \<lparr>name = ''GET'', minimum_arguments = 2, maximum_arguments = Some 2, mutating = False, handler = exec_Get ops\<rparr>,
      \<lparr>name = ''SET'', minimum_arguments = 3, maximum_arguments = None, mutating = True, handler = exec_Set ops\<rparr>,
      \<lparr>name = ''DEL'', minimum_arguments = 2, maximum_arguments = None, mutating = True, handler = exec_Del ops\<rparr>,
      \<lparr>name = ''EXISTS'', minimum_arguments = 2, maximum_arguments = None, mutating = False, handler = exec_Exists ops\<rparr>,
      \<lparr>name = ''EXPIRE'', minimum_arguments = 3, maximum_arguments = Some 3, mutating = True, handler = exec_Expire ops\<rparr>,
      \<lparr>name = ''TTL'', minimum_arguments = 2, maximum_arguments = Some 2, mutating = False, handler = exec_Ttl ops\<rparr>,
      \<lparr>name = ''MGET'', minimum_arguments = 2, maximum_arguments = None, mutating = False, handler = exec_MGet ops\<rparr>,
      \<lparr>name = ''MSET'', minimum_arguments = 3, maximum_arguments = None, mutating = True, handler = exec_MSet ops\<rparr>,
      \<lparr>name = ''INCR'', minimum_arguments = 2, maximum_arguments = Some 2, mutating = True,
         handler = exec_Increment 1 ''OOM increment failed'' ops\<rparr>,
      \<lparr>name = ''DECR'', minimum_arguments = 2, maximum_arguments = Some 2, mutating = True,
         handler = exec_Increment (-1) ''OOM decrement failed'' ops\<rparr>]"

fun register_all :: "'d CommandSpec list \<Rightarrow> 'd CommandRegistry \<Rightarrow> std_exception + 'd CommandRegistry" where
  "register_all [] commands = Inr commands"
| "register_all (c # cs) commands =
     (case Register c commands of Inl ex \<Rightarrow> Inl ex | Inr commands' \<Rightarrow> register_all cs commands')"

definition RegisterCommands :: "(nat \<Rightarrow> 'd Database) \<Rightarrow> std_exception + 'd CommandRegistry" where
  "RegisterCommands ops = register_all (command_table ops) []"

subsection \<open>Execute\<close>

record 'p MutationHooks =
  mutation_callback :: "(string list \<Rightarrow> 'p \<Rightarrow> (std_exception + unit) \<times> 'p) option"
  mutation_guard :: "('p \<Rightarrow> std_exception + unit) option"

definition is_error :: "Value \<Rightarrow> bool" where
  "is_error v = (case v of ErrorValue _ \<Rightarrow> True | _ \<Rightarrow> False)"

definition finish :: "uint64 \<Rightarrow> Value \<Rightarrow> Metrics option \<Rightarrow> Metrics option" where
  "finish elapsed v m = map_option (ObserveCommand elapsed (is_error v)) m"

definition guard_fails :: "'p MutationHooks \<Rightarrow> 'p \<Rightarrow> bool" where
  "guard_fails hooks p =
     (case mutation_guard hooks of None \<Rightarrow> False | Some g \<Rightarrow> (case g p of Inl _ \<Rightarrow> True | Inr _ \<Rightarrow> False))"

text \<open>
  \<open>elapsed\<close> is the measured duration in microseconds.  \<open>Inl\<close> is the exception of the mutation callback,
  which \<open>Execute\<close> lets through after the handler has run and before the command is observed.
\<close>

definition Execute ::
    "'d CommandRegistry \<Rightarrow> 'p MutationHooks \<Rightarrow> uint64 \<Rightarrow> string list \<Rightarrow> 'd \<Rightarrow> 'p \<Rightarrow> Metrics option \<Rightarrow>
     (std_exception + Value) \<times> 'd \<times> 'p \<times> Metrics option" where
  "Execute registry hooks elapsed arguments d p m =
     (if arguments = [] then (Inr (ErrorValue ''ERR empty command''), d, p, finish elapsed (ErrorValue ''ERR empty command'') m)
      else case Find registry (Uppercase (hd arguments)) of
        None \<Rightarrow>
          (let v = ErrorValue (''ERR unknown command '' @ [CHR 0x27] @ hd arguments @ [CHR 0x27])
           in (Inr v, d, p, finish elapsed v m))
      | Some command \<Rightarrow>
          if length arguments < minimum_arguments command \<or>
             (case maximum_arguments command of None \<Rightarrow> False | Some mx \<Rightarrow> length arguments > mx)
          then (Inr (ArityError (name command)), d, p, finish elapsed (ArityError (name command)) m)
          else if mutating command \<and> guard_fails hooks p
          then (let v = ErrorValue ''MISCONF persistence is unavailable'' in (Inr v, d, p, finish elapsed v m))
          else
            (let (response, d') = handler command arguments d
             in if mutating command \<and> \<not> is_error response \<and> response \<noteq> Null
                then (case mutation_callback hooks of
                        None \<Rightarrow> (Inr response, d', p, finish elapsed response m)
                      | Some callback \<Rightarrow>
                          (case callback arguments p of
                             (Inl ex, p') \<Rightarrow> (Inl ex, d', p', m)
                           | (Inr _, p') \<Rightarrow> (Inr response, d', p', finish elapsed response m)))
                else (Inr response, d', p, finish elapsed response m)))"

text \<open>The constructor: the registry an executor over \<open>ops\<close> holds.\<close>

definition executor_registry :: "(nat \<Rightarrow> 'd Database) \<Rightarrow> 'd CommandRegistry" where
  "executor_registry ops = (case RegisterCommands ops of Inr reg \<Rightarrow> reg | Inl _ \<Rightarrow> [])"

definition run_command ::
    "(nat \<Rightarrow> 'd Database) \<Rightarrow> 'p MutationHooks \<Rightarrow> uint64 \<Rightarrow> string list \<Rightarrow> 'd \<Rightarrow> 'p \<Rightarrow> Metrics option \<Rightarrow>
     (std_exception + Value) \<times> 'd \<times> 'p \<times> Metrics option" where
  "run_command ops hooks = Execute (executor_registry ops) hooks"

end
