(* ===== verification/Command_Theorems.thy ===== *)
theory Command_Theorems
  imports Command_Executor Database_Contract
begin

text \<open>
  Theorems about the command layer.  The registry and the option grammar of \<open>SET\<close> need nothing of the
  database; what the replies mean is proved once, inside \<open>database_contract\<close>, for every database that
  keeps the contract, and instantiated for the single store here.
\<close>

subsection \<open>Registry\<close>

lemma um_find_Nil: "um_find [] = Map.empty"
  by (rule ext) (simp add: um_find_def)

lemma Register_find:
  "um_find reg (name c) = None \<Longrightarrow> um_wf reg \<Longrightarrow>
    \<exists>reg'. Register c reg = Inr reg' \<and> um_wf reg' \<and> um_find reg' = (um_find reg)(name c \<mapsto> c) \<and>
      length reg' = Suc (length reg)"
  by (auto simp: Register_def um_emplace_def um_wf_insert) (auto simp: um_find_def)

lemma register_all_find:
  "um_wf reg \<Longrightarrow> distinct (map name cs) \<Longrightarrow> \<forall>c \<in> set cs. um_find reg (name c) = None \<Longrightarrow>
    \<exists>reg'. register_all cs reg = Inr reg' \<and> um_wf reg' \<and> length reg' = length cs + length reg \<and>
      um_find reg' = um_find reg ++ map_of (map (\<lambda>c. (name c, c)) cs)"
proof (induction cs arbitrary: reg)
  case Nil
  then show ?case by simp
next
  case (Cons c cs)
  then obtain reg1 where r: "Register c reg = Inr reg1" "um_wf reg1"
    "um_find reg1 = (um_find reg)(name c \<mapsto> c)" "length reg1 = Suc (length reg)"
    using Register_find [of reg c] by auto
  have "\<forall>c' \<in> set cs. um_find reg1 (name c') = None" using Cons.prems r(3) by auto (metis imageI)
  with Cons.IH [OF r(2)] Cons.prems(2) obtain reg' where
    reg': "register_all cs reg1 = Inr reg'" "um_wf reg'" "length reg' = length cs + length reg1"
      "um_find reg' = um_find reg1 ++ map_of (map (\<lambda>c. (name c, c)) cs)" by auto
  have "name c \<notin> dom (map_of (map (\<lambda>c. (name c, c)) cs))"
    using Cons.prems(2) by (simp add: dom_map_of_conv_image_fst image_image)
  then have "um_find reg' = um_find reg ++ map_of (map (\<lambda>c. (name c, c)) (c # cs))"
    using reg'(4) r(3) by (auto simp: fun_eq_iff map_add_def split: option.split)
  moreover have "register_all (c # cs) reg = Inr reg'" "length reg' = length (c # cs) + length reg"
    using r reg' by simp_all
  ultimately show ?case using reg'(2) by blast
qed

lemma executor_registry_find:
  "RegisterCommands ops = Inr (executor_registry ops)"
  "Find (executor_registry ops) n = map_of (map (\<lambda>c. (name c, c)) (command_table ops)) n"
  "registry_Size (executor_registry ops) = 12"
proof -
  have table: "distinct (map name (command_table ops))" "length (command_table ops) = 12"
    by (simp_all add: command_table_def)
  obtain reg where reg: "RegisterCommands ops = Inr reg" "length reg = 12"
      "um_find reg = map_of (map (\<lambda>c. (name c, c)) (command_table ops))"
    using register_all_find [of "[]" "command_table ops"] table
    by (auto simp: RegisterCommands_def um_wf_def um_find_Nil)
  then show "RegisterCommands ops = Inr (executor_registry ops)"
    "Find (executor_registry ops) n = map_of (map (\<lambda>c. (name c, c)) (command_table ops)) n"
    "registry_Size (executor_registry ops) = 12"
    by (simp_all add: executor_registry_def Find_def registry_Size_def)
qed

lemma registered: "Find (executor_registry ops) n = Some c \<Longrightarrow> c \<in> set (command_table ops) \<and> name c = n"
  unfolding executor_registry_find by (auto dest!: map_of_SomeD)

lemma registered_simps [simp]:
  "Find (executor_registry ops) ''GET'' = Some (command_table ops ! 2)"
  "Find (executor_registry ops) ''SET'' = Some (command_table ops ! 3)"
  unfolding executor_registry_find by (simp_all add: command_table_def)

subsection \<open>Case\<close>

lemma upper_char_idem [simp]: "upper_char (upper_char c) = upper_char c"
  by (auto simp: upper_char_def)

lemma Uppercase_idem [simp]: "Uppercase (Uppercase s) = Uppercase s"
  by (simp add: Uppercase_def)

subsection \<open>The option grammar of SET\<close>

datatype set_opt = Nx | Xx | Ex int | Px int

fun spelled :: "set_opt list \<Rightarrow> string list \<Rightarrow> bool" where
  "spelled [] args \<longleftrightarrow> args = []"
| "spelled (Nx # os) (a # args) \<longleftrightarrow> Uppercase a = ''NX'' \<and> spelled os args"
| "spelled (Xx # os) (a # args) \<longleftrightarrow> Uppercase a = ''XX'' \<and> spelled os args"
| "spelled (Ex n # os) (a # b # args) \<longleftrightarrow> Uppercase a = ''EX'' \<and> ParseInteger b = Some n \<and> spelled os args"
| "spelled (Px n # os) (a # b # args) \<longleftrightarrow> Uppercase a = ''PX'' \<and> ParseInteger b = Some n \<and> spelled os args"
| "spelled _ _ \<longleftrightarrow> False"

fun opt_conditions :: "set_opt list \<Rightarrow> SetCondition list" where
  "opt_conditions [] = []"
| "opt_conditions (Nx # os) = kIfAbsent # opt_conditions os"
| "opt_conditions (Xx # os) = kIfPresent # opt_conditions os"
| "opt_conditions (_ # os) = opt_conditions os"

fun opt_lifetimes :: "set_opt list \<Rightarrow> milliseconds list" where
  "opt_lifetimes [] = []"
| "opt_lifetimes (Ex n # os) = n * 1000 # opt_lifetimes os"
| "opt_lifetimes (Px n # os) = n # opt_lifetimes os"
| "opt_lifetimes (_ # os) = opt_lifetimes os"

text \<open>At most one condition and one lifetime, and the lifetime positive and within 64 bits.\<close>

definition legal_options :: "set_opt list \<Rightarrow> bool" where
  "legal_options os \<longleftrightarrow> length (opt_conditions os) \<le> 1 \<and> length (opt_lifetimes os) \<le> 1 \<and>
     (\<forall>ms \<in> set (opt_lifetimes os). 0 < ms \<and> ms \<le> INT64_MAX)"

definition requests :: "set_opt list \<Rightarrow> SetRequest \<Rightarrow> SetRequest" where
  "requests os r =
     r\<lparr>req_condition := (case opt_conditions os of [] \<Rightarrow> req_condition r | c # _ \<Rightarrow> c),
       req_ttl := (case opt_lifetimes os of [] \<Rightarrow> req_ttl r | ms # _ \<Rightarrow> Some ms)\<rparr>"

text \<open>What the loop accepts in the middle of the options.\<close>

definition acceptable :: "SetRequest \<Rightarrow> set_opt list \<Rightarrow> bool" where
  "acceptable r os \<longleftrightarrow>
     length (opt_conditions os) \<le> (if req_condition r = kNone then 1 else 0) \<and>
     length (opt_lifetimes os) \<le> (if req_ttl r = None then 1 else 0) \<and>
     (\<forall>ms \<in> set (opt_lifetimes os). 0 < ms \<and> ms \<le> INT64_MAX)"

lemma acceptable_simps [simp]:
  "acceptable r []"
  "acceptable r (Nx # os) \<longleftrightarrow> req_condition r = kNone \<and> acceptable (r\<lparr>req_condition := kIfAbsent\<rparr>) os"
  "acceptable r (Xx # os) \<longleftrightarrow> req_condition r = kNone \<and> acceptable (r\<lparr>req_condition := kIfPresent\<rparr>) os"
  "acceptable r (Ex n # os) \<longleftrightarrow> req_ttl r = None \<and> 0 < n \<and> n * 1000 \<le> INT64_MAX \<and>
     acceptable (r\<lparr>req_ttl := Some (n * 1000)\<rparr>) os"
  "acceptable r (Px n # os) \<longleftrightarrow> req_ttl r = None \<and> 0 < n \<and> n \<le> INT64_MAX \<and> acceptable (r\<lparr>req_ttl := Some n\<rparr>) os"
  by (auto simp: acceptable_def)

lemma requests_simps:
  "requests [] r = r"
  "acceptable r (Nx # os) \<Longrightarrow> requests (Nx # os) r = requests os (r\<lparr>req_condition := kIfAbsent\<rparr>)"
  "acceptable r (Xx # os) \<Longrightarrow> requests (Xx # os) r = requests os (r\<lparr>req_condition := kIfPresent\<rparr>)"
  "acceptable r (Ex n # os) \<Longrightarrow> requests (Ex n # os) r = requests os (r\<lparr>req_ttl := Some (n * 1000)\<rparr>)"
  "acceptable r (Px n # os) \<Longrightarrow> requests (Px n # os) r = requests os (r\<lparr>req_ttl := Some n\<rparr>)"
  by (auto simp: requests_def acceptable_def split: list.split if_splits)

lemma set_options_complete:
  "spelled os args \<Longrightarrow> acceptable r os \<Longrightarrow> set_options r args = Inr (requests os r)"
proof (induction os args arbitrary: r rule: spelled.induct)
  case (4 n os a b args)
  then show ?case by (auto simp: requests_simps INT64_MAX_def)
next
  case (5 n os a b args)
  then show ?case by (auto simp: requests_simps)
qed (auto simp: requests_simps)

lemma set_options_sound:
  "set_options r args = Inr r' \<Longrightarrow> \<exists>os. spelled os args \<and> acceptable r os"
proof (induction r args rule: set_options.induct)
  case (1 r)
  then show ?case by (intro exI [of _ "[]"]) simp
next
  case (2 r a rest)
  note IH = 2(1,2,3) [OF refl]
  consider (life) "(Uppercase a = ''EX'' \<or> Uppercase a = ''PX'') \<and> rest \<noteq> [] \<and> req_ttl r = None"
    | (nx) "Uppercase a = ''NX''" "req_condition r = kNone"
    | (xx) "Uppercase a = ''XX''" "req_condition r = kNone"
    using 2(4) by (auto simp: Let_def split: if_splits)
  then show ?case
  proof cases
    case life
    then obtain b args where rest: "rest = b # args" by (cases rest) auto
    obtain n where n: "ParseInteger b = Some n" "0 < n" "Uppercase a = ''EX'' \<Longrightarrow> n \<le> INT64_MAX div 1000"
      using 2(4) life rest by (auto simp: Let_def split: option.splits if_splits)
    have max: "n \<le> INT64_MAX" using ParseInteger_range [OF n(1)] by (simp add: in_int64_def)
    have "set_options (r\<lparr>req_ttl := Some (if Uppercase a = ''EX'' then n * 1000 else n)\<rparr>) args = Inr r'"
      using 2(4) life rest n by (auto simp: Let_def split: if_splits)
    with IH(1) [OF life, of n] n rest obtain os where os: "spelled os args"
      "acceptable (r\<lparr>req_ttl := Some (if Uppercase a = ''EX'' then n * 1000 else n)\<rparr>) os" by fastforce
    show ?thesis
    proof (cases "Uppercase a = ''EX''")
      case True
      with n os rest life show ?thesis by (intro exI [of _ "Ex n # os"]) (auto simp: INT64_MAX_def)
    next
      case False
      with n os rest life max show ?thesis by (intro exI [of _ "Px n # os"]) auto
    qed
  next
    case nx
    with 2(4) IH(2) obtain os where "spelled os rest" "acceptable (r\<lparr>req_condition := kIfAbsent\<rparr>) os" by auto
    with nx show ?thesis by (intro exI [of _ "Nx # os"]) simp
  next
    case xx
    with 2(4) IH(3) obtain os where "spelled os rest" "acceptable (r\<lparr>req_condition := kIfPresent\<rparr>) os" by auto
    with xx show ?thesis by (intro exI [of _ "Xx # os"]) simp
  qed
qed

lemma SET_option_keys:
  "set_options r args = Inr r' \<Longrightarrow> req_key r' = req_key r \<and> req_value r' = req_value r"
  by (induction r args rule: set_options.induct) (auto simp: Let_def split: if_splits option.splits)

lemma SET_option_ttl:
  "set_options r args = Inr r' \<Longrightarrow> req_ttl r' = Some ms \<Longrightarrow> req_ttl r = Some ms \<or> 0 < ms"
proof -
  assume ok: "set_options r args = Inr r'" and ttl: "req_ttl r' = Some ms"
  from set_options_sound [OF ok] obtain os where os: "spelled os args" "acceptable r os" by blast
  with set_options_complete [OF this] ok have "r' = requests os r" by simp
  with ttl os(2) show ?thesis by (auto simp: requests_def acceptable_def split: list.splits)
qed

text \<open>
  C27. \<open>SET\<close> accepts exactly the option lists made of at most one of NX and XX and at most one of EX
  and PX, in any order and any letter case, with a positive amount whose milliseconds fit in 64
  bits; it then asks the database for that condition and that lifetime.  Everything else is
  answered with an error before the database is touched.
\<close>

theorem SET_option_grammar:
  assumes "req_condition r = kNone" and "req_ttl r = None"
  shows "set_options r args = Inr r' \<longleftrightarrow> (\<exists>os. spelled os args \<and> legal_options os \<and> r' = requests os r)"
proof -
  have legal: "acceptable r os = legal_options os" for os
    using assms by (simp add: acceptable_def legal_options_def)
  show ?thesis
    using set_options_complete [of _ args r] set_options_sound [of r args r'] legal by fastforce
qed

theorem SET_option_grammar_witness:
  "set_options \<lparr>req_key = ''k'', req_value = ''v'', req_ttl = None, req_condition = kNone\<rparr> [''nx'', ''Ex'', ''10''] =
     Inr \<lparr>req_key = ''k'', req_value = ''v'', req_ttl = Some 10000, req_condition = kIfAbsent\<rparr>"
proof -
  let ?r = "\<lparr>req_key = ''k'', req_value = ''v'', req_ttl = None, req_condition = kNone\<rparr>"
  let ?r' = "\<lparr>req_key = ''k'', req_value = ''v'', req_ttl = Some 10000, req_condition = kIfAbsent\<rparr>"
  have "spelled [Nx, Ex 10] [''nx'', ''Ex'', ''10'']" "legal_options [Nx, Ex 10]" "?r' = requests [Nx, Ex 10] ?r"
    by code_simp+
  then have "\<exists>os. spelled os [''nx'', ''Ex'', ''10''] \<and> legal_options os \<and> ?r' = requests os ?r"
    by (intro exI [of _ "[Nx, Ex 10]"] conjI)
  then show ?thesis by (intro SET_option_grammar [THEN iffD2]) simp_all
qed

subsection \<open>What replies mean, for every database that keeps the contract\<close>

text \<open>
  The surroundings of the successive database calls of one command: each call ends before the next
  starts, and all end by \<open>T\<close>.
\<close>

definition envs_ok :: "('e \<Rightarrow> bool) \<Rightarrow> ('e \<Rightarrow> time_point) \<Rightarrow> ('e \<Rightarrow> time_point) \<Rightarrow> (nat \<Rightarrow> 'e) \<Rightarrow> time_point \<Rightarrow> bool" where
  "envs_ok valid starts ends es T \<longleftrightarrow>
     (\<forall>i. valid (es i) \<and> ends (es i) \<le> starts (es (Suc i)) \<and> ends (es i) \<le> T)"

lemma unchanged_mono: "unchanged contents u d d' \<Longrightarrow> u \<le> T \<Longrightarrow> unchanged contents T d d'"
  by (simp add: unchanged_def)

lemma unchanged_refl [simp]: "unchanged contents u d d"
  by (simp add: unchanged_def)

lemma unchanged_trans: "unchanged contents u d d1 \<Longrightarrow> unchanged contents u d1 d2 \<Longrightarrow> unchanged contents u d d2"
  by (simp add: unchanged_def)

lemma is_error_simps [simp]:
  "is_error (ErrorValue e)" "\<not> is_error (SimpleString x)" "\<not> is_error (Integer i)" "\<not> is_error (BulkString b)"
  "\<not> is_error (Array vs)" "\<not> is_error Null"
  by (simp_all add: is_error_def)

text \<open>A handler keeps the invariant, and changes nothing visible unless it is a mutation that succeeded.\<close>

definition harmless :: "('d \<Rightarrow> bool) \<Rightarrow> (time_point \<Rightarrow> 'd \<Rightarrow> kv_map) \<Rightarrow> time_point \<Rightarrow> bool \<Rightarrow> 'd \<Rightarrow> Value \<Rightarrow> 'd \<Rightarrow> bool" where
  "harmless keeps contents T mut d v d' \<longleftrightarrow>
     keeps d' \<and> (is_error v \<or> v = Null \<or> \<not> mut \<longrightarrow> unchanged contents T d d')"

definition wrong_arity :: "'d CommandSpec \<Rightarrow> string list \<Rightarrow> bool" where
  "wrong_arity c args \<longleftrightarrow> length args < minimum_arguments c \<or>
     (case maximum_arguments c of None \<Rightarrow> False | Some mx \<Rightarrow> length args > mx)"

text \<open>\<open>Execute\<close> once the command is found: a rejection, or the handler and what follows it.\<close>

lemma Execute_rejects:
  assumes "Find reg (Uppercase (hd args)) = Some c"
    and "args = [] \<or> wrong_arity c args \<or> mutating c \<and> guard_fails hooks p"
  shows "\<exists>e. Execute reg hooks elapsed args d p m = (Inr (ErrorValue e), d, p, finish elapsed (ErrorValue e) m)"
  using assms unfolding Execute_def wrong_arity_def [symmetric]
  by (cases "args = []"; cases "wrong_arity c args") (simp_all add: Let_def ArityError_def)

lemma Execute_runs:
  assumes "Find reg (Uppercase (hd args)) = Some c" and "args \<noteq> []" and "\<not> wrong_arity c args"
    and "\<not> (mutating c \<and> guard_fails hooks p)" and "handler c args d = (v, d')"
  shows "Execute reg hooks elapsed args d p m =
    (if mutating c \<and> \<not> is_error v \<and> v \<noteq> Null
     then (case mutation_callback hooks of
             None \<Rightarrow> (Inr v, d', p, finish elapsed v m)
           | Some callback \<Rightarrow>
               (case callback args p of
                  (Inl ex, p') \<Rightarrow> (Inl ex, d', p', m)
                | (Inr _, p') \<Rightarrow> (Inr v, d', p', finish elapsed v m)))
     else (Inr v, d', p, finish elapsed v m))"
  using assms unfolding Execute_def wrong_arity_def [symmetric] by auto

context database_contract
begin

lemma envs_okD:
  assumes "envs_ok valid starts ends es T"
  shows "valid (es i)" "ends (es i) \<le> T" "ends (es i) \<le> starts (es (Suc i))" "starts (es i) \<le> ends (es i)"
  using assms window by (auto simp: envs_ok_def)

lemma mget_contents:
  assumes "envs_ok valid starts ends es T" and "inv d"
    and "mget_loop (\<lambda>i. ops (es i)) n ks d = (vs, d')"
  shows "inv d' \<and> unchanged contents T d d' \<and>
    (\<exists>us. length us = length ks \<and> (\<forall>u \<in> set us. starts (es n) \<le> u \<and> u \<le> T) \<and>
       vs = map2 (\<lambda>k u. bulk_or_null (map_option fst (contents u d k))) ks us)"
  using assms(2,3)
proof (induction ks arbitrary: n d vs)
  case Nil
  then show ?case by simp
next
  case (Cons k ks)
  obtain v d1 where g: "db_Get (ops (es n)) k d = (v, d1)" by fastforce
  obtain ws where rec: "mget_loop (\<lambda>i. ops (es i)) (Suc n) ks d1 = (ws, d')" and vs: "vs = bulk_or_null v # ws"
    using Cons.prems(2) g by (auto split: prod.splits)
  note e = envs_okD [OF assms(1), of n]
  from Get_law [OF e(1) Cons.prems(1) g] obtain u where
    one: "inv d1" "unchanged contents (ends (es n)) d d1" "starts (es n) \<le> u" "u \<le> ends (es n)"
      "v = map_option fst (contents u d k)" by blast
  from Cons.IH [OF one(1) rec] obtain us where
    rest: "inv d'" "unchanged contents T d1 d'" "length us = length ks"
      "\<forall>u \<in> set us. starts (es (Suc n)) \<le> u \<and> u \<le> T"
      "ws = map2 (\<lambda>k u. bulk_or_null (map_option fst (contents u d1 k))) ks us" by blast
  have same: "contents w d1 = contents w d" if "w \<in> set us" for w
    using one(2) rest(4) e(3) that by (force simp: unchanged_def)
  have "ws = map2 (\<lambda>k u. bulk_or_null (map_option fst (contents u d k))) ks us"
    unfolding rest(5) by (rule map_cong) (auto simp: same dest: set_zip_rightD)
  moreover have "\<forall>w \<in> set (u # us). starts (es n) \<le> w \<and> w \<le> T"
    using rest(4) one(3,4) e(2-4) by fastforce
  moreover have "unchanged contents T d d'"
    using unchanged_trans [OF unchanged_mono [OF one(2) e(2)] rest(2)] .
  ultimately show ?case using rest(1,3) vs one(5) by (intro conjI exI [of _ "u # us"]) simp_all
qed

lemma Set_harmless:
  assumes "envs_ok valid starts ends es T" and "inv d" and "exec_Set (\<lambda>i. ops (es i)) args d = (v, d')"
  shows "harmless inv contents T True d v d'"
proof (cases "set_options \<lparr>req_key = args ! 1, req_value = args ! 2, req_ttl = None, req_condition = kNone\<rparr> (drop 3 args)")
  case (Inl reply)
  with assms show ?thesis by (simp add: exec_Set_def harmless_def)
next
  case (Inr req)
  obtain w d1 where st: "db_Set (ops (es 0)) req d = (w, d1)" by fastforce
  have v: "v = WriteReply w" "d' = d1" using assms(3) Inr st by (auto simp: exec_Set_def)
  show ?thesis
    using Set_law [OF envs_okD(1) [OF assms(1)] assms(2) st] v unchanged_mono [OF _ envs_okD(2) [OF assms(1)]]
    by (auto simp: harmless_def WriteReply_def split: if_splits)
qed

lemma MSet_harmless:
  assumes "envs_ok valid starts ends es T" and "inv d" and "exec_MSet (\<lambda>i. ops (es i)) args d = (v, d')"
  shows "harmless inv contents T True d v d'"
proof -
  obtain w d1 where st: "db_MSet (ops (es 0)) (pairs (tl args)) d = (w, d1)" by fastforce
  show ?thesis
    using MSet_law [OF envs_okD(1) [OF assms(1)] assms(2) st] assms(2,3) st
      unchanged_mono [OF _ envs_okD(2) [OF assms(1)]]
    by (auto simp: exec_MSet_def harmless_def WriteReply_def split: if_splits)
qed

lemma Increment_harmless:
  assumes "envs_ok valid starts ends es T" and "inv d"
    and "exec_Increment delta oom (\<lambda>i. ops (es i)) args d = (v, d')"
  shows "harmless inv contents T True d v d'"
proof -
  obtain r d1 where st: "db_Increment (ops (es 0)) (args ! 1) delta d = (r, d1)" by fastforce
  show ?thesis
    using Increment_law [OF envs_okD(1) [OF assms(1)] assms(2) st] assms(3) st
      unchanged_mono [OF _ envs_okD(2) [OF assms(1)]]
    by (auto simp: exec_Increment_def harmless_def split: if_splits)
qed

lemma Expire_harmless:
  assumes "envs_ok valid starts ends es T" and "inv d"
    and "exec_Expire (\<lambda>i. ops (es i)) args d = (v, d')"
  shows "harmless inv contents T True d v d'"
proof (cases "\<exists>seconds. ParseInteger (args ! 2) = Some seconds \<and> seconds \<le> INT64_MAX div 1000")
  case False
  with assms show ?thesis
    by (auto simp: exec_Expire_def harmless_def split: option.splits if_splits)
next
  case True
  then obtain seconds where sec: "ParseInteger (args ! 2) = Some seconds" "seconds \<le> INT64_MAX div 1000" by blast
  obtain b d1 where st: "db_Expire (ops (es 0)) (args ! 1) (if seconds \<le> 0 then 0 else seconds * 1000) d = (b, d1)"
    by fastforce
  from Expire_law [OF envs_okD(1) [OF assms(1)] assms(2) st] have "inv d1" by blast
  then show ?thesis using assms(3) sec st by (auto simp: exec_Expire_def harmless_def)
qed

lemma quiet_harmless:
  assumes "envs_ok valid starts ends es T" and "inv d'" and "unchanged contents (ends (es 0)) d d'"
  shows "harmless inv contents T mut d v d'"
  using assms(2) unchanged_mono [OF assms(3) envs_okD(2) [OF assms(1)]] by (simp add: harmless_def)

lemma read_harmless:
  assumes "envs_ok valid starts ends es T" and "inv d"
    and "exec_Get (\<lambda>i. ops (es i)) args d = (v, d') \<or> exec_Exists (\<lambda>i. ops (es i)) args d = (v, d') \<or>
      exec_Ttl (\<lambda>i. ops (es i)) args d = (v, d') \<or> exec_MGet (\<lambda>i. ops (es i)) args d = (v, d')"
  shows "harmless inv contents T mut d v d'"
  using assms(3)
proof (elim disjE)
  assume run: "exec_Get (\<lambda>i. ops (es i)) args d = (v, d')"
  then obtain x where st: "db_Get (ops (es 0)) (args ! 1) d = (x, d')"
    by (auto simp: exec_Get_def split: prod.splits)
  show ?thesis
    using Get_law [OF envs_okD(1) [OF assms(1)] assms(2) st] by (intro quiet_harmless [OF assms(1)]) simp_all
next
  assume run: "exec_Exists (\<lambda>i. ops (es i)) args d = (v, d')"
  then obtain x where st: "db_Exists (ops (es 0)) (tl args) d = (x, d')"
    by (auto simp: exec_Exists_def split: prod.splits)
  show ?thesis
    using Exists_law [OF envs_okD(1) [OF assms(1)] assms(2) st] by (intro quiet_harmless [OF assms(1)]) simp_all
next
  assume run: "exec_Ttl (\<lambda>i. ops (es i)) args d = (v, d')"
  then obtain x where st: "db_TtlSeconds (ops (es 0)) (args ! 1) d = (x, d')"
    by (auto simp: exec_Ttl_def split: prod.splits)
  show ?thesis
    using Ttl_law [OF envs_okD(1) [OF assms(1)] assms(2) st] by (intro quiet_harmless [OF assms(1)]) simp_all
next
  assume run: "exec_MGet (\<lambda>i. ops (es i)) args d = (v, d')"
  then obtain vs where "mget_loop (\<lambda>i. ops (es i)) 0 (tl args) d = (vs, d')"
    by (auto simp: exec_MGet_def split: prod.splits)
  from mget_contents [OF assms(1,2) this] show ?thesis by (simp add: harmless_def)
qed

lemma Del_harmless:
  assumes "envs_ok valid starts ends es T" and "inv d" and "exec_Del (\<lambda>i. ops (es i)) args d = (v, d')"
  shows "harmless inv contents T True d v d'"
  using assms(3) Delete_law [OF envs_okD(1) [OF assms(1)] assms(2)]
  by (auto simp: exec_Del_def harmless_def split: prod.splits)

lemma static_harmless:
  "inv d \<Longrightarrow> exec_Ping args d = (v, d') \<or> exec_Echo args d = (v, d') \<Longrightarrow> harmless inv contents T mut d v d'"
  by (auto simp: exec_Ping_def exec_Echo_def harmless_def)

lemma handler_harmless:
  assumes "envs_ok valid starts ends es T" and "inv d"
    and "c \<in> set (command_table (\<lambda>i. ops (es i)))" and "handler c args d = (v, d')"
  shows "harmless inv contents T (mutating c) d v d'"
proof -
  note law = Set_harmless [OF assms(1,2)] MSet_harmless [OF assms(1,2)] Increment_harmless [OF assms(1,2)]
    Expire_harmless [OF assms(1,2)] read_harmless [OF assms(1,2)] Del_harmless [OF assms(1,2)]
  show ?thesis
    using assms(3,4) unfolding command_table_def list.set insert_iff empty_iff
    by (elim disjE) (auto intro: law static_harmless [OF assms(2)])
qed

text \<open>
  Every execution either leaves the persistence state and the visible content alone, or runs a
  mutation that succeeded; then the callback, if there is one, is handed exactly its arguments.
\<close>

lemma run_command_effect:
  assumes "envs_ok valid starts ends es T" and "inv d"
    and "run_command (\<lambda>i. ops (es i)) hooks elapsed args d p m = (res, d', p', m')"
  shows "inv d' \<and>
    (p' = p \<and> unchanged contents T d d' \<and> (\<exists>v. res = Inr v) \<or>
     (\<exists>v. \<not> is_error v \<and> v \<noteq> Null \<and> \<not> guard_fails hooks p \<and>
       (case mutation_callback hooks of
          None \<Rightarrow> res = Inr v \<and> p' = p
        | Some callback \<Rightarrow> p' = snd (callback args p) \<and>
            res = (case fst (callback args p) of Inl ex \<Rightarrow> Inl ex | Inr _ \<Rightarrow> Inr v)))) \<and>
    m' = (case res of Inl _ \<Rightarrow> m | Inr v \<Rightarrow> map_option (ObserveCommand elapsed (is_error v)) m)"
proof (cases "Find (executor_registry (\<lambda>i. ops (es i))) (Uppercase (hd args))")
  case None
  with assms(2,3) show ?thesis
    by (auto simp: run_command_def Execute_def finish_def Let_def split: if_splits)
next
  case (Some c)
  show ?thesis
  proof (cases "args = [] \<or> wrong_arity c args \<or> mutating c \<and> guard_fails hooks p")
    case True
    with Execute_rejects [OF Some, where hooks = hooks and p = p and elapsed = elapsed and d = d and m = m] assms(2,3) show ?thesis
      by (auto simp: run_command_def finish_def)
  next
    case False
    obtain v d1 where h: "handler c args d = (v, d1)" by fastforce
    have hl: "harmless inv contents T (mutating c) d v d1"
      using handler_harmless [OF assms(1,2) _ h] registered [OF Some] by blast
    note run = Execute_runs [OF Some, where hooks = hooks and p = p and d = d and v = v and d' = d1 and elapsed = elapsed and m = m]
    show ?thesis
    proof (cases "mutating c \<and> \<not> is_error v \<and> v \<noteq> Null")
      case True
      with assms(3) run False h hl show ?thesis
        by (auto simp: run_command_def finish_def harmless_def split: option.splits sum.splits prod.splits)
    next
      case quiet: False
      then have "unchanged contents T d d1" using hl by (auto simp: harmless_def)
      with assms(3) run False h hl quiet show ?thesis
        by (auto simp: run_command_def finish_def harmless_def)
    qed
  qed
qed

text \<open>What \<open>GET\<close> returns some time after a successful \<open>SET\<close>.\<close>

lemma SET_then_GET:
  assumes "envs_ok valid starts ends es T" and "inv d" and "Uppercase (hd args) = ''SET''"
    and "set_options \<lparr>req_key = args ! 1, req_value = args ! 2, req_ttl = None, req_condition = kNone\<rparr> (drop 3 args) = Inr req"
    and "fst (run_command (\<lambda>i. ops (es i)) hooks elapsed args d p m) = Inr (SimpleString ''OK'')"
    and "d1 = fst (snd (run_command (\<lambda>i. ops (es i)) hooks elapsed args d p m))"
    and "envs_ok valid starts ends es2 T2" and "T \<le> starts (es2 0)"
    and "Uppercase c = ''GET''" and "req_key req = args ! 1" and "req_value req = args ! 2"
  shows "\<exists>u u2. starts (es 0) \<le> u \<and> u \<le> ends (es 0) \<and> starts (es2 0) \<le> u2 \<and> u2 \<le> ends (es2 0) \<and>
    fst (run_command (\<lambda>i. ops (es2 i)) hooks2 elapsed2 [c, args ! 1] d1 p2 m2) =
      Inr (if expired_at u2 (map_option (time_add_ms u) (req_ttl req)) then Null else BulkString (args ! 2))"
proof -
  note e = envs_okD [OF assms(1), of 0] and e2 = envs_okD [OF assms(7), of 0]
  obtain w dw where st: "db_Set (ops (es 0)) req d = (w, dw)" by fastforce
  have ne: "args \<noteq> []" using assms(5) by (auto simp: run_command_def Execute_def)
  have "w = kOk" "d1 = dw"
    using assms(3-6) ne st
    by (auto simp: run_command_def Execute_def command_table_def exec_Set_def WriteReply_def ArityError_def Let_def
        split: if_splits option.splits sum.splits prod.splits)
  with Set_law [OF e(1) assms(2) st] obtain u E where
    u: "inv d1" "starts (es 0) \<le> u" "u \<le> ends (es 0)"
      "\<And>t. ends (es 0) \<le> t \<Longrightarrow> contents t d1 = alive t (set_map u req (contents t d |` (- E)))" by blast
  obtain r d2 where g: "db_Get (ops (es2 0)) (args ! 1) d1 = (r, d2)" by fastforce
  from Get_law [OF e2(1) u(1) g] obtain u2 where
    u2: "starts (es2 0) \<le> u2" "u2 \<le> ends (es2 0)" "r = map_option fst (contents u2 d1 (args ! 1))" by blast
  have "ends (es 0) \<le> u2" using e(2) assms(8) u2(1) by simp
  then have "r = (if expired_at u2 (map_option (time_add_ms u) (req_ttl req)) then None else Some (args ! 2))"
    using u2(3) u(4) assms(10,11) by (simp add: set_map_def alive_def)
  moreover have "fst (run_command (\<lambda>i. ops (es2 i)) hooks2 elapsed2 [c, args ! 1] d1 p2 m2) = Inr (bulk_or_null r)"
    using assms(9) g
    by (simp add: run_command_def Execute_def command_table_def exec_Get_def)
  ultimately show ?thesis using u(2,3) u2(1,2) by (auto simp: bulk_or_null_def)
qed

end

end
