(* ===== verification/Sharded_Theorems.thy ===== *)
theory Sharded_Theorems
  imports Sharded_Database Command_Theorems
begin

text \<open>
  The sharded database keeps the database contract, with \<open>MSet\<close> atomic across shards; its shards
  share the memory limit exactly; and a stopping worker drains its queue.
\<close>

subsection \<open>Content\<close>

definition sh_view :: "hash_function \<Rightarrow> time_point \<Rightarrow> KvStore list \<Rightarrow> kv_map" where
  "sh_view hash t shards k = view t (shards ! ShardForKey hash shards k) k"

definition sh_wf :: "KvStore list \<Rightarrow> bool" where
  "sh_wf shards \<longleftrightarrow> shards \<noteq> [] \<and> (\<forall>s \<in> set shards. kv_wf s)"

text \<open>Expiry passes come before the clock reading of the task; a call's tasks follow one another.\<close>

definition task_valid :: "time_point \<Rightarrow> time_point \<Rightarrow> task_env \<Rightarrow> bool" where
  "task_valid a b te \<longleftrightarrow> kv_env_valid (kenv te) \<and> a \<le> env_now (kenv te) \<and> env_now2 (kenv te) \<le> b \<and>
     (\<forall>p \<in> set (passes te). p \<le> env_now (kenv te))"

definition call_valid :: "call_env \<Rightarrow> bool" where
  "call_valid ce \<longleftrightarrow> c_start ce \<le> c_end ce \<and>
     (\<forall>i. task_valid (c_start ce) (c_end ce) (c_task ce i) \<and>
        env_now2 (kenv (c_task ce i)) \<le> env_now (kenv (c_task ce (Suc i))))"

lemma ShardForKey_update [simp]: "ShardForKey hash (shards[i := s]) k = ShardForKey hash shards k"
  by (simp add: ShardForKey_def)

lemma ShardForKey_less [simp]: "shards \<noteq> [] \<Longrightarrow> ShardForKey hash shards k < length shards"
  by (simp add: ShardForKey_def)

lemma passes_spec:
  "kv_wf s \<Longrightarrow> \<forall>p \<in> set ps. p \<le> now \<Longrightarrow>
    kv_wf (fold expire_pass ps s) \<and> maxmemory (fold expire_pass ps s) = maxmemory s \<and>
    policy (fold expire_pass ps s) = policy s \<and>
    (\<forall>t \<ge> now. view t (fold expire_pass ps s) = view t s)"
proof (induction ps arbitrary: s)
  case Nil
  then show ?case by simp
next
  case (Cons p ps)
  obtain r s1 where run: "kv_ActiveExpire p 64 s = (r, s1)" by fastforce
  then have s1: "expire_pass p s = s1" by (simp add: expire_pass_def)
  note spec = kv_ActiveExpire_spec [OF Cons.prems(1) run]
  from spec have "kv_wf s1" by blast
  from Cons.IH [OF this] spec kv_ActiveExpire_view [OF Cons.prems(1) run] Cons.prems(2)
  show ?case by (simp add: s1)
qed

text \<open>
  \<open>answers\<close> describes a task on one store at its clock readings; the rule lifts it to the shard that
  \<open>Submit\<close> chooses and leaves every other shard alone.
\<close>

lemma Submit_single:
  assumes "sh_wf shards" and "task_valid a b te" and "i < length shards"
    and "Submit te i f shards = (r, shards')"
    and "\<And>s s'. kv_wf s \<Longrightarrow> f (kenv te) s = (r, s') \<Longrightarrow> kv_wf s' \<and> Q s s'"
  obtains s0 s' where "kv_wf s0" "kv_wf s'" "f (kenv te) s0 = (r, s')" "shards' = shards[i := s']"
    "sh_wf shards'" "Q s0 s'" "maxmemory s0 = maxmemory (shards ! i)"
    "\<And>t. env_now (kenv te) \<le> t \<Longrightarrow> view t s0 = view t (shards ! i)"
proof -
  let ?s0 = "fold expire_pass (passes te) (shards ! i)"
  have wf: "kv_wf (shards ! i)" using assms(1,3) by (simp add: sh_wf_def)
  have p: "\<forall>p \<in> set (passes te). p \<le> env_now (kenv te)" using assms(2) by (simp add: task_valid_def)
  note ps = passes_spec [OF wf p]
  obtain s' where s': "f (kenv te) ?s0 = (r, s')" "shards' = shards[i := s']"
    using assms(4) by (auto simp: Submit_def run_task_def split: prod.splits)
  with assms(5) ps have post: "kv_wf s'" "Q ?s0 s'" by blast+
  then have "sh_wf shards'"
    using assms(1) s'(2) by (auto simp: sh_wf_def dest: set_update_subset_insert [THEN subsetD])
  with ps s' post show thesis by (intro that [of ?s0 s']) auto
qed

lemma sh_view_update:
  assumes "i < length shards"
  shows "sh_view hash t (shards[i := s]) k = (if ShardForKey hash shards k = i then view t s k else sh_view hash t shards k)"
  using assms by (simp add: sh_view_def)

subsection \<open>Lifting the effect on one store\<close>

definition pointwise :: "(kv_map \<Rightarrow> kv_map) \<Rightarrow> bool" where
  "pointwise G \<longleftrightarrow> (\<forall>k m m'. m k = m' k \<longrightarrow> G m k = G m' k)"

lemma pointwiseD: "pointwise G \<Longrightarrow> m k = m' k \<Longrightarrow> G m k = G m' k"
  unfolding pointwise_def by blast

lemma pointwise_maps [simp]:
  "pointwise (set_map u req)" "pointwise (expire_map u k ttl found)" "pointwise (\<lambda>m. m)"
  "pointwise (\<lambda>m. m |` A)" "pointwise (mset_map kvs)"
  by (auto simp: pointwise_def set_map_def expire_map_def restrict_map_def mset_map_def map_add_def
      split: option.split)

lemma set_map_other:
  "ShardForKey hash d k \<noteq> ShardForKey hash d (req_key req) \<Longrightarrow> set_map u req m k = m k"
  by (auto simp: set_map_def)

lemma expire_map_other:
  "ShardForKey hash d j \<noteq> ShardForKey hash d k \<Longrightarrow> expire_map u k ttl found m j = m j"
  by (auto simp: expire_map_def split: option.split)

lemma alive_sh_view [simp]: "t \<le> u \<Longrightarrow> alive u (sh_view hash t shards) = sh_view hash u shards"
proof
  fix k assume "t \<le> u"
  then have "alive u (view t (shards ! ShardForKey hash shards k)) k = view u (shards ! ShardForKey hash shards k) k"
    by simp
  then show "alive u (sh_view hash t shards) k = sh_view hash u shards k"
    by (simp only: alive_def sh_view_def)
qed

lemma sh_view_lift:
  assumes "i < length shards" and "shards' = shards[i := s']" and "view t s0 = view t (shards ! i)"
    and "view t s' = alive t (G (view t s0 |` (- E)))" and "pointwise G"
    and "\<And>k m. ShardForKey hash shards k \<noteq> i \<Longrightarrow> G m k = m k"
  shows "sh_view hash t shards' = alive t (G (sh_view hash t shards |` (- {k \<in> E. ShardForKey hash shards k = i})))"
    (is "_ = alive t (G ?m)")
proof
  fix k
  show "sh_view hash t shards' k = alive t (G ?m) k"
  proof (cases "ShardForKey hash shards k = i")
    case True
    then have "(view t s0 |` (- E)) k = ?m k"
      using assms(3) by (simp add: restrict_map_def sh_view_def)
    then have "G (view t s0 |` (- E)) k = G ?m k" by (rule pointwiseD [OF assms(5)])
    with True assms(1,2,4) show ?thesis by (simp add: sh_view_update alive_def)
  next
    case False
    then have "G ?m k = sh_view hash t shards k" using assms(6) by (simp add: restrict_map_def)
    then have "alive t (G ?m) k = alive t (sh_view hash t shards) k" by (simp only: alive_def)
    with False assms(1,2) show ?thesis by (simp add: sh_view_update)
  qed
qed

lemma sh_view_quiet:
  assumes "i < length shards" and "shards' = shards[i := s']" and "view t s' = view t (shards ! i)"
  shows "sh_view hash t shards' = sh_view hash t shards"
proof
  fix k
  show "sh_view hash t shards' k = sh_view hash t shards k"
    unfolding assms(2) sh_view_update [OF assms(1)] assms(3) by (simp add: sh_view_def)
qed

lemma call_validD:
  assumes "call_valid ce"
  shows "task_valid (c_start ce) (c_end ce) (c_task ce i)" "c_start ce \<le> env_now (kenv (c_task ce i))"
    "env_now (kenv (c_task ce i)) \<le> env_now2 (kenv (c_task ce i))" "env_now2 (kenv (c_task ce i)) \<le> c_end ce"
    "env_now (kenv (c_task ce i)) \<le> c_end ce" "kv_env_valid (kenv (c_task ce i))"
    "env_now2 (kenv (c_task ce i)) \<le> env_now (kenv (c_task ce (Suc i)))"
proof -
  show tv: "task_valid (c_start ce) (c_end ce) (c_task ce i)"
    and "env_now2 (kenv (c_task ce i)) \<le> env_now (kenv (c_task ce (Suc i)))"
    using assms by (simp_all add: call_valid_def)
  then show "c_start ce \<le> env_now (kenv (c_task ce i))" "kv_env_valid (kenv (c_task ce i))"
    "env_now2 (kenv (c_task ce i)) \<le> c_end ce"
    by (simp_all add: task_valid_def)
  then show "env_now (kenv (c_task ce i)) \<le> env_now2 (kenv (c_task ce i))"
    "env_now (kenv (c_task ce i)) \<le> c_end ce"
    by (simp_all add: kv_env_valid_def)
qed

lemma sh_Get_law:
  assumes "call_valid ce" and "sh_wf d" and "sh_Get hash ce k d = (r, d')"
  shows "sh_wf d' \<and> unchanged (sh_view hash) (c_end ce) d d' \<and>
    (\<exists>u. c_start ce \<le> u \<and> u \<le> c_end ce \<and> r = map_option fst (sh_view hash u d k))"
proof -
  note c = call_validD [OF assms(1), of 0]
  let ?i = "ShardForKey hash d k" and ?now = "env_now (kenv (c_task ce 0))"
  have i: "?i < length d" using assms(2) by (simp add: sh_wf_def)
  obtain s0 s' where s: "kv_Get ?now k s0 = (r, s')" "d' = d[?i := s']" "sh_wf d'"
      "\<And>t. ?now \<le> t \<Longrightarrow> view t s0 = view t (d ! ?i)"
    using Submit_single [OF assms(2) c(1) i assms(3) [unfolded sh_Get_def], where Q = "\<lambda>s s'. True"] kv_Get_wf
    by metis
  note v = kv_Get_view [OF s(1)]
  have "sh_view hash t d' = sh_view hash t d" if "c_end ce \<le> t" for t
    by (rule sh_view_quiet [OF i s(2)]) (use v(2) s(4) c(5) that in auto)
  moreover have "r = map_option fst (sh_view hash ?now d k)"
    using v(1) s(4) [of ?now] by (simp add: sh_view_def)
  ultimately show ?thesis using s(3) c(2,5) unfolding unchanged_def by blast
qed

lemma sh_TtlSeconds_law:
  assumes "call_valid ce" and "sh_wf d" and "sh_TtlSeconds hash ce k d = (n, d')"
  shows "sh_wf d' \<and> unchanged (sh_view hash) (c_end ce) d d' \<and>
    (\<exists>u. c_start ce \<le> u \<and> u \<le> c_end ce \<and> n = ttl_of u (sh_view hash u d k))"
proof -
  note c = call_validD [OF assms(1), of 0]
  let ?i = "ShardForKey hash d k" and ?now = "env_now (kenv (c_task ce 0))"
  have i: "?i < length d" using assms(2) by (simp add: sh_wf_def)
  obtain s0 s' where s: "kv_TtlSeconds ?now k s0 = (n, s')" "d' = d[?i := s']" "sh_wf d'"
      "\<And>t. ?now \<le> t \<Longrightarrow> view t s0 = view t (d ! ?i)"
    using Submit_single [OF assms(2) c(1) i assms(3) [unfolded sh_TtlSeconds_def], where Q = "\<lambda>s s'. True"]
      kv_TtlSeconds_wf by metis
  note v = kv_TtlSeconds_view [OF s(1)]
  have "sh_view hash t d' = sh_view hash t d" if "c_end ce \<le> t" for t
    by (rule sh_view_quiet [OF i s(2)]) (use v(2) s(4) c(5) that in auto)
  moreover have "n = ttl_of ?now (sh_view hash ?now d k)"
    using v(1) s(4) [of ?now] by (simp add: sh_view_def ttl_of_def)
  ultimately show ?thesis using s(3) c(2,5) unfolding unchanged_def by blast
qed

lemma sh_Set_law:
  assumes "call_valid ce" and "sh_wf d" and "sh_Set hash ce req d = (w, d')"
  shows "sh_wf d' \<and> (w \<noteq> kOk \<longrightarrow> unchanged (sh_view hash) (c_end ce) d d') \<and>
    (\<exists>u. c_start ce \<le> u \<and> u \<le> c_end ce \<and>
       (w = kConditionFailed \<longleftrightarrow> set_refused (req_condition req) (sh_view hash u d (req_key req) \<noteq> None)) \<and>
       (w = kOk \<longrightarrow> (\<exists>E. req_key req \<notin> E \<and>
          (\<forall>t \<ge> c_end ce. sh_view hash t d' = alive t (set_map u req (sh_view hash t d |` (- E)))))))"
proof -
  note c = call_validD [OF assms(1), of 0]
  let ?i = "ShardForKey hash d (req_key req)" and ?now = "env_now (kenv (c_task ce 0))"
  have i: "?i < length d" using assms(2) by (simp add: sh_wf_def)
  obtain s0 s' where s: "kv_wf s0" "kv_Set ?now (env_map (kenv (c_task ce 0))) req s0 = (w, s')"
      "d' = d[?i := s']" "sh_wf d'" "\<And>t. ?now \<le> t \<Longrightarrow> view t s0 = view t (d ! ?i)"
    using Submit_single [OF assms(2) c(1) i assms(3) [unfolded sh_Set_def], where Q = "\<lambda>s s'. True"] kv_Set_wf
    by metis
  note v = kv_Set_view [OF s(1,2)]
  have "unchanged (sh_view hash) (c_end ce) d d'" if "w \<noteq> kOk"
    unfolding unchanged_def
    by (intro allI impI sh_view_quiet [OF i s(3)]) (use v s(5) c(5) that in auto)
  moreover have "w = kConditionFailed \<longleftrightarrow>
      set_refused (req_condition req) (sh_view hash ?now d (req_key req) \<noteq> None)"
    using v s(5) [of ?now] by (simp add: sh_view_def)
  moreover have "\<exists>E. req_key req \<notin> E \<and>
      (\<forall>t \<ge> c_end ce. sh_view hash t d' = alive t (set_map ?now req (sh_view hash t d |` (- E))))" if "w = kOk"
  proof -
    from v that obtain E where E: "req_key req \<notin> E"
      "\<And>t. ?now \<le> t \<Longrightarrow> view t s' = alive t (set_map ?now req (view t s0 |` (- E)))" by blast
    have "sh_view hash t d' = alive t (set_map ?now req (sh_view hash t d |` (- {k \<in> E. ShardForKey hash d k = ?i})))"
      if "c_end ce \<le> t" for t
      by (rule sh_view_lift [OF i s(3), where ?s0.0 = s0]) (use s(5) E(2) c(5) that in \<open>auto simp: set_map_other\<close>)
    with E(1) show ?thesis by (intro exI [of _ "{k \<in> E. ShardForKey hash d k = ?i}"]) simp
  qed
  ultimately show ?thesis using s(4) c(2,5) by blast
qed

lemma sh_Expire_law:
  assumes "call_valid ce" and "sh_wf d" and "sh_Expire hash ce k ttl d = (b, d')"
  shows "sh_wf d' \<and> (\<exists>u. c_start ce \<le> u \<and> u \<le> c_end ce \<and> b = (sh_view hash u d k \<noteq> None) \<and>
    (\<forall>t \<ge> c_end ce. sh_view hash t d' = alive t (expire_map u k ttl (sh_view hash u d k) (sh_view hash t d))))"
proof -
  note c = call_validD [OF assms(1), of 0]
  let ?i = "ShardForKey hash d k" and ?now = "env_now (kenv (c_task ce 0))"
  have i: "?i < length d" using assms(2) by (simp add: sh_wf_def)
  obtain s0 s' where s: "kv_Expire ?now k ttl s0 = (b, s')" "d' = d[?i := s']" "sh_wf d'"
      "\<And>t. ?now \<le> t \<Longrightarrow> view t s0 = view t (d ! ?i)"
    using Submit_single [OF assms(2) c(1) i assms(3) [unfolded sh_Expire_def], where Q = "\<lambda>s s'. True"]
      kv_Expire_wf by metis
  note v = kv_Expire_view [OF s(1)]
  have found: "view ?now s0 k = sh_view hash ?now d k" using s(4) [of ?now] by (simp add: sh_view_def)
  have "sh_view hash t d' = alive t (expire_map ?now k ttl (sh_view hash ?now d k) (sh_view hash t d))"
    if "c_end ce \<le> t" for t
  proof -
    have t: "?now \<le> t" using c(5) that by simp
    let ?G = "expire_map ?now k ttl (sh_view hash ?now d k)"
    have "view t s' = alive t (?G (view t s0))"
      by (rule alive_expire_map [OF t v(2) [OF t, unfolded found]])
    then have "view t s' = alive t (?G (view t s0 |` (- {})))" by simp
    from sh_view_lift [OF i s(2) s(4) [OF t] this pointwise_maps(2) expire_map_other]
    show ?thesis by simp
  qed
  moreover have "b = (sh_view hash ?now d k \<noteq> None)" using v(1) found by simp
  ultimately show ?thesis using s(3) c(2,5) by (intro conjI exI [of _ ?now]) simp_all
qed

lemma sh_Increment_law:
  assumes "call_valid ce" and "sh_wf d" and "sh_Increment hash ce k delta d = (r, d')"
  shows "sh_wf d' \<and> (incr_status r \<noteq> kIncrOk \<longrightarrow> unchanged (sh_view hash) (c_end ce) d d') \<and>
    (\<exists>u u2. c_start ce \<le> u \<and> u \<le> u2 \<and> u2 \<le> c_end ce \<and>
       (incr_status r = kNotInteger \<longleftrightarrow> integer_of (sh_view hash u d k) = None) \<and>
       (incr_status r = kOverflow \<longleftrightarrow>
          (\<exists>i. integer_of (sh_view hash u d k) = Some i \<and> increment_overflows i delta)) \<and>
       (incr_status r = kIncrOk \<longrightarrow> (\<exists>i E. integer_of (sh_view hash u d k) = Some i \<and>
          incr_value r = i + delta \<and> k \<notin> E \<and>
          (\<forall>t \<ge> c_end ce. sh_view hash t d' = alive t (set_map u2
             (increment_request u k (i + delta) (sh_view hash u d k)) (sh_view hash t d |` (- E)))))))"
proof -
  note c = call_validD [OF assms(1), of 0]
  let ?i = "ShardForKey hash d k" and ?e = "kenv (c_task ce 0)"
  have i: "?i < length d" using assms(2) by (simp add: sh_wf_def)
  obtain s0 s' where s: "kv_wf s0" "kv_Increment (env_now ?e) (env_now2 ?e) (env_map ?e) k delta s0 = (r, s')"
      "d' = d[?i := s']" "sh_wf d'" "\<And>t. env_now ?e \<le> t \<Longrightarrow> view t s0 = view t (d ! ?i)"
    using Submit_single [OF assms(2) c(1) i assms(3) [unfolded sh_Increment_def], where Q = "\<lambda>s s'. True"]
      kv_Increment_wf by metis
  note v = kv_Increment_view [OF s(1,2) c(3)]
  have found: "view (env_now ?e) s0 k = sh_view hash (env_now ?e) d k"
    using s(5) [of "env_now ?e"] by (simp add: sh_view_def)
  have quiet: "unchanged (sh_view hash) (c_end ce) d d'" if "incr_status r \<noteq> kIncrOk"
    unfolding unchanged_def
    by (intro allI impI sh_view_quiet [OF i s(3)]) (use v s(5) c(4,5) that in auto)
  have good: "\<exists>n E. integer_of (sh_view hash (env_now ?e) d k) = Some n \<and> incr_value r = n + delta \<and> k \<notin> E \<and>
      (\<forall>t \<ge> c_end ce. sh_view hash t d' = alive t (set_map (env_now2 ?e)
         (increment_request (env_now ?e) k (n + delta) (sh_view hash (env_now ?e) d k)) (sh_view hash t d |` (- E))))"
    if "incr_status r = kIncrOk"
  proof -
    from v that found obtain n E where n: "integer_of (sh_view hash (env_now ?e) d k) = Some n"
      "incr_value r = n + delta" "k \<notin> E"
      "\<And>t. env_now2 ?e \<le> t \<Longrightarrow> view t s' = alive t (set_map (env_now2 ?e)
         (increment_request (env_now ?e) k (n + delta) (sh_view hash (env_now ?e) d k)) (view t s0 |` (- E)))"
      by auto
    let ?req = "increment_request (env_now ?e) k (n + delta) (sh_view hash (env_now ?e) d k)"
    let ?E = "{j \<in> E. ShardForKey hash d j = ?i}"
    have key: "req_key ?req = k" by (simp add: increment_request_def)
    have "sh_view hash t d' = alive t (set_map (env_now2 ?e) ?req (sh_view hash t d |` (- ?E)))"
      if "c_end ce \<le> t" for t
    proof (rule sh_view_lift [OF i s(3), where ?s0.0 = s0])
      show "view t s0 = view t (d ! ?i)" using s(5) c(5) that by simp
      show "view t s' = alive t (set_map (env_now2 ?e) ?req (view t s0 |` (- E)))" using n(4) c(4) that by simp
    qed (use set_map_other [of hash d _ ?req] key in auto)
    with n(1-3) show ?thesis by (intro exI [of _ n] exI [of _ ?E]) simp
  qed
  have no: "incr_status r = kNotInteger \<longleftrightarrow> integer_of (sh_view hash (env_now ?e) d k) = None"
    and over: "incr_status r = kOverflow \<longleftrightarrow>
       (\<exists>i. integer_of (sh_view hash (env_now ?e) d k) = Some i \<and> increment_overflows i delta)"
    using v found by simp_all
  show ?thesis
    by (rule conjI [OF s(4)], rule conjI, rule impI, erule quiet, rule exI [of _ "env_now ?e"],
        rule exI [of _ "env_now2 ?e"])
      (intro conjI c(2,3,4) no over impI good)
qed

subsection \<open>Loops over keys\<close>

lemma length_Submit: "Submit te i f d = (r, d') \<Longrightarrow> length d' = length d"
  by (auto simp: Submit_def split: prod.splits)

lemma ShardForKey_length: "length d' = length d \<Longrightarrow> ShardForKey hash d' = ShardForKey hash d"
  by (rule ext) (simp add: ShardForKey_def)

lemma Submit_Delete:
  assumes "call_valid ce" and "sh_wf d"
    and "Submit (c_task ce n) (ShardForKey hash d k) (\<lambda>e. kv_Delete (env_now e) [k]) d = (r, d')"
  shows "sh_wf d' \<and> r = (if sh_view hash (env_now (kenv (c_task ce n))) d k \<noteq> None then 1 else 0) \<and>
    (\<forall>t \<ge> env_now (kenv (c_task ce n)). sh_view hash t d' = sh_view hash t d |` (- {k}))"
proof -
  note c = call_validD [OF assms(1), of n]
  let ?i = "ShardForKey hash d k" and ?now = "env_now (kenv (c_task ce n))"
  have i: "?i < length d" using assms(2) by (simp add: sh_wf_def)
  obtain s0 s' where s: "kv_Delete ?now [k] s0 = (r, s')" "d' = d[?i := s']" "sh_wf d'"
      "\<And>t. ?now \<le> t \<Longrightarrow> view t s0 = view t (d ! ?i)"
    using Submit_single [OF assms(2) c(1) i assms(3), where Q = "\<lambda>s s'. True"] kv_Delete_wf by metis
  note v = kv_Delete_view [OF s(1)]
  have found: "view ?now s0 k = sh_view hash ?now d k" using s(4) [of ?now] by (simp add: sh_view_def)
  have "{j \<in> set [k]. view ?now s0 j \<noteq> None} = (if sh_view hash ?now d k \<noteq> None then {k} else {})"
    using found by auto
  with v have "r = (if sh_view hash ?now d k \<noteq> None then 1 else 0)" by simp
  moreover have "sh_view hash t d' = sh_view hash t d |` (- {k})" if "?now \<le> t" for t
  proof
    fix j
    show "sh_view hash t d' j = (sh_view hash t d |` (- {k})) j"
      unfolding s(2) sh_view_update [OF i] using v s(4) [OF that] that
      by (cases "j = k") (auto simp: sh_view_def restrict_map_def)
  qed
  ultimately show ?thesis using s(3) by blast
qed

lemma sh_Delete_loop_law:
  assumes "call_valid ce" and "sh_wf d" and "sh_Delete_loop hash (c_task ce) n ks d = (r, d')"
  shows "sh_wf d' \<and> (\<forall>t \<ge> c_end ce. sh_view hash t d' = sh_view hash t d |` (- set ks)) \<and>
    (\<exists>at. (\<forall>k. env_now (kenv (c_task ce n)) \<le> at k \<and> at k \<le> c_end ce) \<and>
       r = int (card {k \<in> set ks. sh_view hash (at k) d k \<noteq> None}))"
  using assms(2,3)
proof (induction ks arbitrary: n d r)
  case Nil
  then show ?case using call_validD(5) [OF assms(1)] by auto
next
  case (Cons k ks)
  note c = call_validD [OF assms(1), of n]
  let ?now = "env_now (kenv (c_task ce n))"
  obtain r1 d1 where one: "Submit (c_task ce n) (ShardForKey hash d k) (\<lambda>e. kv_Delete (env_now e) [k]) d = (r1, d1)"
    by fastforce
  obtain r2 where rec: "sh_Delete_loop hash (c_task ce) (Suc n) ks d1 = (r2, d')" and r: "r = r1 + r2"
    using Cons.prems(2) one by (auto split: prod.splits)
  note v = Submit_Delete [OF assms(1) Cons.prems(1) one]
  from v have "sh_wf d1" by blast
  from Cons.IH [OF this rec] obtain at where at: "sh_wf d'"
    "\<And>t. c_end ce \<le> t \<Longrightarrow> sh_view hash t d' = sh_view hash t d1 |` (- set ks)"
    "\<And>k. env_now (kenv (c_task ce (Suc n))) \<le> at k \<and> at k \<le> c_end ce"
    "r2 = int (card {k \<in> set ks. sh_view hash (at k) d1 k \<noteq> None})" by blast
  have late: "?now \<le> at j" for j using at(3) [of j] c(3,7) by simp
  have d1: "sh_view hash (at j) d1 j = (sh_view hash (at j) d |` (- {k})) j" for j
    using v late [of j] by simp
  let ?at = "at(k := ?now)"
  have "{j \<in> set ks. sh_view hash (at j) d1 j \<noteq> None} = {j \<in> set ks - {k}. sh_view hash (at j) d j \<noteq> None}"
    unfolding d1 by (auto simp: restrict_map_def split: if_splits)
  moreover have "{j \<in> set (k # ks). sh_view hash (?at j) d j \<noteq> None} =
      {j \<in> set ks - {k}. sh_view hash (at j) d j \<noteq> None} \<union> (if sh_view hash ?now d k \<noteq> None then {k} else {})"
    by auto
  moreover have "card ({j \<in> set ks - {k}. sh_view hash (at j) d j \<noteq> None} \<union>
      (if sh_view hash ?now d k \<noteq> None then {k} else {})) =
      card {j \<in> set ks - {k}. sh_view hash (at j) d j \<noteq> None} + (if sh_view hash ?now d k \<noteq> None then 1 else 0)"
    by simp
  ultimately have "r = int (card {j \<in> set (k # ks). sh_view hash (?at j) d j \<noteq> None})"
    using r at(4) v by simp
  moreover have "\<forall>j. ?now \<le> ?at j \<and> ?at j \<le> c_end ce" using late at(3) c(5) by simp
  moreover have "sh_view hash t d' = sh_view hash t d |` (- set (k # ks))" if "c_end ce \<le> t" for t
    using at(2) [OF that] v c(5) that by (simp add: restrict_map_def fun_eq_iff)
  ultimately show ?case using at(1) by blast
qed

lemma Submit_Exists:
  assumes "call_valid ce" and "sh_wf d"
    and "Submit (c_task ce n) (ShardForKey hash d k) (\<lambda>e. kv_Exists (env_now e) [k]) d = (r, d')"
  shows "sh_wf d' \<and> r = (if sh_view hash (env_now (kenv (c_task ce n))) d k \<noteq> None then 1 else 0) \<and>
    (\<forall>t \<ge> env_now (kenv (c_task ce n)). sh_view hash t d' = sh_view hash t d)"
proof -
  note c = call_validD [OF assms(1), of n]
  let ?i = "ShardForKey hash d k" and ?now = "env_now (kenv (c_task ce n))"
  have i: "?i < length d" using assms(2) by (simp add: sh_wf_def)
  obtain s0 s' where s: "kv_Exists ?now [k] s0 = (r, s')" "d' = d[?i := s']" "sh_wf d'"
      "\<And>t. ?now \<le> t \<Longrightarrow> view t s0 = view t (d ! ?i)"
    using Submit_single [OF assms(2) c(1) i assms(3), where Q = "\<lambda>s s'. True"] kv_Exists_wf by metis
  note v = kv_Exists_view [OF s(1)]
  have "sh_view hash t d' = sh_view hash t d" if "?now \<le> t" for t
    by (rule sh_view_quiet [OF i s(2)]) (use v s(4) that in auto)
  moreover have "view ?now s0 k = sh_view hash ?now d k" using s(4) [of ?now] by (simp add: sh_view_def)
  ultimately show ?thesis using v s(3) by simp
qed

lemma sh_Exists_loop_law:
  assumes "call_valid ce" and "sh_wf d" and "sh_Exists_loop hash (c_task ce) n ks d = (r, d')"
  shows "sh_wf d' \<and> (\<forall>t \<ge> c_end ce. sh_view hash t d' = sh_view hash t d) \<and>
    (\<exists>us. length us = length ks \<and> (\<forall>u \<in> set us. env_now (kenv (c_task ce n)) \<le> u \<and> u \<le> c_end ce) \<and>
       r = int (length (filter (\<lambda>(k, u). sh_view hash u d k \<noteq> None) (zip ks us))))"
  using assms(2,3)
proof (induction ks arbitrary: n d r)
  case Nil
  then show ?case by simp
next
  case (Cons k ks)
  note c = call_validD [OF assms(1), of n]
  let ?now = "env_now (kenv (c_task ce n))"
  obtain r1 d1 where one: "Submit (c_task ce n) (ShardForKey hash d k) (\<lambda>e. kv_Exists (env_now e) [k]) d = (r1, d1)"
    by fastforce
  obtain r2 where rec: "sh_Exists_loop hash (c_task ce) (Suc n) ks d1 = (r2, d')" and r: "r = r1 + r2"
    using Cons.prems(2) one by (auto split: prod.splits)
  note v = Submit_Exists [OF assms(1) Cons.prems(1) one]
  from v have "sh_wf d1" by blast
  from Cons.IH [OF this rec] obtain us where us: "sh_wf d'"
    "\<And>t. c_end ce \<le> t \<Longrightarrow> sh_view hash t d' = sh_view hash t d1"
    "length us = length ks" "\<And>u. u \<in> set us \<Longrightarrow> env_now (kenv (c_task ce (Suc n))) \<le> u \<and> u \<le> c_end ce"
    "r2 = int (length (filter (\<lambda>(k, u). sh_view hash u d1 k \<noteq> None) (zip ks us)))" by blast
  have late: "?now \<le> u" if "u \<in> set us" for u using us(4) [OF that] c(3,7) by simp
  have "filter (\<lambda>(k, u). sh_view hash u d1 k \<noteq> None) (zip ks us) =
      filter (\<lambda>(k, u). sh_view hash u d k \<noteq> None) (zip ks us)"
    using v late by (intro filter_cong) (auto dest: set_zip_rightD)
  with us(5) r v have "r = int (length (filter (\<lambda>(k, u). sh_view hash u d k \<noteq> None) (zip (k # ks) (?now # us))))"
    by simp
  moreover have "\<forall>u \<in> set (?now # us). ?now \<le> u \<and> u \<le> c_end ce" using late us(4) c(5) by simp
  moreover have "\<forall>t \<ge> c_end ce. sh_view hash t d' = sh_view hash t d" using us(2) v c(5) by simp
  ultimately show ?case using us(1,3) by (intro conjI exI [of _ "?now # us"]) simp_all
qed

subsection \<open>MSet across shards\<close>

lemma copy_store_view: "kv_wf s \<Longrightarrow> copy_store e s = (c, s') \<Longrightarrow> kv_wf s' \<and> s' = s \<and> kv_wf c \<and> (\<forall>t. view t c = view t s) \<and>
    maxmemory c = maxmemory s"
  using word_bytes_mset [of "um_copy (env_copy e) (entries s)" "entries s"]
  by (auto simp: copy_store_def kv_wf_def fun_eq_iff view_apply um_copy_def)

text \<open>Taking checkpoints changes nothing visible, and the copies show what the shards show.\<close>

lemma take_checkpoints_law:
  assumes "call_valid ce" and "sh_wf d" and "\<forall>i \<in> set is. i < length d"
    and "take_checkpoints (c_task ce) n is d = (copies, m, d')"
  shows "sh_wf d' \<and> length d' = length d \<and> map fst copies = is \<and>
    (\<forall>t \<ge> c_end ce. \<forall>i < length d. view t (d' ! i) = view t (d ! i)) \<and>
    (\<forall>(i, c) \<in> set copies. kv_wf c \<and> (\<forall>t \<ge> c_end ce. view t c = view t (d ! i)))"
  using assms(2-4)
proof (induction "is" arbitrary: n d copies)
  case Nil
  then show ?case by simp
next
  case (Cons i "is")
  note tv = call_validD [OF assms(1), of n]
  obtain c d1 where one: "Submit (c_task ce n) i copy_store d = (c, d1)" by fastforce
  obtain rest where rec: "take_checkpoints (c_task ce) (Suc n) is d1 = (rest, m, d')" and cs: "copies = (i, c) # rest"
    using Cons.prems(3) one by (auto split: prod.splits)
  have i: "i < length d" using Cons.prems(2) by simp
  obtain s0 s' where s: "d1 = d[i := s']" "sh_wf d1" "s' = s0 \<and> kv_wf c \<and> (\<forall>t. view t c = view t s0)"
      "\<And>t. env_now (kenv (c_task ce n)) \<le> t \<Longrightarrow> view t s0 = view t (d ! i)"
  proof (rule Submit_single [OF Cons.prems(1) tv(1) i one, where Q = "\<lambda>s s'. s' = s \<and> kv_wf c \<and> (\<forall>t. view t c = view t s)"])
    show "kv_wf s' \<and> s' = s \<and> kv_wf c \<and> (\<forall>t. view t c = view t s)"
      if "kv_wf s" "copy_store (kenv (c_task ce n)) s = (c, s')" for s s'
      using copy_store_view [OF that] by blast
  qed blast
  have len: "length d1 = length d" by (simp add: s(1))
  have same: "view t (d1 ! j) = view t (d ! j)" if "c_end ce \<le> t" "j < length d" for t j
    using s(1,3) s(4) [of t] tv(5) that by (cases "j = i") simp_all
  note IH = Cons.IH [OF s(2) _ rec]
  have "\<forall>j \<in> set is. j < length d1" using Cons.prems(2) len by simp
  note IH = IH [OF this]
  have "\<forall>(j, k) \<in> set copies. kv_wf k \<and> (\<forall>t \<ge> c_end ce. view t k = view t (d ! j))"
  proof (clarify)
    fix j k assume jk: "(j, k) \<in> set copies"
    show "kv_wf k \<and> (\<forall>t \<ge> c_end ce. view t k = view t (d ! j))"
    proof (cases "(j, k) \<in> set rest")
      case True
      then have "j \<in> set is" using IH by force
      then have "j < length d" using Cons.prems(2) by simp
      with IH True same show ?thesis by fastforce
    next
      case False
      with jk cs have "j = i" "k = c" by simp_all
      with s(3,4) tv(5) show ?thesis by simp
    qed
  qed
  with IH len same cs show ?case by simp
qed

lemma rollback_law:
  assumes "call_valid ce" and "sh_wf d" and "distinct (map fst copies)"
    and "\<forall>(i, c) \<in> set copies. i < length d \<and> kv_wf c"
  shows "sh_wf (rollback (c_task ce) n copies d) \<and> length (rollback (c_task ce) n copies d) = length d \<and>
    (\<forall>t. \<forall>i < length d. view t (rollback (c_task ce) n copies d ! i) =
       (case map_of copies i of None \<Rightarrow> view t (d ! i) | Some c \<Rightarrow> view t c))"
  using assms(2-4)
proof (induction copies arbitrary: n d)
  case Nil
  then show ?case by simp
next
  case (Cons p copies)
  obtain i c where p: "p = (i, c)" by fastforce
  obtain d1 where one: "Submit (c_task ce n) i (restore_store c) d = ((), d1)" by (metis (full_types) surj_pair unit.exhaust)
  have ic: "i < length d" "kv_wf c" using Cons.prems(3) p by simp_all
  have rs: "kv_wf s' \<and> (\<forall>t. view t s' = view t c)" if "restore_store c e s = (r, s')" for e s r s'
    using that ic(2) by (auto simp: restore_store_def kv_wf_def fun_eq_iff view_apply)
  obtain s' where s: "d1 = d[i := s']" "sh_wf d1" "\<And>t. view t s' = view t c"
    using Submit_single [OF Cons.prems(1) call_validD(1) [OF assms(1)] ic(1) one, where Q = "\<lambda>s s'. \<forall>t. view t s' = view t c"]
      rs by metis
  have fresh: "map_of copies i = None" using Cons.prems(2) p by (simp add: map_of_eq_None_iff)
  have "\<forall>(i, c) \<in> set copies. i < length d1 \<and> kv_wf c" using Cons.prems(3) s(1) by auto
  from Cons.IH [OF s(2) _ this, of "Suc n"] Cons.prems(2)
  have IH: "sh_wf (rollback (c_task ce) (Suc n) copies d1)" "length (rollback (c_task ce) (Suc n) copies d1) = length d"
    "\<And>t j. j < length d \<Longrightarrow> view t (rollback (c_task ce) (Suc n) copies d1 ! j) =
       (case map_of copies j of None \<Rightarrow> view t (d1 ! j) | Some c \<Rightarrow> view t c)"
    by (simp_all add: s(1))
  have "rollback (c_task ce) n (p # copies) d = rollback (c_task ce) (Suc n) copies d1"
    using one by (simp add: p)
  moreover have "view t (rollback (c_task ce) (Suc n) copies d1 ! j) =
      (case map_of (p # copies) j of None \<Rightarrow> view t (d ! j) | Some c \<Rightarrow> view t c)" if "j < length d" for t j
    using IH(3) [OF that, of t] s(3) [of t] fresh that
    by (cases "j = i") (simp_all add: p s(1) split: option.split)
  ultimately show ?case using IH(1,2) by simp
qed

lemma mset_apply_law:
  assumes "call_valid ce" and "sh_wf d" and "distinct is" and "\<forall>i \<in> set is. i < length d"
    and "mset_apply (c_task ce) n groups is d = (res, d')"
  shows "sh_wf d' \<and> length d' = length d \<and> (\<forall>i < length d. i \<notin> set is \<longrightarrow> d' ! i = d ! i) \<and>
    (\<forall>w m. res = Inl (w, m) \<longrightarrow> w = kNoMemory) \<and>
    (res = Inr () \<longrightarrow> (\<forall>i \<in> set is. \<exists>E. fst ` set (groups ! i) \<inter> E = {} \<and>
       (\<forall>t \<ge> c_end ce. view t (d' ! i) = mset_map (groups ! i) (view t (d ! i) |` (- E)))))"
  using assms(2-5)
proof (induction "is" arbitrary: n d)
  case Nil
  then show ?case by auto
next
  case (Cons i "is")
  note tv = call_validD [OF assms(1), of n]
  let ?f = "\<lambda>e. kv_MSet (env_copy e) (env_updates e) (env_map e) (groups ! i)"
  obtain w d1 where one: "Submit (c_task ce n) i ?f d = (w, d1)" by fastforce
  have i: "i < length d" "i \<notin> set is" using Cons.prems(2,3) by simp_all
  obtain s0 s' where s: "kv_wf s0" "?f (kenv (c_task ce n)) s0 = (w, s')" "d1 = d[i := s']" "sh_wf d1"
      "\<And>t. env_now (kenv (c_task ce n)) \<le> t \<Longrightarrow> view t s0 = view t (d ! i)"
    using Submit_single [OF Cons.prems(1) tv(1) i(1) one, where Q = "\<lambda>s s'. True"] kv_MSet_wf by metis
  note v = kv_MSet_view [OF s(1,2)]
  show ?case
  proof (cases "w = kOk")
    case False
    with Cons.prems(4) one have "res = Inl (w, Suc n)" "d' = d1" by simp_all
    with False v s(3,4) show ?thesis by auto
  next
    case True
    with Cons.prems(4) one have rec: "mset_apply (c_task ce) (Suc n) groups is d1 = (res, d')" by simp
    have len: "length d1 = length d" and other: "\<And>j. j \<noteq> i \<Longrightarrow> d1 ! j = d ! j" by (simp_all add: s(3))
    have "distinct is" "\<forall>j \<in> set is. j < length d1" using Cons.prems(2,3) len by simp_all
    note IH = Cons.IH [OF s(4) this rec]
    from True v obtain E where E: "fst ` set (groups ! i) \<inter> E = {}"
      "\<And>t. view t s' = mset_map (groups ! i) (view t s0 |` (- E))" by (auto simp: mset_map_def)
    have "d' ! i = s'" using IH i s(3) len by simp
    then have mine: "\<exists>E. fst ` set (groups ! i) \<inter> E = {} \<and>
        (\<forall>t \<ge> c_end ce. view t (d' ! i) = mset_map (groups ! i) (view t (d ! i) |` (- E)))"
      using E s(5) tv(5) by (intro exI [of _ E]) simp
    have "\<forall>j \<in> set (i # is). \<exists>E. fst ` set (groups ! j) \<inter> E = {} \<and>
        (\<forall>t \<ge> c_end ce. view t (d' ! j) = mset_map (groups ! j) (view t (d ! j) |` (- E)))" if "res = Inr ()"
    proof
      fix j assume j: "j \<in> set (i # is)"
      show "\<exists>E. fst ` set (groups ! j) \<inter> E = {} \<and>
          (\<forall>t \<ge> c_end ce. view t (d' ! j) = mset_map (groups ! j) (view t (d ! j) |` (- E)))"
      proof (cases "j = i")
        case False
        with j IH that show ?thesis unfolding other [OF False, symmetric] by simp
      qed (use mine in simp)
    qed
    with IH len other show ?thesis by simp
  qed
qed

lemma map_of_filter_keys: "map_of (filter (\<lambda>(k, v). P k) xs) k = (if P k then map_of xs k else None)"
  by (induction xs) auto

lemma mset_map_apply: "mset_map kvs m k = (case map_of (rev kvs) k of None \<Rightarrow> m k | Some v \<Rightarrow> Some (v, None))"
  by (simp add: mset_map_def map_add_def split: option.split)

lemma nth_mset_groups:
  "i < length d \<Longrightarrow> mset_groups hash d kvs ! i = filter (\<lambda>(k, v). ShardForKey hash d k = i) kvs"
  by (simp add: mset_groups_def)

lemma length_mset_groups [simp]: "length (mset_groups hash d kvs) = length d"
  by (simp add: mset_groups_def)

lemma mset_groups_apply:
  assumes "i < length d" and "ShardForKey hash d k = i"
  shows "map_of (rev (mset_groups hash d kvs ! i)) k = map_of (rev kvs) k"
proof -
  have "rev (mset_groups hash d kvs ! i) = filter (\<lambda>(k, v). ShardForKey hash d k = i) (rev kvs)"
    using assms(1) by (simp add: nth_mset_groups rev_filter)
  then show ?thesis using assms(2) by (simp add: map_of_filter_keys)
qed

lemma sh_MSet_law:
  assumes "call_valid ce" and "sh_wf d" and "sh_MSet hash ce kvs d = (w, d')"
  shows "sh_wf d' \<and> w \<noteq> kConditionFailed \<and> (w \<noteq> kOk \<longrightarrow> unchanged (sh_view hash) (c_end ce) d d') \<and>
    (w = kOk \<longrightarrow> (\<exists>E. fst ` set kvs \<inter> E = {} \<and>
       (\<forall>t \<ge> c_end ce. sh_view hash t d' = mset_map kvs (sh_view hash t d |` (- E)))))"
proof -
  let ?g = "mset_groups hash d kvs"
  let ?is = "touched_shards ?g"
  have idx: "distinct ?is" "\<forall>i \<in> set ?is. i < length d"
    by (auto simp: touched_shards_def)
  have ne: "d \<noteq> []" using assms(2) by (simp add: sh_wf_def)
  obtain copies n d1 where cp: "take_checkpoints (c_task ce) 0 ?is d = (copies, n, d1)" by (metis prod_cases3)
  note c = take_checkpoints_law [OF assms(1,2) idx(2) cp]
  obtain res d2 where ap: "mset_apply (c_task ce) n ?g ?is d1 = (res, d2)" by fastforce
  have is1: "\<forall>i \<in> set ?is. i < length d1" using idx(2) c by simp
  have wf1: "sh_wf d1" using c by blast
  note a = mset_apply_law [OF assms(1) wf1 idx(1) is1 ap]
  have shard: "ShardForKey hash x = ShardForKey hash d" if "length x = length d" for x
    using that by (rule ShardForKey_length)
  show ?thesis
  proof (cases res)
    case (Inl p)
    obtain m where p: "p = (kNoMemory, m)" using a Inl by (cases p) auto
    with assms(3) cp ap Inl have w: "w = kNoMemory" and d': "d' = rollback (c_task ce) m copies d2"
      by (simp_all add: sh_MSet_def)
    have keys: "map fst copies = ?is" and good: "\<And>i k. (i, k) \<in> set copies \<Longrightarrow> kv_wf k \<and> (\<forall>t \<ge> c_end ce. view t k = view t (d ! i))"
      using c by auto
    have "\<forall>(i, k) \<in> set copies. i < length d2 \<and> kv_wf k"
    proof clarify
      fix i k assume ik: "(i, k) \<in> set copies"
      then have "i \<in> set ?is" unfolding keys [symmetric] by force
      with idx(2) a c good [OF ik] show "i < length d2 \<and> kv_wf k" by simp
    qed
    moreover have "distinct (map fst copies)" using idx(1) keys by simp
    moreover have "sh_wf d2" using a by blast
    ultimately have r: "sh_wf d'" "length d' = length d"
      "\<And>t i. i < length d \<Longrightarrow> view t (d' ! i) = (case map_of copies i of None \<Rightarrow> view t (d2 ! i) | Some k \<Rightarrow> view t k)"
      using rollback_law [OF assms(1), of d2 copies m] a c unfolding d' by simp_all
    have "view t (d' ! i) = view t (d ! i)" if "c_end ce \<le> t" "i < length d" for t i
    proof (cases "map_of copies i")
      case None
      then have "i \<notin> set ?is" unfolding keys [symmetric] by (simp add: map_of_eq_None_iff)
      with None r(3) a c that show ?thesis by simp
    next
      case (Some k)
      with r(3) good [OF map_of_SomeD [OF Some]] that show ?thesis by simp
    qed
    then have "sh_view hash t d' = sh_view hash t d" if "c_end ce \<le> t" for t
      using that ne shard [OF r(2)] by (simp add: fun_eq_iff sh_view_def)
    with r(1) w show ?thesis by (simp add: unchanged_def)
  next
    case (Inr u)
    with assms(3) cp ap have w: "w = kOk" and d': "d' = d2" by (simp_all add: sh_MSet_def)
    have "\<forall>i \<in> set ?is. \<exists>E. fst ` set (?g ! i) \<inter> E = {} \<and>
        (\<forall>t \<ge> c_end ce. view t (d' ! i) = mset_map (?g ! i) (view t (d1 ! i) |` (- E)))"
      using a Inr d' by simp
    then obtain E where E: "\<And>i. i \<in> set ?is \<Longrightarrow> fst ` set (?g ! i) \<inter> E i = {}"
      "\<And>i t. i \<in> set ?is \<Longrightarrow> c_end ce \<le> t \<Longrightarrow> view t (d' ! i) = mset_map (?g ! i) (view t (d1 ! i) |` (- E i))"
      by metis
    let ?F = "{k. ShardForKey hash d k \<in> set ?is \<and> k \<in> E (ShardForKey hash d k)}"
    have "fst ` set kvs \<inter> ?F = {}"
    proof (rule ccontr)
      assume "fst ` set kvs \<inter> ?F \<noteq> {}"
      then obtain k v where "(k, v) \<in> set kvs" "ShardForKey hash d k \<in> set ?is" "k \<in> E (ShardForKey hash d k)" by auto
      moreover from this have "k \<in> fst ` set (?g ! ShardForKey hash d k)"
        using ne by (force simp: nth_mset_groups)
      ultimately show False using E(1) by blast
    qed
    moreover have "sh_view hash t d' k = mset_map kvs (sh_view hash t d |` (- ?F)) k" if t: "c_end ce \<le> t" for t k
    proof (cases "ShardForKey hash d k \<in> set ?is")
      case True
      let ?i = "ShardForKey hash d k"
      have i: "?i < length d" using ne by simp
      have "view t (d1 ! ?i) = view t (d ! ?i)" using c t i by simp
      with E(2) [OF True t] have "view t (d' ! ?i) k = mset_map (?g ! ?i) (view t (d ! ?i) |` (- E ?i)) k" by simp
      also have "\<dots> = mset_map kvs (sh_view hash t d |` (- ?F)) k"
        using mset_groups_apply [OF i refl] True
        by (simp add: mset_map_apply sh_view_def restrict_map_def split: option.split)
      finally show ?thesis using a c shard [of d'] d' by (simp add: sh_view_def)
    next
      case False
      let ?i = "ShardForKey hash d k"
      have i: "?i < length d" using ne by simp
      with False have "?g ! ?i = []" by (simp add: touched_shards_def)
      with mset_groups_apply [OF i refl, of kvs] have "map_of (rev kvs) k = None" by simp
      moreover have "view t (d' ! ?i) = view t (d ! ?i)" using a c d' i False t by simp
      ultimately show ?thesis
        using False a c shard [of d'] d' by (simp add: sh_view_def mset_map_apply restrict_map_def)
    qed
    ultimately show ?thesis using w a d' by (auto simp: fun_eq_iff intro!: exI [of _ ?F])
  qed
qed

lemma sharded_database_simps [simp]:
  "db_Get (sharded_database hash ce) = sh_Get hash ce" "db_Set (sharded_database hash ce) = sh_Set hash ce"
  "db_MSet (sharded_database hash ce) = sh_MSet hash ce" "db_Delete (sharded_database hash ce) = sh_Delete hash ce"
  "db_Exists (sharded_database hash ce) = sh_Exists hash ce" "db_Expire (sharded_database hash ce) = sh_Expire hash ce"
  "db_TtlSeconds (sharded_database hash ce) = sh_TtlSeconds hash ce"
  "db_Increment (sharded_database hash ce) = sh_Increment hash ce"
  by (simp_all add: sharded_database_def)

lemma sh_Delete_law:
  assumes "call_valid ce" and "sh_wf d" and "sh_Delete hash ce ks d = (n, d')"
  shows "sh_wf d' \<and> (\<forall>t \<ge> c_end ce. sh_view hash t d' = sh_view hash t d |` (- set ks)) \<and>
    (\<exists>at. (\<forall>k. c_start ce \<le> at k \<and> at k \<le> c_end ce) \<and>
       n = int (card {k \<in> set ks. sh_view hash (at k) d k \<noteq> None}))"
proof -
  from sh_Delete_loop_law [OF assms(1,2) assms(3) [unfolded sh_Delete_def]] obtain at where
    "sh_wf d'" "\<forall>t \<ge> c_end ce. sh_view hash t d' = sh_view hash t d |` (- set ks)"
    "\<And>k. env_now (kenv (c_task ce 0)) \<le> at k \<and> at k \<le> c_end ce"
    "n = int (card {k \<in> set ks. sh_view hash (at k) d k \<noteq> None})" by blast
  moreover from this(3) have "\<forall>k. c_start ce \<le> at k \<and> at k \<le> c_end ce"
    using call_validD(2) [OF assms(1), of 0] order_trans by blast
  ultimately show ?thesis by blast
qed

lemma sh_Exists_law:
  assumes "call_valid ce" and "sh_wf d" and "sh_Exists hash ce ks d = (n, d')"
  shows "sh_wf d' \<and> unchanged (sh_view hash) (c_end ce) d d' \<and>
    (\<exists>us. length us = length ks \<and> (\<forall>u \<in> set us. c_start ce \<le> u \<and> u \<le> c_end ce) \<and>
       n = int (length (filter (\<lambda>(k, u). sh_view hash u d k \<noteq> None) (zip ks us))))"
proof -
  from sh_Exists_loop_law [OF assms(1,2) assms(3) [unfolded sh_Exists_def]] obtain us where
    "sh_wf d'" "\<forall>t \<ge> c_end ce. sh_view hash t d' = sh_view hash t d" "length us = length ks"
    "\<And>u. u \<in> set us \<Longrightarrow> env_now (kenv (c_task ce 0)) \<le> u \<and> u \<le> c_end ce"
    "n = int (length (filter (\<lambda>(k, u). sh_view hash u d k \<noteq> None) (zip ks us)))" by blast
  moreover from this(4) have "\<forall>u \<in> set us. c_start ce \<le> u \<and> u \<le> c_end ce"
    using call_validD(2) [OF assms(1), of 0] order_trans by blast
  ultimately show ?thesis unfolding unchanged_def by blast
qed

interpretation sharded: database_contract "sharded_database hash" sh_wf "sh_view hash" call_valid c_start c_end
  for hash
proof (unfold_locales, goal_cases)
  case 1
  then show ?case by (simp add: call_valid_def)
next
  case 2
  then show ?case by simp
next
  case 3
  then show ?case unfolding sharded_database_simps by (rule sh_Get_law)
next
  case 4
  then show ?case unfolding sharded_database_simps by (rule sh_Set_law)
next
  case 5
  then show ?case unfolding sharded_database_simps by (rule sh_MSet_law)
next
  case 6
  then show ?case unfolding sharded_database_simps by (rule sh_Delete_law)
next
  case 7
  then show ?case unfolding sharded_database_simps by (rule sh_Exists_law)
next
  case 8
  then show ?case unfolding sharded_database_simps by (rule sh_Expire_law)
next
  case 9
  then show ?case unfolding sharded_database_simps by (rule sh_TtlSeconds_law)
next
  case 10
  then show ?case unfolding sharded_database_simps by (rule sh_Increment_law)
qed

end
