(* ===== verification/Shard_Invariants.thy ===== *)
theory Shard_Invariants
  imports Sharded_Theorems
begin

text \<open>
  Invariants of the shards over every sequence of calls.  A property of one store that every call keeps
  (\<open>shard_invariant\<close>) is kept in every shard by every operation of the sharded database, since those are
  tasks on single stores, checkpoints and rollbacks.  The memory limit and the ownership of keys are the two
  instances.
\<close>

subsection \<open>Calls of the database\<close>

text \<open>Whatever a client or an idle worker does to the database.\<close>

fun sh_run :: "hash_function \<Rightarrow> call_env \<Rightarrow> kv_call \<Rightarrow> KvStore list \<Rightarrow> KvStore list" where
  "sh_run hash ce (GetC k) d = snd (sh_Get hash ce k d)"
| "sh_run hash ce (SetC req) d = snd (sh_Set hash ce req d)"
| "sh_run hash ce (MSetC kvs) d = snd (sh_MSet hash ce kvs d)"
| "sh_run hash ce (DeleteC ks) d = snd (sh_Delete hash ce ks d)"
| "sh_run hash ce (ExistsC ks) d = snd (sh_Exists hash ce ks d)"
| "sh_run hash ce (ExpireC k ttl) d = snd (sh_Expire hash ce k ttl d)"
| "sh_run hash ce (TtlC k) d = snd (sh_TtlSeconds hash ce k d)"
| "sh_run hash ce (IncrementC k n) d = snd (sh_Increment hash ce k n d)"
| "sh_run hash ce (ActiveExpireC i) d = d[i := expire_pass (c_start ce) (d ! i)]"
| "sh_run hash ce SnapshotC d = snd (sh_Snapshot ce d)"
| "sh_run hash ce ClearC d = sh_Clear ce d"

inductive sh_reachable :: "hash_function \<Rightarrow> KvStore list \<Rightarrow> KvStore list \<Rightarrow> bool" for hash d0 where
  start: "sh_reachable hash d0 d0"
| call: "sh_reachable hash d0 d \<Longrightarrow> addressable c \<Longrightarrow> sh_reachable hash d0 (sh_run hash ce c d)"

text \<open>The call as each shard sees it: a write goes to the shard of its key, \<open>MSet\<close> is cut into groups.\<close>

fun routed :: "hash_function \<Rightarrow> nat \<Rightarrow> (nat \<Rightarrow> kv_call \<Rightarrow> bool) \<Rightarrow> kv_call \<Rightarrow> bool" where
  "routed hash n permits (SetC req) \<longleftrightarrow> permits (unat (hash (req_key req)) mod n) (SetC req)"
| "routed hash n permits (MSetC kvs) \<longleftrightarrow>
     (\<forall>i < n. permits i (MSetC (filter (\<lambda>(k, v). unat (hash k) mod n = i) kvs)))"
| "routed hash n permits (IncrementC k m) \<longleftrightarrow> permits (unat (hash k) mod n) (IncrementC k m)"
| "routed hash n permits c \<longleftrightarrow> True"

lemma nth_update: "xs[i := x] ! j = (if i = j \<and> j < length xs then x else xs ! j)"
  by (cases "i < length xs") (auto simp: nth_list_update list_update_beyond)

subsection \<open>The invariant of one store, in every shard\<close>

text \<open>\<open>holds m s\<close>: the property of a store, for a shard described by \<open>m\<close>; \<open>permits m c\<close>: the calls that keep it.\<close>

locale shard_invariant =
  fixes holds :: "'m \<Rightarrow> KvStore \<Rightarrow> bool"
    and permits :: "'m \<Rightarrow> kv_call \<Rightarrow> bool"
  assumes run: "permits m c \<Longrightarrow> holds m s \<Longrightarrow> holds m (kv_run e c s)"
    and copies: "holds m s \<Longrightarrow> holds m (s\<lparr>entries := um_copy ho (entries s)\<rparr>)"
    and metrics: "holds m s \<Longrightarrow> holds m (s\<lparr>metrics := x\<rparr>)"
    and reads: "permits m (GetC k)" "permits m (DeleteC ks)" "permits m (ExistsC ks)" "permits m (ExpireC k ttl)"
      "permits m (TtlC k)" "permits m (ActiveExpireC n)" "permits m SnapshotC" "permits m ClearC"
begin

lemma passes_keep: "holds m s \<Longrightarrow> holds m (fold expire_pass ts s)"
proof (induction ts arbitrary: s)
  case (Cons t ts)
  have "holds m (expire_pass t s)"
    using run [OF reads(6) Cons.prems, of "\<lparr>env_now = t, env_now2 = t, env_copy = (\<lambda>_ _. 0), env_updates = (\<lambda>_ _. 0),
        env_map = (\<lambda>_ _. 0)\<rparr>" 64] by (simp add: expire_pass_def)
  then show ?case using Cons.IH by simp
qed simp

lemma task_keeps: "permits m c \<Longrightarrow> (\<And>e s. snd (f e s) = kv_run e c s) \<Longrightarrow> holds m s \<Longrightarrow> holds m (snd (run_task te f s))"
  by (simp add: run_task_def run passes_keep)

lemma Submit_keeps:
  assumes "list_all2 holds ms d" and "Submit te i f d = (r, d')"
    and "\<And>s. i < length ms \<Longrightarrow> holds (ms ! i) s \<Longrightarrow> holds (ms ! i) (snd (run_task te f s))"
  shows "list_all2 holds ms d'"
proof (cases "i < length d")
  case True
  with assms(1) have "i < length ms" "holds (ms ! i) (d ! i)" by (simp_all add: list_all2_conv_all_nth)
  then have "holds (ms ! i) (snd (run_task te f (d ! i)))" by (rule assms(3))
  with assms(1,2) True show ?thesis
    by (auto simp: Submit_def list_all2_conv_all_nth nth_list_update split: prod.splits)
next
  case False
  with assms(1,2) show ?thesis by (auto simp: Submit_def list_update_beyond split: prod.splits)
qed

lemma Submit_call:
  assumes "list_all2 holds ms d" and "Submit te i f d = (r, d')" and "\<And>e s. snd (f e s) = kv_run e c s"
    and "i < length ms \<Longrightarrow> permits (ms ! i) c"
  shows "list_all2 holds ms d'"
  using assms(3,4) by (intro Submit_keeps [OF assms(1,2)] task_keeps [where c = c])

lemma submit_all_keep:
  "(\<And>m s n. holds m s \<Longrightarrow> holds m (snd (run_task (te n) f s))) \<Longrightarrow> list_all2 holds ms d \<Longrightarrow>
    list_all2 holds ms (snd (submit_all te n f d))"
proof (induction d arbitrary: ms n)
  case (Cons s d)
  then obtain m rest where "ms = m # rest" "holds m s" "list_all2 holds rest d" by (cases ms) auto
  with Cons show ?case by (simp add: Let_def split_def)
qed simp

lemma take_checkpoints_keep:
  assumes "list_all2 holds ms d" and "\<forall>i \<in> set is. i < length d" and "take_checkpoints te n is d = (cs, m, d')"
  shows "list_all2 holds ms d' \<and> (\<forall>(i, c) \<in> set cs. holds (ms ! i) c)"
  using assms
proof (induction "is" arbitrary: n d cs)
  case (Cons i "is")
  obtain c d1 where one: "Submit (te n) i copy_store d = (c, d1)" by fastforce
  obtain rest where rec: "take_checkpoints te (Suc n) is d1 = (rest, m, d')" "cs = (i, c) # rest"
    using Cons.prems(3) one by (auto split: prod.splits)
  have d1: "list_all2 holds ms d1"
    by (rule Submit_keeps [OF Cons.prems(1) one]) (simp add: run_task_def copy_store_def passes_keep)
  have "holds (ms ! i) (fold expire_pass (passes (te n)) (d ! i))"
    using Cons.prems(1,2) by (simp add: list_all2_conv_all_nth passes_keep)
  then have "holds (ms ! i) c" using one copies by (auto simp: Submit_def run_task_def copy_store_def)
  moreover have "\<forall>j \<in> set is. j < length d1" using Cons.prems(2) length_Submit [OF one] by simp
  ultimately show ?case using Cons.IH [OF d1 _ rec(1)] rec(2) by auto
qed simp

lemma rollback_keeps:
  assumes "list_all2 holds ms d" and "\<forall>(i, c) \<in> set cs. holds (ms ! i) c"
  shows "list_all2 holds ms (rollback te n cs d)"
  using assms
proof (induction cs arbitrary: n d)
  case (Cons p cs)
  obtain i c where p: "p = (i, c)" by fastforce
  have "list_all2 holds ms (snd (Submit (te n) i (restore_store c) d))"
    by (rule Submit_keeps [OF Cons.prems(1) prod.collapse [symmetric]])
      (use Cons.prems(2) p metrics in \<open>auto simp: run_task_def restore_store_def\<close>)
  then show ?case using Cons p by simp
qed simp

lemma mset_apply_keeps:
  assumes "list_all2 holds ms d" and "\<forall>i \<in> set is. i < length ms \<longrightarrow> permits (ms ! i) (MSetC (groups ! i))"
    and "mset_apply te n groups is d = (res, d')"
  shows "list_all2 holds ms d'"
  using assms
proof (induction "is" arbitrary: n d)
  case (Cons i "is")
  obtain w d1 where one: "Submit (te n) i (\<lambda>e. kv_MSet (env_copy e) (env_updates e) (env_map e) (groups ! i)) d = (w, d1)"
    by fastforce
  have "list_all2 holds ms d1"
    using Cons.prems(2) by (intro Submit_call [OF Cons.prems(1) one, where c = "MSetC (groups ! i)"]) simp_all
  then show ?case using Cons one by (auto split: if_splits)
qed simp

lemma sh_MSet_keeps:
  assumes "list_all2 holds ms d" and "routed hash (length ms) (\<lambda>i. permits (ms ! i)) (MSetC kvs)"
    and "sh_MSet hash ce kvs d = (w, d')"
  shows "list_all2 holds ms d'"
proof -
  let ?g = "mset_groups hash d kvs" and ?is = "touched_shards (mset_groups hash d kvs)"
  have len: "length d = length ms" using assms(1) by (simp add: list_all2_lengthD)
  have idx: "\<forall>i \<in> set ?is. i < length d" by (auto simp: touched_shards_def)
  obtain cs n d1 where cp: "take_checkpoints (c_task ce) 0 ?is d = (cs, n, d1)" by (metis prod_cases3)
  obtain res d2 where ap: "mset_apply (c_task ce) n ?g ?is d1 = (res, d2)" by fastforce
  note t = take_checkpoints_keep [OF assms(1) idx cp]
  have "\<forall>i \<in> set ?is. i < length ms \<longrightarrow> permits (ms ! i) (MSetC (?g ! i))"
    using assms(2) len by (simp add: nth_mset_groups ShardForKey_def)
  with t have d2: "list_all2 holds ms d2" by (intro mset_apply_keeps [OF _ _ ap]) simp_all
  show ?thesis
  proof (cases res)
    case (Inl p)
    then have "d' = rollback (c_task ce) (snd p) cs d2" using assms(3) cp ap by (cases p) (simp add: sh_MSet_def)
    with rollback_keeps [OF d2] t show ?thesis by simp
  next
    case (Inr u)
    with assms(3) cp ap d2 show ?thesis by (simp add: sh_MSet_def)
  qed
qed

lemma Delete_loop_keeps:
  "list_all2 holds ms d \<Longrightarrow> sh_Delete_loop hash te n ks d = (r, d') \<Longrightarrow> list_all2 holds ms d'"
proof (induction ks arbitrary: n d r)
  case (Cons k ks)
  obtain r1 d1 where one: "Submit (te n) (ShardForKey hash d k) (\<lambda>e. kv_Delete (env_now e) [k]) d = (r1, d1)" by fastforce
  obtain r2 where "sh_Delete_loop hash te (Suc n) ks d1 = (r2, d')" using Cons.prems(2) one by (auto split: prod.splits)
  moreover have "list_all2 holds ms d1"
    by (intro Submit_call [OF Cons.prems(1) one, where c = "DeleteC [k]"]) (simp_all add: reads)
  ultimately show ?case by (simp add: Cons.IH)
qed simp

lemma Exists_loop_keeps:
  "list_all2 holds ms d \<Longrightarrow> sh_Exists_loop hash te n ks d = (r, d') \<Longrightarrow> list_all2 holds ms d'"
proof (induction ks arbitrary: n d r)
  case (Cons k ks)
  obtain r1 d1 where one: "Submit (te n) (ShardForKey hash d k) (\<lambda>e. kv_Exists (env_now e) [k]) d = (r1, d1)" by fastforce
  obtain r2 where "sh_Exists_loop hash te (Suc n) ks d1 = (r2, d')" using Cons.prems(2) one by (auto split: prod.splits)
  moreover have "list_all2 holds ms d1"
    by (intro Submit_call [OF Cons.prems(1) one, where c = "ExistsC [k]"]) (simp_all add: reads)
  ultimately show ?case by (simp add: Cons.IH)
qed simp

lemma sh_run_keeps:
  assumes "list_all2 holds ms d" and "routed hash (length ms) (\<lambda>i. permits (ms ! i)) c"
  shows "list_all2 holds ms (sh_run hash ce c d)"
proof -
  have len: "length d = length ms" using assms(1) by (simp add: list_all2_lengthD)
  note one = Submit_call [OF assms(1) prod.collapse [symmetric], where c = c]
  show ?thesis
  proof (cases c)
    case (MSetC kvs)
    with sh_MSet_keeps [OF assms(1) _ prod.collapse [symmetric]] assms(2) show ?thesis by simp
  next
    case (DeleteC ks)
    with Delete_loop_keeps [OF assms(1) prod.collapse [symmetric]] show ?thesis by (simp add: sh_Delete_def)
  next
    case (ExistsC ks)
    with Exists_loop_keeps [OF assms(1) prod.collapse [symmetric]] show ?thesis by (simp add: sh_Exists_def)
  next
    case (ActiveExpireC i)
    with assms(1) show ?thesis using passes_keep [of _ _ "[c_start ce]"] by (auto simp: list_all2_conv_all_nth nth_update)
  next
    case SnapshotC
    have "list_all2 holds ms (snd (submit_all (c_task ce) 0 (\<lambda>e. kv_Snapshot (env_now e) (env_now2 e)) d))"
      using reads(7) by (intro submit_all_keep assms(1) task_keeps [where c = SnapshotC]) simp_all
    with SnapshotC show ?thesis by (simp add: sh_Snapshot_def Let_def split_def)
  next
    case ClearC
    have "list_all2 holds ms (snd (submit_all (c_task ce) 0 (\<lambda>e s. ((), kv_Clear s)) d))"
      using reads(8) by (intro submit_all_keep assms(1) task_keeps [where c = ClearC]) simp_all
    with ClearC show ?thesis by (simp add: sh_Clear_def)
  qed (use assms(2) len reads in \<open>simp_all add: one sh_Get_def sh_Set_def sh_Expire_def sh_TtlSeconds_def sh_Increment_def ShardForKey_def\<close>)
qed

lemma on_sh_reachable:
  assumes "sh_reachable hash d0 d" and "list_all2 holds ms d0"
    and "\<And>c. addressable c \<Longrightarrow> routed hash (length ms) (\<lambda>i. permits (ms ! i)) c"
  shows "list_all2 holds ms d"
  using assms by (induction rule: sh_reachable.induct) (simp_all add: sh_run_keeps)

end

end
