(* ===== verification/Sharded_Properties.thy ===== *)
theory Sharded_Properties
  imports Shard_Invariants
begin

text \<open>
  The theorems about the sharded database and the command layer on top of it: the shared memory
  limit, atomic \<open>MSet\<close>, the worker's queue, what a reply means and what reaches the mutation log.
\<close>

subsection \<open>The memory limit is shared exactly\<close>

definition fit :: "size_t \<Rightarrow> KvStore \<Rightarrow> bool" where
  "fit mm s \<longleftrightarrow> kv_wf s \<and> kv_budget s \<and> maxmemory s = mm \<and> unat mm < 2 ^ 63"

lemma kv_run_fit: "addressable c \<Longrightarrow> fit mm s \<Longrightarrow> fit mm (kv_run e c s)"
  using kv_run_wf [of s e c] kv_run_budget [of s c e] by (simp add: fit_def)

lemma copy_fit: "fit mm s \<Longrightarrow> fit mm (s\<lparr>entries := um_copy ho (entries s)\<rparr>)"
  using word_bytes_mset [of "um_copy ho (entries s)" "entries s"] total_bytes_mset [of "um_copy ho (entries s)" "entries s"]
  by (auto simp: fit_def kv_wf_def kv_budget_def um_copy_def)

interpretation memory_limit: shard_invariant fit "\<lambda>_. addressable"
  by unfold_locales (simp_all add: kv_run_fit copy_fit, simp add: fit_def kv_wf_def kv_budget_def)

lemma addressable_routed: "addressable c \<Longrightarrow> routed hash n (\<lambda>_. addressable) c"
  by (cases c) auto

lemmas sh_reachable_fits = memory_limit.on_sh_reachable [OF _ _ addressable_routed]

lemma shares_sum: "0 < n \<Longrightarrow> (\<Sum>i < n. m div n + (if i < m mod n then 1 else 0)) = (m :: nat)"
proof -
  assume "0 < n"
  then have "{i. i < n \<and> i < m mod n} = {..<m mod n}"
    using mod_less_divisor [of n m] by (auto intro: less_trans)
  then have "(\<Sum>i < n. if i < m mod n then 1 else 0) = m mod n"
    by (simp add: sum.If_cases Int_def)
  then show ?thesis by (simp add: sum.distrib)
qed

lemma unat_shard_budget:
  assumes "0 < n" and "n < 2 ^ 64" and "i < n"
  shows "unat (shard_budget mm n i) = unat mm div n + (if i < unat mm mod n then 1 else 0)"
proof -
  have n: "unat (of_nat n :: size_t) = n" "unat (of_nat i :: size_t) = i" using assms by (simp_all add: unat_of_nat)
  have q: "unat (mm div of_nat n) = unat mm div n" "unat (mm mod of_nat n) = unat mm mod n"
    using n by (simp_all add: unat_div_distrib unat_mod_distrib)
  have cond: "(of_nat i < mm mod of_nat n) = (i < unat mm mod n)"
    using n q by (simp add: word_less_nat_alt)
  have "unat mm div n + (if i < unat mm mod n then 1 else 0) \<le> unat mm"
  proof (cases "i < unat mm mod n")
    case True
    then have "unat mm mod n \<noteq> 0" by auto
    then have "n * (unat mm div n) < unat mm"
      using mult_div_mod_eq [of n "unat mm"] by linarith
    moreover have "unat mm div n \<le> n * (unat mm div n)" using assms(1) by (cases n) auto
    ultimately have "unat mm div n < unat mm" by (rule le_less_trans [rotated])
    then show ?thesis by simp
  qed simp
  moreover have "unat mm < 2 ^ 64" using unsigned_less [of mm] by simp
  ultimately show ?thesis
    unfolding shard_budget_def cond using q by (auto simp: unat_word_ariths)
qed

lemma new_database_fits:
  assumes "new_ShardedDatabase n mm pol met = Inr d" and "n < 2 ^ 64" and "unat mm < 2 ^ 63"
  shows "list_all2 fit (map (shard_budget mm n) [0..<n]) d" and "0 < n"
    and "sum_list (map unat (map (shard_budget mm n) [0..<n])) = unat mm"
proof -
  show n: "0 < n" using assms(1) by (auto simp: new_ShardedDatabase_def split: if_splits)
  have b: "unat (shard_budget mm n i) = unat mm div n + (if i < unat mm mod n then 1 else 0)" if "i < n" for i
    using unat_shard_budget [OF n assms(2) that] .
  have "sum_list (map unat (map (shard_budget mm n) [0..<n])) = (\<Sum>i < n. unat (shard_budget mm n i))"
    by (simp add: comp_def interv_sum_list_conv_sum_set_nat atLeast0LessThan)
  also have "\<dots> = (\<Sum>i < n. unat mm div n + (if i < unat mm mod n then 1 else 0))"
    using b by (intro sum.cong) auto
  also have "\<dots> = unat mm" by (rule shares_sum [OF n])
  finally show sum: "sum_list (map unat (map (shard_budget mm n) [0..<n])) = unat mm" .
  have "unat (shard_budget mm n i) < 2 ^ 63" if "i < n" for i
  proof -
    have "unat (shard_budget mm n i) \<le> sum_list (map unat (map (shard_budget mm n) [0..<n]))"
      using that by (intro member_le_sum_list) auto
    with sum assms(3) show ?thesis by simp
  qed
  moreover have "d = map (\<lambda>i. new_KvStore (shard_budget mm n i) pol met) [0..<n]"
    using assms(1) n by (auto simp: new_ShardedDatabase_def new_Shard_def split: if_splits)
  ultimately show "list_all2 fit (map (shard_budget mm n) [0..<n]) d"
    by (auto simp: list_all2_conv_all_nth fit_def kv_budget_def total_bytes_def new_KvStore_def kv_wf_def um_wf_def)
qed

lemma fits_total: "list_all2 fit mms d \<Longrightarrow> sum_list (map (\<lambda>s. total_bytes (entries s)) d) \<le> sum_list (map unat mms)"
  by (induction rule: list_all2_induct) (auto simp: fit_def kv_budget_def)

lemma stats_results:
  "fst (submit_all te n (\<lambda>e s. ((kv_Size s, kv_MemoryUsage s), s)) d) =
    map (\<lambda>s. (kv_Size s, kv_MemoryUsage s)) (snd (submit_all te n (\<lambda>e s. ((kv_Size s, kv_MemoryUsage s), s)) d))"
  by (induction d arbitrary: n) (auto simp: run_task_def Let_def split_def)

lemma fits_usage:
  "list_all2 fit mms d \<Longrightarrow> sum_list (map kv_MemoryUsage d) = of_nat (sum_list (map (\<lambda>s. total_bytes (entries s)) d))"
  by (induction rule: list_all2_induct) (auto simp: fit_def kv_wf_def kv_MemoryUsage_def word_bytes_of_nat)

definition sample_call :: "time_point \<Rightarrow> call_env" where
  "sample_call t = \<lparr>c_start = t, c_end = t, c_task = (\<lambda>_. \<lparr>passes = [t],
     kenv = \<lparr>env_now = t, env_now2 = t, env_copy = (\<lambda>_ _. 0), env_updates = (\<lambda>_ _. 0), env_map = (\<lambda>_ _. 0)\<rparr>\<rparr>)\<rparr>"

definition sample_hash :: hash_function where
  "sample_hash k = of_nat (length k)"

definition sample_shards :: "KvStore list" where
  "sample_shards = sh_run sample_hash (sample_call 0) (sample_set ''a'' ''1'' None)
     (projr (new_ShardedDatabase 2 201 kNoEviction None))"

lemma sample_call_valid [simp]: "call_valid (sample_call t)"
  by (simp add: call_valid_def task_valid_def sample_call_def kv_env_valid_def)

lemma sample_database: "new_ShardedDatabase 2 201 kNoEviction None = Inr (projr (new_ShardedDatabase 2 201 kNoEviction None))"
  by (simp add: new_ShardedDatabase_def vector_limit_def)

lemma sample_shards_reachable:
  "sh_reachable sample_hash (projr (new_ShardedDatabase 2 201 kNoEviction None)) sample_shards"
  unfolding sample_shards_def
  by (intro sh_reachable.intros) (simp add: sample_set_def pair_size_def sizeof_Entry_def)

lemma sample_shards_wf: "sh_wf sample_shards"
proof -
  have "list_all2 fit (map (shard_budget 201 2) [0..<2]) sample_shards"
    by (rule sh_reachable_fits [OF sample_shards_reachable])
      (rule new_database_fits(1) [OF sample_database], simp_all)
  then show ?thesis
    by (auto simp: sh_wf_def list_all2_conv_all_nth fit_def in_set_conv_nth)
qed

text \<open>
  C14. The shards share \<open>maxmemory\<close> exactly and never exceed it together: their limits add up to it,
  and over every sequence of client calls and idle expiry passes, the bytes of all entries of all
  shards stay within it, so the memory figure of \<open>Stats\<close> does too and does not wrap.
\<close>

theorem sharded_memory_budget:
  assumes "new_ShardedDatabase n mm pol met = Inr d0" and "n < 2 ^ 64" and "unat mm < 2 ^ 63"
    and "sh_reachable hash d0 d"
  shows "sum_list (map (unat \<circ> maxmemory) d) = unat mm \<and>
    sum_list (map (\<lambda>s. total_bytes (entries s)) d) \<le> unat mm \<and>
    unat (snd (fst (sh_Stats ce d))) \<le> unat mm"
proof -
  let ?mms = "map (shard_budget mm n) [0..<n]"
  note new = new_database_fits [OF assms(1-3)]
  have fits: "list_all2 fit ?mms d" by (rule sh_reachable_fits [OF assms(4) new(1)])
  have "map maxmemory d = ?mms"
    using fits by (auto simp: list_all2_conv_all_nth fit_def intro!: nth_equalityI)
  then have "sum_list (map (unat \<circ> maxmemory) d) = unat mm"
    using new(3) by (metis map_map)
  moreover have "sum_list (map (\<lambda>s. total_bytes (entries s)) d) \<le> unat mm"
    using fits_total [OF fits] new(3) by simp
  moreover have "unat (snd (fst (sh_Stats ce d))) \<le> unat mm"
  proof -
    let ?d = "snd (submit_all (c_task ce) 0 (\<lambda>e s. ((kv_Size s, kv_MemoryUsage s), s)) d)"
    have f: "list_all2 fit ?mms ?d" by (rule memory_limit.submit_all_keep [OF _ fits]) (simp add: run_task_def memory_limit.passes_keep)
    have "snd (fst (sh_Stats ce d)) = of_nat (sum_list (map (\<lambda>s. total_bytes (entries s)) ?d))"
      using fits_usage [OF f] stats_results [of "c_task ce" 0 d]
      by (simp add: sh_Stats_def Let_def split_def comp_def)
    moreover have "sum_list (map (\<lambda>s. total_bytes (entries s)) ?d) \<le> unat mm"
      using fits_total [OF f] new(3) by simp
    ultimately show ?thesis using assms(3) by (simp add: unat_of_nat)
  qed
  ultimately show ?thesis by blast
qed

theorem sharded_memory_budget_witness:
  "sum_list (map (unat \<circ> maxmemory) sample_shards) = 201 \<and>
   unat (snd (fst (sh_Stats (sample_call 1) sample_shards))) \<le> 201"
  using sharded_memory_budget [OF sample_database _ _ sample_shards_reachable, of "sample_call 1"] by simp

subsection \<open>MSet is atomic across shards\<close>

text \<open>
  C4. \<open>MSet\<close> on the sharded database is all or nothing although it writes shard by shard: if any shard
  lacks memory, the checkpoints bring every touched shard back and no client can see a change;
  otherwise every pair is visible, whichever shards they live on.
\<close>

theorem sharded_MSet_atomic:
  assumes "call_valid ce" and "sh_wf d" and "sh_MSet hash ce kvs d = (w, d')"
  shows "w = kNoMemory \<and> (\<forall>t \<ge> c_end ce. sh_view hash t d' = sh_view hash t d) \<or>
    w = kOk \<and> (\<exists>E. fst ` set kvs \<inter> E = {} \<and>
      (\<forall>t \<ge> c_end ce. sh_view hash t d' = mset_map kvs (sh_view hash t d |` (- E))))"
  using sh_MSet_law [OF assms] by (cases w) (simp_all add: unchanged_def)

theorem sharded_MSet_atomic_witness:
  "fst (sh_MSet sample_hash (sample_call 3) [(''a'', ''9''), (''bb'', replicate 40 CHR ''x'')] sample_shards) = kNoMemory \<and>
   sh_view sample_hash 4 (snd (sh_MSet sample_hash (sample_call 3) [(''a'', ''9''), (''bb'', replicate 40 CHR ''x'')] sample_shards)) =
     sh_view sample_hash 4 sample_shards"
proof -
  let ?run = "sh_MSet sample_hash (sample_call 3) [(''a'', ''9''), (''bb'', replicate 40 CHR ''x'')] sample_shards"
  have w: "fst ?run = kNoMemory" by code_simp
  have "c_end (sample_call 3) \<le> 4" by (simp add: sample_call_def)
  with sharded_MSet_atomic [OF sample_call_valid sample_shards_wf prod.collapse [symmetric], of sample_hash 3
      "[(''a'', ''9''), (''bb'', replicate 40 CHR ''x'')]"] w
  show ?thesis by (simp only: WriteResult.distinct simp_thms)
qed

subsection \<open>The worker's queue\<close>

text \<open>The turns of \<open>Run\<close> until the \<open>break\<close>, with \<open>fuel\<close> turns at most; \<open>envs\<close> supplies each turn's surroundings.\<close>

fun Run_loop :: "nat \<Rightarrow> (nat \<Rightarrow> kv_env \<times> time_point) \<Rightarrow> nat \<Rightarrow> Shard \<Rightarrow> Shard option" where
  "Run_loop 0 envs i sh = None"
| "Run_loop (Suc fuel) envs i sh =
     (case Run_turn (fst (envs i)) (snd (envs i)) sh of
        None \<Rightarrow> Some sh
      | Some sh' \<Rightarrow> Run_loop fuel envs (Suc i) sh')"

text \<open>The tasks applied in the order given, each followed by an expiry pass.\<close>

fun apply_tasks :: "(nat \<Rightarrow> kv_env \<times> time_point) \<Rightarrow> nat \<Rightarrow> Task list \<Rightarrow> KvStore \<Rightarrow> KvStore" where
  "apply_tasks envs i [] s = s"
| "apply_tasks envs i (t # ts) s = apply_tasks envs (Suc i) ts (expire_pass (snd (envs i)) (t (fst (envs i)) s))"

lemma Run_turn_task:
  "tasks sh = t # ts \<Longrightarrow> Run_turn e u sh = Some (sh\<lparr>store := expire_pass u (t e (store sh)), tasks := ts\<rparr>)"
  by (simp add: Run_turn_def expire_pass_def)

text \<open>
  C37. A stopping worker drains its queue and exits: whatever was posted before the destructor set
  \<open>stopping_\<close> runs, in the order it was posted, before the thread leaves its loop, and later posts
  are refused.  One turn more than there are tasks is enough.
\<close>

theorem worker_drains_queue:
  "Run_loop (Suc (length (tasks sh))) envs i (Stop_Shard sh) =
     Some \<lparr>store = apply_tasks envs i (tasks sh) (store sh), tasks = [], stopping = True\<rparr> \<and>
   Post task (Stop_Shard sh) = Inl (runtime_error ''shard is stopping'')"
proof -
  have "Run_loop (Suc (length ts)) envs i \<lparr>store = s, tasks = ts, stopping = True\<rparr> =
      Some \<lparr>store = apply_tasks envs i ts s, tasks = [], stopping = True\<rparr>" for ts s
  proof (induction ts arbitrary: i s)
    case Nil
    then show ?case by (simp add: Run_turn_def)
  next
    case (Cons t ts)
    then show ?case by (simp add: Run_turn_task)
  qed
  moreover have "Stop_Shard sh = \<lparr>store = store sh, tasks = tasks sh, stopping = True\<rparr>"
    by (simp add: Stop_Shard_def)
  ultimately show ?thesis by (simp add: Post_def)
qed

subsection \<open>What a reply means\<close>

text \<open>The executor over the sharded database: the surroundings of the successive calls of one command.\<close>

abbreviation sharded_execute where
  "sharded_execute hash es \<equiv> run_command (\<lambda>i. sharded_database hash (es i))"

definition commands_ok :: "(nat \<Rightarrow> call_env) \<Rightarrow> time_point \<Rightarrow> bool" where
  "commands_ok es T \<longleftrightarrow> envs_ok call_valid c_start c_end es T"

text \<open>
  C6. Every visible change reaches the mutation log, and only successful mutations do.  With a
  mutation callback installed, a command either leaves the log and the visible content alone, or it
  is a mutation that passed the guard and did not fail, and the callback has been handed exactly the
  arguments the client sent.
\<close>

theorem every_change_is_logged:
  assumes "commands_ok es T" and "sh_wf d" and "mutation_callback hooks = Some callback"
    and "sharded_execute hash es hooks elapsed args d p m = (res, d', p', m')"
  shows "sh_wf d' \<and>
    (p' = p \<and> (\<forall>t \<ge> T. sh_view hash t d' = sh_view hash t d) \<or>
     (p' = snd (callback args p) \<and> \<not> guard_fails hooks p \<and>
      (\<exists>v. \<not> is_error v \<and> v \<noteq> Null \<and>
         res = (case fst (callback args p) of Inl ex \<Rightarrow> Inl ex | Inr _ \<Rightarrow> Inr v))))"
  using sharded.run_command_effect [OF assms(1) [unfolded commands_ok_def] assms(2,4)] assms(3)
  by (auto simp: unchanged_def)

definition sample_commands :: "time_point \<Rightarrow> nat \<Rightarrow> call_env" where
  "sample_commands t i = sample_call t"

lemma sample_commands_ok [simp]: "commands_ok (sample_commands t) t"
  by (simp add: commands_ok_def envs_ok_def sample_commands_def) (simp add: sample_call_def)

definition sample_hooks :: "string list list MutationHooks" where
  "sample_hooks = \<lparr>mutation_callback = Some (\<lambda>args log. (Inr (), log @ [args])), mutation_guard = None\<rparr>"

theorem every_change_is_logged_witness:
  "fst (snd (snd (sharded_execute sample_hash (sample_commands 1) sample_hooks 0 [''incr'', ''a''] sample_shards [] None))) =
     [[''incr'', ''a'']] \<and>
   sh_wf (fst (snd (sharded_execute sample_hash (sample_commands 1) sample_hooks 0 [''incr'', ''a''] sample_shards [] None)))"
proof -
  let ?run = "sharded_execute sample_hash (sample_commands 1) sample_hooks 0 [''incr'', ''a''] sample_shards [] None"
  have "fst (snd (snd ?run)) = [[''incr'', ''a'']]" by code_simp
  moreover obtain res d' p' m' where run: "?run = (res, d', p', m')" by (metis prod_cases4)
  moreover have "mutation_callback sample_hooks = Some (\<lambda>args log. (Inr (), log @ [args]))"
    by (simp add: sample_hooks_def)
  ultimately show ?thesis
    using every_change_is_logged [OF sample_commands_ok sample_shards_wf _ run] by simp
qed

text \<open>
  C19. An error value returned by \<open>Execute\<close> means that nothing happened: the visible content and the mutation log are as
  before.  This covers unknown commands, wrong arity, bad options and integers, a guard that reports
  broken persistence, and writes that lack memory.  The internal server error is none of these: the dispatcher
  answers it when \<open>Execute\<close> throws, which it does after the change when the mutation callback throws.
\<close>

theorem error_reply_changes_nothing:
  assumes "commands_ok es T" and "sh_wf d" and "is_error v"
    and "sharded_execute hash es hooks elapsed args d p m = (Inr v, d', p', m')"
  shows "p' = p \<and> (\<forall>t \<ge> T. sh_view hash t d' = sh_view hash t d) \<and>
    m' = map_option (ObserveCommand elapsed True) m"
proof (cases "mutation_callback hooks")
  case None
  with sharded.run_command_effect [OF assms(1) [unfolded commands_ok_def] assms(2,4)] assms(3)
  show ?thesis by (auto simp: unchanged_def)
next
  case (Some callback)
  with sharded.run_command_effect [OF assms(1) [unfolded commands_ok_def] assms(2,4)] assms(3)
  show ?thesis by (cases "fst (callback args p)") (auto simp: unchanged_def)
qed

theorem error_reply_changes_nothing_witness:
  "fst (sharded_execute sample_hash (sample_commands 1) sample_hooks 0 [''EXPIRE'', ''a'', ''soon''] sample_shards [] None) =
     Inr IntegerError \<and>
   sh_view sample_hash 5 (fst (snd (sharded_execute sample_hash (sample_commands 1) sample_hooks 0
       [''EXPIRE'', ''a'', ''soon''] sample_shards [] None))) = sh_view sample_hash 5 sample_shards"
proof -
  let ?run = "sharded_execute sample_hash (sample_commands 1) sample_hooks 0 [''EXPIRE'', ''a'', ''soon''] sample_shards [] None"
  have f: "fst ?run = Inr IntegerError" by code_simp
  obtain res d' p' m' where run: "?run = (res, d', p', m')" by (metis prod_cases4)
  with f have run: "?run = (Inr IntegerError, d', p', m')" by simp
  have "is_error IntegerError" by (simp add: IntegerError_def)
  from error_reply_changes_nothing [OF sample_commands_ok sample_shards_wf this run] run show ?thesis by simp
qed

text \<open>
  C9. What was stored is read back.  After a \<open>SET\<close> that answered \<open>OK\<close>, with any options whose lifetime ends within the 64-bit
  nanoseconds of the clock (some 292 years), a \<open>GET\<close> of the key that starts after it returns the value until the lifetime, counted
  from a moment within the \<open>SET\<close>, is over and the null reply from then on; without a lifetime it returns the value.
\<close>

theorem GET_after_SET:
  assumes "commands_ok es T" and "sh_wf d" and "Uppercase (hd args) = ''SET''"
    and "set_options \<lparr>req_key = args ! 1, req_value = args ! 2, req_ttl = None, req_condition = kNone\<rparr> (drop 3 args) = Inr req"
    and "sharded_execute hash es hooks elapsed args d p m = (Inr (SimpleString ''OK''), d', p', m')"
    and "0 \<le> c_start (es 0)" and "\<And>ms. req_ttl req = Some ms \<Longrightarrow> c_end (es 0) + ms * 1000000 \<le> INT64_MAX"
    and "commands_ok es2 T2" and "T \<le> c_start (es2 0)" and "Uppercase c = ''GET''"
  shows "\<exists>u u2. c_start (es 0) \<le> u \<and> u \<le> c_end (es 0) \<and> c_start (es2 0) \<le> u2 \<and> u2 \<le> c_end (es2 0) \<and>
    fst (sharded_execute hash es2 hooks2 elapsed2 [c, args ! 1] d' p2 m2) =
      Inr (case req_ttl req of
             None \<Rightarrow> BulkString (args ! 2)
           | Some ms \<Rightarrow> if u2 < u + ms * 1000000 then BulkString (args ! 2) else Null)"
proof -
  have frame: "req_key req = args ! 1" "req_value req = args ! 2"
    using SET_option_keys [OF assms(4)] by simp_all
  have "fst (sharded_execute hash es hooks elapsed args d p m) = Inr (SimpleString ''OK'')"
    "d' = fst (snd (sharded_execute hash es hooks elapsed args d p m))" using assms(5) by simp_all
  let ?get = "fst (sharded_execute hash es2 hooks2 elapsed2 [c, args ! 1] d' p2 m2)"
  let ?reads = "\<lambda>u u2. c_start (es 0) \<le> u \<and> u \<le> c_end (es 0) \<and> c_start (es2 0) \<le> u2 \<and> u2 \<le> c_end (es2 0) \<and>
    ?get = Inr (if expired_at u2 (map_option (time_add_ms u) (req_ttl req)) then Null else BulkString (args ! 2))"
  have "\<exists>u u2. ?reads u u2"
    by (rule sharded.SET_then_GET [OF assms(1) [unfolded commands_ok_def] assms(2-4) \<open>fst _ = _\<close> \<open>d' = _\<close>
          assms(8) [unfolded commands_ok_def] assms(9,10) frame])
  then obtain u u2 where u: "c_start (es 0) \<le> u" "u \<le> c_end (es 0)" "c_start (es2 0) \<le> u2" "u2 \<le> c_end (es2 0)"
    "?get = Inr (if expired_at u2 (map_option (time_add_ms u) (req_ttl req)) then Null else BulkString (args ! 2))"
    by (elim exE conjE) (rule that)
  have "time_add_ms u ms = u + ms * 1000000" if "req_ttl req = Some ms" for ms
    using u(1,2) assms(6) assms(7) [OF that] SET_option_ttl [OF assms(4)] that by (intro time_add_ms_exact) simp_all
  with u show ?thesis by (intro exI [of _ u] exI [of _ u2]) (auto simp: expired_at_def split: option.split)
qed

theorem GET_after_SET_witness:
  "\<exists>u u2 :: time_point. u = 1 \<and> u2 = 2 \<and> fst (sharded_execute sample_hash (sample_commands 2) sample_hooks 0 [''get'', ''kk'']
     (fst (snd (sharded_execute sample_hash (sample_commands 1) sample_hooks 0 [''set'', ''kk'', ''v'', ''px'', ''7'']
        sample_shards [] None))) [] None) =
     Inr (if u2 < u + 7000000 then BulkString ''v'' else Null)"
proof -
  let ?args = "[''set'', ''kk'', ''v'', ''px'', ''7'']"
  let ?run = "sharded_execute sample_hash (sample_commands 1) sample_hooks 0 ?args sample_shards [] None"
  have f: "fst ?run = Inr (SimpleString ''OK'')" by code_simp
  obtain res d' p' m' where run: "?run = (res, d', p', m')" by (metis prod_cases4)
  with f have run: "?run = (Inr (SimpleString ''OK''), d', p', m')" by simp
  have opts: "set_options \<lparr>req_key = ?args ! 1, req_value = ?args ! 2, req_ttl = None, req_condition = kNone\<rparr> (drop 3 ?args) =
      Inr \<lparr>req_key = ''kk'', req_value = ''v'', req_ttl = Some 7, req_condition = kNone\<rparr>" by code_simp
  have names: "Uppercase (hd ?args) = ''SET''" "Uppercase ''get'' = ''GET''" by code_simp+
  have w: "c_start (sample_commands t i) = t" "c_end (sample_commands t i) = t" for t i
    by (simp_all add: sample_commands_def sample_call_def)
  have "7 * 1000000 + 1 \<le> INT64_MAX" by (simp add: INT64_MAX_def)
  with GET_after_SET [OF sample_commands_ok sample_shards_wf names(1) opts run _ _ sample_commands_ok _ names(2),
      of 2 sample_hooks 0 "[]" None] run
  show ?thesis by (auto simp: w)
qed

end
