(* ===== verification/Shard_Ownership.thy ===== *)
theory Shard_Ownership
  imports Sharded_Properties
begin

text \<open>
  Every key lives in the shard its hash names, whatever calls were made: the second instance of
  \<open>shard_invariant\<close>.  So \<open>Snapshot\<close>, which only concatenates the lists of the shards, lists every live entry of
  the database exactly once.
\<close>

subsection \<open>A store holds only keys it was given\<close>

definition owns :: "string set \<Rightarrow> KvStore \<Rightarrow> bool" where
  "owns K s \<longleftrightarrow> kv_wf s \<and> dom (um_find (entries s)) \<subseteq> K"

fun stored_keys :: "kv_call \<Rightarrow> string set" where
  "stored_keys (SetC req) = {req_key req}"
| "stored_keys (MSetC kvs) = fst ` set kvs"
| "stored_keys (IncrementC k n) = {k}"
| "stored_keys _ = {}"

definition stores_in :: "string set \<Rightarrow> kv_call \<Rightarrow> bool" where
  "stores_in K c \<longleftrightarrow> addressable c \<and> stored_keys c \<subseteq> K"

lemma grows_by_dom: "grows_by U s s' \<Longrightarrow> dom (um_find (entries s')) \<subseteq> dom (um_find (entries s)) \<union> fst ` U"
  unfolding grows_by_def by (force simp: dom_def image_iff)

lemma kv_run_dom:
  assumes "kv_wf s" and "addressable c"
  shows "dom (um_find (entries (kv_run e c s))) \<subseteq> dom (um_find (entries s)) \<union> stored_keys c"
proof (cases c)
  case (SetC req)
  then show ?thesis
    using grows_by_dom [OF kv_Set_grows [OF assms(1) prod.collapse [symmetric], THEN conjunct1], of "env_now e" "env_map e" req]
    by (auto split: if_splits)
next
  case (MSetC kvs)
  let ?hu = "env_updates e"
  have "\<forall>p \<in> set kvs. pair_size p < 2 ^ 64" using MSetC assms(2) by fastforce
  from grows_by_dom [OF kv_MSet_grows [OF assms(1) prod.collapse [symmetric] this, THEN conjunct1], of "env_copy e" ?hu "env_map e"]
  have "dom (um_find (entries (kv_run e c s))) \<subseteq> dom (um_find (entries s)) \<union> fst ` set (mset_updates ?hu kvs)"
    using MSetC by (auto split: if_splits)
  also have "\<dots> \<subseteq> dom (um_find (entries s)) \<union> stored_keys c"
    using MSetC image_mono [OF set_mset_updates, of fst ?hu kvs] by auto
  finally show ?thesis .
next
  case (IncrementC k n)
  then have "in_int64 n" using assms(2) by simp
  from kv_Increment_grows [OF assms(1) prod.collapse [symmetric] this, of "env_now e" "env_now2 e" "env_map e" k]
  have "\<exists>U. fst ` U \<subseteq> {k} \<and> grows_by U s (kv_run e c s)"
  proof (elim disjE exE conjE, goal_cases)
    case 1
    then show ?case using IncrementC by (intro exI [of _ "{}"]) simp
  next
    case (2 v)
    then show ?case using IncrementC by (intro exI [of _ "{(k, v)}"]) simp
  qed
  then obtain U where U: "fst ` U \<subseteq> {k}" "grows_by U s (kv_run e c s)" by blast
  have "dom (um_find (entries (kv_run e c s))) \<subseteq> dom (um_find (entries s)) \<union> fst ` U" by (rule grows_by_dom [OF U(2)])
  also have "\<dots> \<subseteq> dom (um_find (entries s)) \<union> stored_keys c" using U(1) IncrementC by auto
  finally show ?thesis .
next
  case SnapshotC
  then show ?thesis
    using grows_by_dom [OF kv_ActiveExpire_grows [OF assms(1) prod.collapse [symmetric]]] by (auto simp: kv_Snapshot_def Let_def)
next
  case ClearC
  then show ?thesis by (auto simp: kv_Clear_def um_find_def)
next
  case (ActiveExpireC n)
  then show ?thesis using grows_by_dom [OF kv_ActiveExpire_grows [OF assms(1) prod.collapse [symmetric]]] by auto
qed (use kv_read_grows [OF prod.collapse [symmetric], THEN grows_by_dom] in auto)

lemma owns_run: "stores_in K c \<Longrightarrow> owns K s \<Longrightarrow> owns K (kv_run e c s)"
  using kv_run_dom [of s c e] kv_run_wf [of s e c] by (auto simp: owns_def stores_in_def)

interpretation ownership: shard_invariant owns stores_in
proof unfold_locales
  show "owns m (s\<lparr>entries := um_copy ho (entries s)\<rparr>)" if "owns m s" for m s ho
    using that word_bytes_mset [of "um_copy ho (entries s)" "entries s"] by (auto simp: owns_def kv_wf_def um_copy_def)
qed (simp_all add: owns_run stores_in_def, simp add: owns_def kv_wf_def)

text \<open>The keys of the shards of a database with \<open>n\<close> of them.\<close>

definition shard_keys :: "hash_function \<Rightarrow> nat \<Rightarrow> string set list" where
  "shard_keys hash n = map (\<lambda>i. {k. unat (hash k) mod n = i}) [0..<n]"

lemma length_shard_keys [simp]: "length (shard_keys hash n) = n"
  by (simp add: shard_keys_def)

lemma addressable_stores_in: "0 < n \<Longrightarrow> addressable c \<Longrightarrow> routed hash n (\<lambda>i. stores_in (shard_keys hash n ! i)) c"
  by (cases c) (auto simp: stores_in_def shard_keys_def)

lemma sh_reachable_owned:
  assumes "new_ShardedDatabase n mm pol met = Inr d0" and "sh_reachable hash d0 d"
  shows "list_all2 owns (shard_keys hash n) d" and "0 < n"
proof -
  show n: "0 < n" using assms(1) by (auto simp: new_ShardedDatabase_def split: if_splits)
  have "d0 = map (\<lambda>i. new_KvStore (shard_budget mm n i) pol met) [0..<n]"
    using assms(1) n by (auto simp: new_ShardedDatabase_def new_Shard_def split: if_splits)
  then have "list_all2 owns (shard_keys hash n) d0"
    by (auto simp: list_all2_conv_all_nth shard_keys_def owns_def new_KvStore_def kv_wf_def um_wf_def um_find_def)
  then show "list_all2 owns (shard_keys hash n) d"
    using n by (intro ownership.on_sh_reachable [OF assms(2)]) (simp_all add: addressable_stores_in)
qed

subsection \<open>What Snapshot lists\<close>

definition snap_map :: "SnapshotEntry list \<Rightarrow> string \<rightharpoonup> string \<times> int option" where
  "snap_map es = map_of (map (\<lambda>e. (snap_key e, snap_value e, snap_ttl e)) es)"

text \<open>A value with its lifetime left at \<open>now\<close>, in milliseconds.\<close>

definition remaining :: "time_point \<Rightarrow> string \<times> time_point option \<Rightarrow> string \<times> int option" where
  "remaining now vx = (fst vx, map_option (\<lambda>u. max 0 (time_diff_ms u now)) (snd vx))"

lemma map_of_filter_values:
  "distinct (map fst xs) \<Longrightarrow>
    map_of (filter (\<lambda>p. P (snd p)) xs) k = (case map_of xs k of None \<Rightarrow> None | Some e \<Rightarrow> if P e then Some e else None)"
  by (induction xs) (auto simp: map_of_eq_None_iff split: option.splits)

lemma snap_map_entries: "snap_map (map (snapshot_entry now) xs) k = map_option (\<lambda>e. remaining now (plain_value e)) (map_of xs k)"
  by (induction xs) (auto simp: snap_map_def snapshot_entry_def remaining_def plain_value_def)

lemma shard_Snapshot:
  assumes "kv_wf s" and "task_valid a b te" and "fst (run_task te (\<lambda>e. kv_Snapshot (env_now e) (env_now2 e)) s) = es"
  shows "distinct (map snap_key es)" and "snap_map es k = map_option (remaining (env_now2 (kenv te))) (view (env_now (kenv te)) s k)"
proof -
  let ?s = "fold expire_pass (passes te) s" and ?now = "env_now (kenv te)"
  let ?live = "filter (\<lambda>p. \<not> IsExpired (snd p) ?now) (entries ?s)"
  have s: "kv_wf ?s" "view ?now ?s = view ?now s"
    using passes_spec [OF assms(1), of "passes te" ?now] assms(2) by (simp_all add: task_valid_def)
  have es: "es = map (snapshot_entry (env_now2 (kenv te))) ?live"
    using assms(3) kv_ActiveExpire_full [of ?s "length (entries ?s)" ?now] by (auto simp: run_task_def kv_Snapshot_def Let_def)
  have "map snap_key es = map fst ?live" unfolding es by (simp add: snapshot_entry_def)
  moreover have d: "distinct (map fst (entries ?s))" using s(1) by (simp add: kv_wf_def um_wf_def)
  ultimately show "distinct (map snap_key es)" by (metis distinct_map_filter)
  have "map_of ?live k =
      (case um_find (entries ?s) k of None \<Rightarrow> None | Some e \<Rightarrow> if \<not> IsExpired e ?now then Some e else None)"
    unfolding um_find_def by (rule map_of_filter_values [OF d, of "\<lambda>e. \<not> IsExpired e ?now"])
  then show "snap_map es k = map_option (remaining (env_now2 (kenv te))) (view ?now s k)"
    unfolding es snap_map_entries s(2) [symmetric] by (simp add: view_apply split: option.split)
qed

lemma submit_all_nth:
  "submit_all te n f d = (rs, d') \<Longrightarrow>
    length rs = length d \<and> (\<forall>i < length d. rs ! i = fst (run_task (te (n + i)) f (d ! i)))"
proof (induction d arbitrary: n rs d')
  case (Cons s d)
  obtain rs1 d1 where rec: "submit_all te (Suc n) f d = (rs1, d1)" by fastforce
  with Cons.prems have "rs = fst (run_task (te n) f s) # rs1" by (auto simp: Let_def split: prod.splits)
  with Cons.IH [OF rec] show ?case by (auto simp: nth_Cons split: nat.split)
qed simp

text \<open>Lists whose elements name the list they are in.\<close>

lemma distinct_map_concat:
  assumes "\<forall>i < length rs. distinct (map f (rs ! i)) \<and> (\<forall>x \<in> set (rs ! i). own (f x) = n + i)"
  shows "distinct (map f (concat rs))"
  using assms
proof (induction rs arbitrary: n)
  case (Cons r rs)
  have own: "own (f x) = n" if "x \<in> set r" for x using Cons.prems [rule_format, of 0] that by simp
  have tl: "\<forall>i < length rs. distinct (map f (rs ! i)) \<and> (\<forall>x \<in> set (rs ! i). own (f x) = Suc n + i)"
    using Cons.prems by fastforce
  have later: "own (f x) \<noteq> n" if x: "x \<in> set (concat rs)" for x
  proof -
    obtain i where "i < length rs" "x \<in> set (rs ! i)" using x by (auto simp: in_set_conv_nth [of _ rs])
    with tl have "own (f x) = Suc n + i" by blast
    then show ?thesis by simp
  qed
  have "f x \<noteq> f y" if "x \<in> set r" "y \<in> set (concat rs)" for x y using own [OF that(1)] later [OF that(2)] by auto
  then have "f ` set r \<inter> f ` set (concat rs) = {}" by auto
  moreover have "distinct (map f r)" using Cons.prems [rule_format, of 0] by simp
  ultimately show ?case using Cons.IH [OF tl] by simp
qed simp

lemma snap_map_append: "snap_map (xs @ ys) k = (case snap_map xs k of None \<Rightarrow> snap_map ys k | Some x \<Rightarrow> Some x)"
  by (simp add: snap_map_def map_add_def split: option.split)

lemma snap_map_concat_None: "\<forall>r \<in> set rs. snap_map r k = None \<Longrightarrow> snap_map (concat rs) k = None"
  by (induction rs) (simp_all add: snap_map_append, simp add: snap_map_def)

lemma snap_map_concat:
  assumes "i < length rs" and "\<forall>j < length rs. j \<noteq> i \<longrightarrow> snap_map (rs ! j) k = None"
  shows "snap_map (concat rs) k = snap_map (rs ! i) k"
proof -
  have rs: "rs = take i rs @ rs ! i # drop (Suc i) rs" by (rule id_take_nth_drop [OF assms(1)])
  have "\<forall>r \<in> set (take i rs). snap_map r k = None"
    using assms by (auto simp: in_set_conv_nth)
  moreover have "\<forall>r \<in> set (drop (Suc i) rs). snap_map r k = None"
    using assms by (auto simp: in_set_conv_nth)
  ultimately have "snap_map (concat (take i rs @ rs ! i # drop (Suc i) rs)) k = snap_map (rs ! i) k"
    by (simp add: snap_map_append snap_map_concat_None split: option.split)
  with rs show ?thesis by simp
qed

text \<open>\<open>Snapshot\<close> of a database whose shards own their keys: every live entry once, with its lifetime.\<close>

lemma snap_map_None_iff: "snap_map es k = None \<longleftrightarrow> k \<notin> snap_key ` set es"
  by (auto simp: snap_map_def map_of_eq_None_iff image_image)

lemma sh_Snapshot_owned:
  assumes "list_all2 owns (shard_keys hash n) d" and "0 < n" and "\<forall>i < length d. task_valid (c_start ce) (c_end ce) (c_task ce i)"
    and "sh_Snapshot ce d = (es, d')"
  shows "distinct (map snap_key es)"
    and "snap_map es k = (let te = c_task ce (ShardForKey hash d k)
      in map_option (remaining (env_now2 (kenv te))) (sh_view hash (env_now (kenv te)) d k))"
proof -
  obtain rs where all: "submit_all (c_task ce) 0 (\<lambda>e. kv_Snapshot (env_now e) (env_now2 e)) d = (rs, d')" "es = concat rs"
    using assms(4) by (auto simp: sh_Snapshot_def split: prod.splits)
  note rs = submit_all_nth [OF all(1)]
  have n: "length d = n" using list_all2_lengthD [OF assms(1)] by simp
  have owned: "kv_wf (d ! i) \<and> dom (um_find (entries (d ! i))) \<subseteq> {k. unat (hash k) mod n = i}" if "i < n" for i
    using assms(1) that by (auto simp: list_all2_conv_all_nth shard_keys_def owns_def)
  have shard: "distinct (map snap_key (rs ! i))" "snap_map (rs ! i) k =
      map_option (remaining (env_now2 (kenv (c_task ce i)))) (view (env_now (kenv (c_task ce i))) (d ! i) k)" if "i < n" for i k
    using shard_Snapshot(1) [of "d ! i" "c_start ce" "c_end ce" "c_task ce i" "rs ! i"]
      shard_Snapshot(2) [of "d ! i" "c_start ce" "c_end ce" "c_task ce i" "rs ! i" k] rs owned [OF that] assms(3) that n
    by simp_all
  have other: "snap_map (rs ! i) k = None" if "i < n" "unat (hash k) mod n \<noteq> i" for i k
  proof -
    have "um_find (entries (d ! i)) k = None" using owned [OF that(1)] that(2) by (meson domIff mem_Collect_eq subsetD)
    then show ?thesis by (simp add: shard(2) [OF that(1)] view_apply)
  qed
  have "\<forall>i < length rs. distinct (map snap_key (rs ! i)) \<and> (\<forall>x \<in> set (rs ! i). unat (hash (snap_key x)) mod n = 0 + i)"
    using shard(1) other rs n snap_map_None_iff by auto
  then show "distinct (map snap_key es)" unfolding all(2) by (rule distinct_map_concat)
  have i: "ShardForKey hash d k < n" "ShardForKey hash d k = unat (hash k) mod n"
    using assms(2) n by (simp_all add: ShardForKey_def)
  then show "snap_map es k = (let te = c_task ce (ShardForKey hash d k)
      in map_option (remaining (env_now2 (kenv te))) (sh_view hash (env_now (kenv te)) d k))"
    unfolding all(2) using snap_map_concat [of "ShardForKey hash d k" rs k] rs n other shard(2)
    by (simp add: Let_def sh_view_def)
qed

end
