(* ===== verification/Aof.thy ===== *)
theory Aof
  imports Resp_Parser
begin

text \<open>
  The append-only file: src/include/cachefly/persist/aof.h, src/include/cachefly/persist/aof_impl.h and
  src/src/persist/aof.cpp.

  The writer is a state machine.  Clients call \<open>Append\<close> and \<open>CheckError\<close> under the mutex; the worker
  thread runs \<open>Run\<close>, cut here into the steps between which other threads may get in: taking a record
  from the queue, one \<open>write\<close> call, one \<open>fdatasync\<close>, the critical section of \<open>SetFailure\<close>, each promise it rejects
  afterwards, the clock check that ends a turn.  What the operating system answers is the event that labels the step.
  \<open>aof_file\<close> is the content the kernel has accepted, \<open>aof_synced\<close> the length of the prefix that is known to be on the disk: what
  was there when the file was opened, and what a successful \<open>fdatasync\<close> has covered since.
\<close>

subsection \<open>Writer\<close>

datatype FsyncPolicy = kAlways | kEverySecond | kNever

definition ParseFsyncPolicy :: "string \<Rightarrow> std_exception + FsyncPolicy" where
  "ParseFsyncPolicy v =
     (if v = ''always'' then Inr kAlways
      else if v = ''everysec'' then Inr kEverySecond
      else if v = ''no'' then Inr kNever
      else Inl (invalid_argument (''invalid appendfsync policy: '' @ v)))"

text \<open>\<open>durable\<close> names the promise a record fulfils; there is one only under \<open>kAlways\<close>.\<close>

record Record =
  rec_data :: string
  durable :: "nat option"

text \<open>
  \<open>Failing\<close>: about to call \<open>SetFailure\<close>.  \<open>Rejecting\<close>: has left its critical section, with the records still to reject.  The flag
  tells the call after the interval \<open>fdatasync\<close>, which ends the turn, from the one in the \<open>catch\<close>.
\<close>

datatype worker_pc =
    Waiting
  | Writing Record nat
  | Syncing Record
  | Failing std_exception bool
  | Rejecting std_exception "Record list" bool
  | Ticking
  | Exited

record AofWriter =
  aof_policy :: FsyncPolicy
  aof_queue :: "Record list"
  aof_failure :: "std_exception option"
  aof_stopping :: bool
  aof_pc :: worker_pc
  aof_dirty :: bool
  aof_file :: string
  aof_synced :: nat
  aof_promises :: "nat \<Rightarrow> (std_exception + unit) option"
  aof_next :: nat

text \<open>
  \<open>open_result\<close>: the error of \<open>open\<close>, or the present content of the file and how many of its bytes are on the disk.  Nothing is
  synced here, so an earlier run may have left some that are not.
\<close>

definition new_AofWriter :: "int + string \<times> nat \<Rightarrow> FsyncPolicy \<Rightarrow> std_exception + AofWriter" where
  "new_AofWriter open_result policy =
     (case open_result of
        Inl errno \<Rightarrow> Inl (system_error errno ''open AOF'')
      | Inr (content, on_disk) \<Rightarrow> Inr \<lparr>aof_policy = policy, aof_queue = [], aof_failure = None, aof_stopping = False,
          aof_pc = Waiting, aof_dirty = False, aof_file = content, aof_synced = min on_disk (length content),
          aof_promises = (\<lambda>_. None), aof_next = 0\<rparr>)"

text \<open>
  \<open>Append\<close> up to \<open>future.get()\<close>: the exception it throws, or the promise it then waits for, if any.
\<close>

definition Append :: "string list \<Rightarrow> AofWriter \<Rightarrow> (std_exception + nat option) \<times> AofWriter" where
  "Append command w =
     (case aof_failure w of
        Some ex \<Rightarrow> (Inl ex, w)
      | None \<Rightarrow>
          if aof_stopping w then (Inl (runtime_error ''AOF writer is stopping''), w)
          else
            (let promise = (if aof_policy w = kAlways then Some (aof_next w) else None)
             in (Inr promise,
                 w\<lparr>aof_queue := aof_queue w @ [\<lparr>rec_data = EncodeCommand command, durable = promise\<rparr>],
                   aof_next := Suc (aof_next w)\<rparr>)))"

definition CheckError :: "AofWriter \<Rightarrow> std_exception + unit" where
  "CheckError w = (case aof_failure w of Some ex \<Rightarrow> Inl ex | None \<Rightarrow> Inr ())"

definition Stop_Aof :: "AofWriter \<Rightarrow> AofWriter" where
  "Stop_Aof w = w\<lparr>aof_stopping := True\<rparr>"

definition fulfil :: "std_exception + unit \<Rightarrow> Record \<Rightarrow> AofWriter \<Rightarrow> AofWriter" where
  "fulfil result record w =
     (case durable record of
        None \<Rightarrow> w
      | Some promise \<Rightarrow> w\<lparr>aof_promises := (aof_promises w)(promise \<mapsto> result)\<rparr>)"

text \<open>The critical section of \<open>SetFailure\<close>.\<close>

definition SetFailure :: "std_exception \<Rightarrow> bool \<Rightarrow> AofWriter \<Rightarrow> AofWriter" where
  "SetFailure failure late w =
     (let first = (case aof_failure w of None \<Rightarrow> failure | Some earlier \<Rightarrow> earlier);
          rejected = aof_queue w
      in w\<lparr>aof_failure := Some first, aof_queue := [], aof_pc := Rejecting first rejected late\<rparr>)"

text \<open>The \<open>catch\<close> of \<open>Run\<close>, up to \<open>SetFailure\<close>.\<close>

definition record_failed :: "std_exception \<Rightarrow> Record \<Rightarrow> AofWriter \<Rightarrow> AofWriter" where
  "record_failed failure record w = (fulfil (Inl failure) record w)\<lparr>aof_pc := Failing failure False\<rparr>"

datatype aof_event =
    Pop
  | Timeout
  | Leave bool
  | Wrote nat
  | WriteInterrupted
  | WriteError int
  | SyncOk
  | SyncError int
  | Fail
  | Reject
  | Tick bool "int option"

text \<open>One \<open>write\<close> of \<open>WriteRecord\<close> that accepted \<open>n\<close> bytes, and what follows the last one.\<close>

definition wrote :: "Record \<Rightarrow> nat \<Rightarrow> nat \<Rightarrow> AofWriter \<Rightarrow> AofWriter" where
  "wrote record offset n w =
     (let w1 = w\<lparr>aof_file := aof_file w @ take n (drop offset (rec_data record))\<rparr>
      in if offset + n < length (rec_data record) then w1\<lparr>aof_pc := Writing record (offset + n)\<rparr>
         else if aof_policy w = kAlways then w1\<lparr>aof_dirty := True, aof_pc := Syncing record\<rparr>
         else (fulfil (Inr ()) record w1)\<lparr>aof_dirty := True, aof_pc := Ticking\<rparr>)"

text \<open>\<open>None\<close>: the event cannot happen at this point.\<close>

fun aof_worker :: "aof_event \<Rightarrow> AofWriter \<Rightarrow> AofWriter option" where
  "aof_worker Pop w =
     (case (aof_pc w, aof_queue w) of
        (Waiting, record # rest) \<Rightarrow>
          Some (w\<lparr>aof_queue := rest, aof_pc := (if rec_data record = [] then Ticking else Writing record 0)\<rparr>)
      | _ \<Rightarrow> None)"
| "aof_worker Timeout w =
     (if aof_pc w = Waiting \<and> aof_queue w = [] \<and> \<not> aof_stopping w then Some (w\<lparr>aof_pc := Ticking\<rparr>) else None)"
| "aof_worker (Leave synced) w =
     (if aof_pc w = Waiting \<and> aof_queue w = [] \<and> aof_stopping w
      then Some (w\<lparr>aof_pc := Exited,
        aof_synced := (if aof_dirty w \<and> aof_policy w \<noteq> kNever \<and> synced then length (aof_file w) else aof_synced w)\<rparr>)
      else None)"
| "aof_worker (Wrote n) w =
     (case aof_pc w of
        Writing record offset \<Rightarrow> if n \<le> length (rec_data record) - offset then Some (wrote record offset n w) else None
      | _ \<Rightarrow> None)"
| "aof_worker WriteInterrupted w = (case aof_pc w of Writing record offset \<Rightarrow> Some w | _ \<Rightarrow> None)"
| "aof_worker (WriteError errno) w =
     (case aof_pc w of
        Writing record offset \<Rightarrow> Some (record_failed (system_error errno ''write AOF'') record w)
      | _ \<Rightarrow> None)"
| "aof_worker SyncOk w =
     (case aof_pc w of
        Syncing record \<Rightarrow>
          Some ((fulfil (Inr ()) record w)\<lparr>aof_synced := length (aof_file w), aof_dirty := False, aof_pc := Ticking\<rparr>)
      | _ \<Rightarrow> None)"
| "aof_worker (SyncError errno) w =
     (case aof_pc w of
        Syncing record \<Rightarrow> Some (record_failed (system_error errno ''fdatasync'') record w)
      | _ \<Rightarrow> None)"
| "aof_worker Fail w = (case aof_pc w of Failing failure late \<Rightarrow> Some (SetFailure failure late w) | _ \<Rightarrow> None)"
| "aof_worker Reject w =
     (case aof_pc w of
        Rejecting failure (record # rest) late \<Rightarrow>
          Some ((fulfil (Inl failure) record w)\<lparr>aof_pc := Rejecting failure rest late\<rparr>)
      | Rejecting failure [] late \<Rightarrow>
          Some (if late then w\<lparr>aof_dirty := False, aof_pc := Waiting\<rparr> else w\<lparr>aof_pc := Ticking\<rparr>)
      | _ \<Rightarrow> None)"
| "aof_worker (Tick due sync_error) w =
     (if aof_pc w \<noteq> Ticking then None
      else if aof_policy w = kEverySecond \<and> aof_dirty w \<and> due
      then (case sync_error of
              None \<Rightarrow> Some (w\<lparr>aof_synced := length (aof_file w), aof_dirty := False, aof_pc := Waiting\<rparr>)
            | Some errno \<Rightarrow> Some (w\<lparr>aof_pc := Failing (system_error errno ''fdatasync AOF'') True\<rparr>))
      else Some (w\<lparr>aof_pc := Waiting\<rparr>))"

subsection \<open>Replay\<close>

text \<open>
  The loop of \<open>Replay\<close>: the exception that ends it, or the number of commands handed to the callback
  and the offset where it stopped.
\<close>

function Replay_loop ::
    "(string list \<Rightarrow> 's \<Rightarrow> (std_exception + unit) \<times> 's) \<Rightarrow> string \<Rightarrow> nat \<Rightarrow> nat \<Rightarrow> 's \<Rightarrow>
     (std_exception + nat \<times> nat) \<times> 's" where
  "Replay_loop callback data offset cnt s =
     (if \<not> offset < length data then (Inr (cnt, offset), s)
      else case ParseCommand default_parser (drop offset data) of
             kIncomplete \<Rightarrow> (Inr (cnt, offset), s)
           | kError message \<Rightarrow>
               (Inl (runtime_error (''corrupt AOF at byte '' @ to_string (int offset) @ '': '' @ message)), s)
           | kComplete consumed command \<Rightarrow>
               (case callback command s of
                  (Inl ex, s') \<Rightarrow> (Inl ex, s')
                | (Inr _, s') \<Rightarrow> Replay_loop callback data (offset + consumed) (Suc cnt) s'))"
  by pat_completeness auto
termination
  by (relation "measure (\<lambda>(callback, data, offset, cnt, s). length data - offset)")
    (auto dest!: sym [of _ "ParseCommand default_parser _"] dest: ParseCommand_bound)

declare Replay_loop.simps [simp del]

text \<open>
  \<open>file\<close> is \<open>None\<close> when it cannot be opened; \<open>resize_error\<close> is what \<open>resize_file\<close> throws, if it does.  The
  result carries the file as \<open>Replay\<close> leaves it.
\<close>

definition Replay ::
    "(string list \<Rightarrow> 's \<Rightarrow> (std_exception + unit) \<times> 's) \<Rightarrow> bool \<Rightarrow> std_exception option \<Rightarrow> string option \<Rightarrow> 's \<Rightarrow>
     (std_exception + nat) \<times> string option \<times> 's" where
  "Replay callback truncate_incomplete resize_error file s =
     (case file of
        None \<Rightarrow> (Inr 0, None, s)
      | Some data \<Rightarrow>
          (case Replay_loop callback data 0 0 s of
             (Inl ex, s') \<Rightarrow> (Inl ex, Some data, s')
           | (Inr (cnt, offset), s') \<Rightarrow>
               if offset < length data \<and> truncate_incomplete
               then (case resize_error of
                       Some ex \<Rightarrow> (Inl ex, Some data, s')
                     | None \<Rightarrow> (Inr cnt, Some (take offset data), s'))
               else (Inr cnt, Some data, s')))"

end
