(* ===== verification/Aof_Theorems.thy ===== *)
theory Aof_Theorems
  imports Aof Transition_System
begin

text \<open>
  The append-only file over every interleaving of clients, worker and shutdown, and what a restart
  reads back from it.  A state of the system is the writer with the history of the commands \<open>Append\<close> has
  accepted.  The invariant says how far the worker has come: \<open>k\<close> commands are in the file whole, \<open>off\<close>
  bytes of the next one after them.
\<close>

subsection \<open>The system\<close>

datatype aof_action = Accept "string list" | Work aof_event | Shut

fun aof_do :: "aof_action \<Rightarrow> string list list \<times> AofWriter \<Rightarrow> (string list list \<times> AofWriter) option" where
  "aof_do (Accept c) (h, w) =
     (if valid_command default_parser c
      then (case Append c w of (Inr _, w') \<Rightarrow> Some (h @ [c], w') | (Inl _, _) \<Rightarrow> None)
      else None)"
| "aof_do (Work e) (h, w) = map_option (Pair h) (aof_worker e w)"
| "aof_do Shut (h, w) = Some (h, Stop_Aof w)"

definition log_bytes :: "string list list \<Rightarrow> string" where
  "log_bytes h = concat (map EncodeCommand h)"

definition rec_of :: "FsyncPolicy \<Rightarrow> string list list \<Rightarrow> nat \<Rightarrow> Record" where
  "rec_of policy h i = \<lparr>rec_data = EncodeCommand (h ! i), durable = (if policy = kAlways then Some i else None)\<rparr>"

definition pending :: "nat \<Rightarrow> AofWriter \<Rightarrow> bool" where
  "pending i w \<longleftrightarrow> Some i \<in> durable ` set (aof_queue w) \<or>
     (case aof_pc w of Writing r _ \<Rightarrow> durable r = Some i | Syncing r \<Rightarrow> durable r = Some i
      | Rejecting _ rs _ \<Rightarrow> Some i \<in> durable ` set rs | _ \<Rightarrow> False)"

definition idle :: "string list list \<Rightarrow> AofWriter \<Rightarrow> nat \<Rightarrow> nat \<Rightarrow> bool" where
  "idle h w k off \<longleftrightarrow>
     (if aof_failure w = None then off = 0 \<and> aof_queue w = map (rec_of (aof_policy w) h) [k..<length h]
      else aof_queue w = [] \<and> (off = 0 \<or> k < length h))"

definition worker_at :: "string list list \<Rightarrow> AofWriter \<Rightarrow> nat \<Rightarrow> nat \<Rightarrow> bool" where
  "worker_at h w k off \<longleftrightarrow>
     (case aof_pc w of
        Writing r n \<Rightarrow> aof_failure w = None \<and> k < length h \<and> r = rec_of (aof_policy w) h k \<and> n = off \<and>
          off < length (EncodeCommand (h ! k)) \<and> aof_queue w = map (rec_of (aof_policy w) h) [Suc k..<length h]
      | Syncing r \<Rightarrow> aof_failure w = None \<and> off = 0 \<and> 0 < k \<and> aof_policy w = kAlways \<and>
          r = rec_of kAlways h (k - 1) \<and> aof_queue w = map (rec_of (aof_policy w) h) [k..<length h]
      | Failing _ _ \<Rightarrow>
          if aof_failure w = None
          then (\<exists>j. (j = k \<and> off = 0 \<or> j = Suc k) \<and> j \<le> length h \<and> aof_queue w = map (rec_of (aof_policy w) h) [j..<length h])
          else aof_queue w = [] \<and> (off = 0 \<or> k < length h)
      | Rejecting _ _ _ \<Rightarrow> aof_failure w \<noteq> None \<and> aof_queue w = [] \<and> (off = 0 \<or> k < length h)
      | Exited \<Rightarrow> aof_stopping w \<and> aof_queue w = [] \<and> idle h w k off
      | _ \<Rightarrow> idle h w k off)"

definition acked :: "string \<Rightarrow> string list list \<Rightarrow> AofWriter \<Rightarrow> bool" where
  "acked init h w \<longleftrightarrow> (\<forall>i. aof_promises w i = Some (Inr ()) \<longrightarrow>
     i < length h \<and> length init + length (log_bytes (take (Suc i) h)) \<le> aof_synced w)"

definition answered :: "string list list \<Rightarrow> AofWriter \<Rightarrow> bool" where
  "answered h w \<longleftrightarrow> (aof_policy w = kAlways \<longrightarrow> (\<forall>i < length h. aof_promises w i \<noteq> None \<or> pending i w))"

definition file_at :: "string \<Rightarrow> string list list \<Rightarrow> AofWriter \<Rightarrow> nat \<Rightarrow> nat \<Rightarrow> bool" where
  "file_at init h w k off \<longleftrightarrow> aof_file w = init @ log_bytes (take k h) @ take off (EncodeCommand (h ! k))"

definition aof_at :: "string \<Rightarrow> nat \<Rightarrow> string list list \<Rightarrow> AofWriter \<Rightarrow> nat \<Rightarrow> nat \<Rightarrow> bool" where
  "aof_at init dur h w k off \<longleftrightarrow>
     aof_next w = length h \<and> k \<le> length h \<and> (\<forall>c \<in> set h. valid_command default_parser c) \<and>
     file_at init h w k off \<and> min dur (length init) \<le> aof_synced w \<and> aof_synced w \<le> length (aof_file w) \<and>
     worker_at h w k off \<and> acked init h w \<and> answered h w"

definition aof_inv :: "string \<Rightarrow> nat \<Rightarrow> string list list \<times> AofWriter \<Rightarrow> bool" where
  "aof_inv init dur s \<longleftrightarrow> (\<exists>k off. aof_at init dur (fst s) (snd s) k off)"

lemmas aof_at_defs = aof_at_def worker_at_def idle_def acked_def answered_def pending_def

lemma aof_invI: "aof_at init dur h w k off \<Longrightarrow> aof_inv init dur (h, w)"
  by (auto simp: aof_inv_def)

lemma file_at_update [simp]:
  "file_at init h (aof_queue_update f1 w) k off = file_at init h w k off"
  "file_at init h (aof_pc_update f2 w) k off = file_at init h w k off"
  "file_at init h (aof_failure_update f3 w) k off = file_at init h w k off"
  "file_at init h (aof_stopping_update f4 w) k off = file_at init h w k off"
  "file_at init h (aof_dirty_update f5 w) k off = file_at init h w k off"
  "file_at init h (aof_synced_update f6 w) k off = file_at init h w k off"
  "file_at init h (aof_promises_update f7 w) k off = file_at init h w k off"
  by (simp_all add: file_at_def)

lemma log_bytes_simps [simp]:
  "log_bytes [] = []" "log_bytes (c # cs) = EncodeCommand c @ log_bytes cs"
  "log_bytes (cs @ ds) = log_bytes cs @ log_bytes ds"
  by (simp_all add: log_bytes_def)

lemma log_bytes_take_Suc:
  "k < length h \<Longrightarrow> log_bytes (take (Suc k) h) = log_bytes (take k h) @ EncodeCommand (h ! k)"
  by (simp add: take_Suc_conv_app_nth)

lemma rec_of_snoc: "i < length h \<Longrightarrow> rec_of policy (h @ [c]) i = rec_of policy h i"
  by (simp add: rec_of_def nth_append)

lemma map_rec_of_snoc:
  "map (rec_of policy (h @ [c])) [k..<length h] = map (rec_of policy h) [k..<length h]"
  by (simp add: rec_of_snoc)

lemma valid_nth: "\<forall>c \<in> set h. valid_command default_parser c \<Longrightarrow> k < length h \<Longrightarrow> EncodeCommand (h ! k) \<noteq> []"
  by (simp add: command_frames.encode_nonempty [of default_parser])

subsection \<open>Failures\<close>

lemma fulfil_eq:
  "fulfil result r w = w\<lparr>aof_promises := (\<lambda>i. if durable r = Some i then Some result else aof_promises w i)\<rparr>"
  by (cases "durable r") (auto simp: fulfil_def fun_eq_iff intro!: arg_cong [where f = "\<lambda>p. w\<lparr>aof_promises := p\<rparr>"])

lemma SetFailure_eq:
  "SetFailure failure late w =
     (let first = (case aof_failure w of None \<Rightarrow> failure | Some earlier \<Rightarrow> earlier)
      in w\<lparr>aof_failure := Some first, aof_queue := [], aof_pc := Rejecting first (aof_queue w) late\<rparr>)"
  by (simp add: SetFailure_def Let_def)

lemma fulfil_simps [simp]:
  "aof_policy (fulfil r x w) = aof_policy w" "aof_queue (fulfil r x w) = aof_queue w"
  "aof_failure (fulfil r x w) = aof_failure w" "aof_stopping (fulfil r x w) = aof_stopping w"
  "aof_pc (fulfil r x w) = aof_pc w" "aof_dirty (fulfil r x w) = aof_dirty w"
  "aof_file (fulfil r x w) = aof_file w" "aof_synced (fulfil r x w) = aof_synced w"
  "aof_next (fulfil r x w) = aof_next w"
  "file_at init h (fulfil r x w) k off = file_at init h w k off"
  "aof_promises (fulfil r x w) i = (if durable x = Some i then Some r else aof_promises w i)"
  by (simp_all add: fulfil_def file_at_def split: option.split)

subsection \<open>Preservation\<close>

lemma aof_at_start:
  "new_AofWriter (Inr (init, dur)) policy = Inr w \<Longrightarrow> aof_at init dur [] w 0 0"
  by (auto simp: new_AofWriter_def aof_at_defs file_at_def)

lemma aof_at_Append:
  assumes inv: "aof_at init dur h w k off" and "valid_command default_parser c" and "Append c w = (Inr p, w')"
  shows "aof_at init dur (h @ [c]) w' k off"
proof -
  from assms(3) have live: "aof_failure w = None" "\<not> aof_stopping w"
    by (auto simp: Append_def split: option.splits if_splits)
  then have w': "w' = w\<lparr>aof_queue := aof_queue w @ [rec_of (aof_policy w) (h @ [c]) (length h)], aof_next := Suc (length h)\<rparr>"
    using assms(3) inv by (auto simp: Append_def Let_def rec_of_def aof_at_def)
  have "k = length h \<Longrightarrow> off = 0"
    using inv live by (auto simp: aof_at_def worker_at_def idle_def split: worker_pc.splits)
  then have fl: "take off (EncodeCommand ((h @ [c]) ! k)) = take off (EncodeCommand (h ! k))"
    using inv by (cases "k = length h") (auto simp: nth_append aof_at_def)
  have "worker_at (h @ [c]) w' k off"
    using inv live
    by (auto simp: aof_at_def worker_at_def idle_def w' rec_of_snoc nth_append split: worker_pc.splits)
  moreover have "acked init (h @ [c]) w'"
    using inv by (auto simp: aof_at_def acked_def w')
  moreover have "answered (h @ [c]) w'"
    using inv by (auto simp: aof_at_def answered_def pending_def w' rec_of_def less_Suc_eq split: worker_pc.splits)
  moreover have "file_at init (h @ [c]) w' k off"
    using inv fl by (simp add: aof_at_def file_at_def w')
  ultimately show ?thesis
    using inv assms(2) by (simp add: aof_at_def w')
qed

lemma aof_at_Stop: "aof_at init dur h w k off \<Longrightarrow> aof_at init dur h (Stop_Aof w) k off"
  by (auto simp: aof_at_defs Stop_Aof_def split: worker_pc.splits)

lemma aof_at_Pop:
  assumes inv: "aof_at init dur h w k off" and "aof_worker Pop w = Some w'"
  shows "aof_at init dur h w' k off"
proof -
  from assms(2) obtain r rest where pc: "aof_pc w = Waiting" and q: "aof_queue w = r # rest"
    and w': "w' = w\<lparr>aof_queue := rest, aof_pc := (if rec_data r = [] then Ticking else Writing r 0)\<rparr>"
    by (auto split: list.splits worker_pc.splits)
  from inv pc q have ok: "aof_failure w = None" "off = 0" and map: "map (rec_of (aof_policy w) h) [k..<length h] = r # rest"
    by (auto simp: aof_at_def worker_at_def idle_def split: if_splits)
  from map have k: "k < length h" by (cases "k < length h") simp_all
  with map have r: "r = rec_of (aof_policy w) h k" and rest: "rest = map (rec_of (aof_policy w) h) [Suc k..<length h]"
    by (simp_all add: upt_conv_Cons)
  have ne: "EncodeCommand (h ! k) \<noteq> []" using inv k by (simp add: aof_at_def valid_nth)
  then have w'': "w' = w\<lparr>aof_queue := rest, aof_pc := Writing r 0\<rparr>" by (simp add: w' r rec_of_def)
  show ?thesis
    using inv ok k ne pc q
    by (auto simp: aof_at_def worker_at_def acked_def answered_def pending_def w'' r rest)
qed

lemma aof_at_Timeout:
  assumes inv: "aof_at init dur h w k off" and "aof_worker Timeout w = Some w'"
  shows "aof_at init dur h w' k off"
proof -
  from assms(2) have pc: "aof_pc w = Waiting" and w': "w' = w\<lparr>aof_pc := Ticking\<rparr>" by (auto split: if_splits)
  show ?thesis
    using inv pc by (simp add: aof_at_def worker_at_def idle_def acked_def answered_def pending_def w')
qed

lemma aof_at_Leave:
  assumes inv: "aof_at init dur h w k off" and "aof_worker (Leave b) w = Some w'"
  shows "aof_at init dur h w' k off"
proof -
  let ?n = "if aof_dirty w \<and> aof_policy w \<noteq> kNever \<and> b then length (aof_file w) else aof_synced w"
  from assms(2) have pc: "aof_pc w = Waiting" and q: "aof_queue w = []" and stop: "aof_stopping w"
    and w': "w' = w\<lparr>aof_pc := Exited, aof_synced := ?n\<rparr>"
    by (auto split: if_splits)
  have n: "aof_synced w \<le> ?n" "?n \<le> length (aof_file w)" using inv by (auto simp: aof_at_def)
  have "acked init h w'"
    using inv n(1) by (fastforce simp: aof_at_def acked_def w')
  then show ?thesis
    using inv pc q stop n by (auto simp: aof_at_def worker_at_def idle_def answered_def pending_def w')
qed

lemma aof_at_Wrote:
  assumes inv: "aof_at init dur h w k off" and step: "aof_worker (Wrote n) w = Some w'"
  shows "aof_inv init dur (h, w')"
proof -
  from step obtain r off' where pc: "aof_pc w = Writing r off'" and n: "n \<le> length (rec_data r) - off'"
    and w': "w' = wrote r off' n w"
    by (auto split: worker_pc.splits if_splits)
  let ?e = "EncodeCommand (h ! k)"
  from inv pc have live: "aof_failure w = None" and k: "k < length h" and r: "r = rec_of (aof_policy w) h k"
    and off: "off' = off" "off < length ?e" and q: "aof_queue w = map (rec_of (aof_policy w) h) [Suc k..<length h]"
    by (auto simp: aof_at_def worker_at_def)
  have e: "rec_data r = ?e" by (simp add: r rec_of_def)
  have fl: "aof_file w @ take n (drop off ?e) = init @ log_bytes (take k h) @ take (off + n) ?e"
    using inv by (simp add: aof_at_def file_at_def take_add)
  show ?thesis
  proof (cases "off + n < length ?e")
    case True
    then have "w' = w\<lparr>aof_file := init @ log_bytes (take k h) @ take (off + n) ?e, aof_pc := Writing r (off + n)\<rparr>"
      using fl by (simp add: w' wrote_def e off)
    with inv pc live k r q True have "aof_at init dur h w' k (off + n)"
      by (auto simp: aof_at_def file_at_def worker_at_def acked_def answered_def pending_def)
    then show ?thesis by (rule aof_invI)
  next
    case False
    then have all: "aof_file w @ take n (drop off ?e) = init @ log_bytes (take (Suc k) h)"
      using fl k by (simp add: log_bytes_take_Suc)
    have w'': "w' = w\<lparr>aof_file := init @ log_bytes (take (Suc k) h), aof_dirty := True,
        aof_pc := (if aof_policy w = kAlways then Syncing r else Ticking)\<rparr>"
      using False all by (simp add: w' wrote_def e off Let_def fulfil_def r rec_of_def)
    have "length (aof_file w) \<le> length (init @ log_bytes (take (Suc k) h))"
      unfolding all [symmetric] by simp
    then have "aof_synced w \<le> length (init @ log_bytes (take (Suc k) h))"
      using inv by (simp add: aof_at_def)
    with inv pc live k r q have "aof_at init dur h w' (Suc k) 0"
      by (auto simp: aof_at_def file_at_def worker_at_def idle_def acked_def answered_def pending_def w'')
    then show ?thesis by (rule aof_invI)
  qed
qed

lemma aof_at_failed:
  assumes inv: "aof_at init dur h w k off" and pc: "aof_pc w = Writing r n \<or> aof_pc w = Syncing r"
  shows "aof_at init dur h (record_failed failure r w) k off"
proof -
  have live: "aof_failure w = None" using inv pc by (auto simp: aof_at_def worker_at_def)
  have "worker_at h (record_failed failure r w) k off"
    using inv pc live by (auto simp: aof_at_def worker_at_def record_failed_def)
  moreover have "acked init h (record_failed failure r w)"
    using inv by (auto simp: aof_at_def acked_def record_failed_def)
  moreover have "answered h (record_failed failure r w)"
    using inv pc by (auto simp: aof_at_def answered_def pending_def record_failed_def)
  ultimately show ?thesis using inv by (simp add: aof_at_def record_failed_def)
qed

lemma aof_at_Fail:
  assumes inv: "aof_at init dur h w k off" and step: "aof_worker Fail w = Some w'"
  shows "aof_at init dur h w' k off"
proof -
  from step obtain ex late where pc: "aof_pc w = Failing ex late" and w': "w' = SetFailure ex late w"
    by (auto split: worker_pc.splits)
  have "worker_at h w' k off"
    using inv pc by (auto simp: aof_at_def worker_at_def w' SetFailure_eq Let_def split: if_splits)
  moreover have "acked init h w'" using inv by (auto simp: aof_at_def acked_def w' SetFailure_eq Let_def)
  moreover have "answered h w'"
    using inv pc by (auto simp: aof_at_def answered_def pending_def w' SetFailure_eq Let_def)
  ultimately show ?thesis using inv by (simp add: aof_at_def w' SetFailure_eq Let_def)
qed

lemma aof_at_Reject:
  assumes inv: "aof_at init dur h w k off" and step: "aof_worker Reject w = Some w'"
  shows "aof_at init dur h w' k off"
proof -
  from step obtain ex rs late where pc: "aof_pc w = Rejecting ex rs late" by (auto split: worker_pc.splits)
  show ?thesis
  proof (cases rs)
    case Nil
    then have w': "w' = (if late then w\<lparr>aof_dirty := False, aof_pc := Waiting\<rparr> else w\<lparr>aof_pc := Ticking\<rparr>)"
      using pc step by simp
    have "acked init h w'" using inv by (simp add: aof_at_def acked_def w')
    moreover have "answered h w'" using inv pc Nil by (simp add: aof_at_def answered_def pending_def w')
    moreover have "worker_at h w' k off" using inv pc by (auto simp: aof_at_def worker_at_def idle_def w')
    ultimately show ?thesis using inv by (simp add: aof_at_def w')
  next
    case (Cons r rest)
    then have w': "w' = (fulfil (Inl ex) r w)\<lparr>aof_pc := Rejecting ex rest late\<rparr>" using pc step by simp
    have "acked init h w'" using inv by (auto simp: aof_at_def acked_def w')
    moreover have "answered h w'" using inv pc Cons by (auto simp: aof_at_def answered_def pending_def w')
    moreover have "worker_at h w' k off" using inv pc by (simp add: aof_at_def worker_at_def w')
    ultimately show ?thesis using inv by (simp add: aof_at_def w')
  qed
qed

lemma aof_at_SyncOk:
  assumes inv: "aof_at init dur h w k off" and step: "aof_worker SyncOk w = Some w'"
  shows "aof_at init dur h w' k off"
proof -
  from step obtain r where pc: "aof_pc w = Syncing r"
    and w': "w' = (fulfil (Inr ()) r w)\<lparr>aof_synced := length (aof_file w), aof_dirty := False, aof_pc := Ticking\<rparr>"
    by (auto split: worker_pc.splits)
  from inv pc have live: "aof_failure w = None" and k: "0 < k" "k \<le> length h" "off = 0" "aof_policy w = kAlways"
    and r: "durable r = Some (k - 1)" and q: "aof_queue w = map (rec_of (aof_policy w) h) [k..<length h]"
    and synced: "aof_synced w \<le> length (aof_file w)" and fl: "aof_file w = init @ log_bytes (take k h)"
    by (auto simp: aof_at_def worker_at_def rec_of_def file_at_def)
  have "acked init h w'"
    using inv k synced by (fastforce simp: aof_at_def acked_def w' r fl)
  moreover have "answered h w'"
    using inv pc by (auto simp: aof_at_def answered_def pending_def w' r)
  ultimately show ?thesis
    using inv live k q fl by (simp add: aof_at_def worker_at_def idle_def w')
qed

lemma aof_at_Tick:
  assumes inv: "aof_at init dur h w k off" and step: "aof_worker (Tick due sync_error) w = Some w'"
  shows "aof_at init dur h w' k off"
proof -
  from step have pc: "aof_pc w = Ticking" by (auto split: if_splits)
  consider (no_sync) "w' = w\<lparr>aof_pc := Waiting\<rparr>"
    | (synced) "w' = w\<lparr>aof_synced := length (aof_file w), aof_dirty := False, aof_pc := Waiting\<rparr>"
    | (failed) e where "w' = w\<lparr>aof_pc := Failing e True\<rparr>"
    using step pc by (auto split: if_splits option.splits)
  then show ?thesis
  proof cases
    case no_sync
    with inv pc show ?thesis by (simp add: aof_at_def worker_at_def idle_def acked_def answered_def pending_def)
  next
    case synced
    with inv pc show ?thesis
      by (fastforce simp: aof_at_def worker_at_def idle_def acked_def answered_def pending_def)
  next
    case failed
    have "off = 0 \<and> k \<le> length h" if "aof_failure w = None" using inv pc that by (simp add: aof_at_def worker_at_def idle_def)
    with failed inv pc show ?thesis
      by (auto simp: aof_at_def worker_at_def idle_def acked_def answered_def pending_def)
  qed
qed

lemma aof_inv_worker:
  assumes "aof_at init dur h w k off" and "aof_worker e w = Some w'"
  shows "aof_inv init dur (h, w')"
proof -
  have intro: "aof_at init dur h w' k off \<Longrightarrow> ?thesis" by (rule aof_invI)
  show ?thesis
  proof (cases e)
    case (Wrote n)
    with assms show ?thesis by (blast intro: aof_at_Wrote)
  next
    case (WriteError n)
    with assms show ?thesis by (intro intro) (auto split: worker_pc.splits intro: aof_at_failed)
  next
    case (SyncError n)
    with assms show ?thesis by (intro intro) (auto split: worker_pc.splits intro: aof_at_failed)
  next
    case WriteInterrupted
    with assms show ?thesis by (intro intro) (auto split: worker_pc.splits)
  next
    case Timeout
    with assms show ?thesis by (blast intro: intro aof_at_Timeout)
  next
    case (Leave b)
    with assms show ?thesis by (blast intro: intro aof_at_Leave)
  next
    case Fail
    with assms aof_at_Fail show ?thesis by (blast intro: intro)
  next
    case Reject
    with assms aof_at_Reject show ?thesis by (blast intro: intro)
  next
    case (Tick due err)
    with assms aof_at_Tick show ?thesis by (blast intro: intro)
  qed (use assms intro aof_at_Pop aof_at_SyncOk in blast)+
qed

interpretation aof_machine: inductive_invariant aof_do "aof_inv init dur" for init dur
proof
  fix s a s'
  assume inv: "aof_inv init dur s" and step: "aof_do a s = Some s'"
  obtain h w where s: "s = (h, w)" by (cases s)
  from inv s obtain k off where at: "aof_at init dur h w k off" by (auto simp: aof_inv_def)
  show "aof_inv init dur s'"
  proof (cases a)
    case (Accept c)
    with step s obtain p w' where "s' = (h @ [c], w')" "Append c w = (Inr p, w')" "valid_command default_parser c"
      by (auto split: if_splits prod.splits sum.splits)
    then have "aof_at init dur (h @ [c]) w' k off" by (blast intro: aof_at_Append [OF at])
    with \<open>s' = _\<close> show ?thesis by (auto simp: aof_inv_def)
  next
    case (Work e)
    with step s obtain w' where "s' = (h, w')" "aof_worker e w = Some w'" by auto
    with aof_inv_worker [OF at] show ?thesis by simp
  next
    case Shut
    with step s have "s' = (h, Stop_Aof w)" by simp
    with aof_at_Stop [OF at] show ?thesis by (simp only: aof_invI)
  qed
qed

lemma reaches_aof_at:
  assumes "new_AofWriter (Inr (init, dur)) policy = Inr w0" and "reaches aof_do ([], w0) (h, w)"
  obtains k off where "aof_at init dur h w k off"
proof -
  have "aof_inv init dur (h, w)"
    by (rule aof_machine.on_reaches [OF assms(2)]) (rule aof_invI [OF aof_at_start [OF assms(1)]])
  then show thesis using that by (auto simp: aof_inv_def)
qed

subsection \<open>Recovery\<close>

lemma Replay_loop_log:
  assumes "\<forall>c \<in> set cs. valid_command default_parser c"
    and "part = [] \<or> ParseCommand default_parser part = kIncomplete"
  shows "Replay_loop (\<lambda>c s. (Inr (), f c s)) (pre @ log_bytes cs @ part) (length pre) cnt s =
    (Inr (cnt + length cs, length pre + length (log_bytes cs)), fold f cs s)"
  using assms(1)
proof (induction cs arbitrary: pre cnt s)
  case Nil
  then show ?case using assms(2) by (subst Replay_loop.simps) auto
next
  case (Cons c cs)
  then have valid: "valid_command default_parser c" by simp
  have "ParseCommand default_parser (EncodeCommand c @ log_bytes cs @ part) = kComplete (length (EncodeCommand c)) c"
    by (rule command_frames.decode_encode [OF valid])
  moreover have "EncodeCommand c \<noteq> []" by (rule command_frames.encode_nonempty [OF valid])
  ultimately show ?case
    using Cons.IH [of "pre @ EncodeCommand c" "Suc cnt" "f c s"] Cons.prems
    by (subst Replay_loop.simps) (simp add: add.assoc)
qed

text \<open>What a prefix of the log holds: some commands whole, then a strict prefix of the next.\<close>

lemma log_prefix:
  assumes "\<forall>c \<in> set cs. valid_command default_parser c" and "m \<le> length (log_bytes cs)"
  shows "\<exists>n part. take m (log_bytes cs) = log_bytes (take n cs) @ part \<and> n \<le> length cs \<and>
    (part = [] \<or> ParseCommand default_parser part = kIncomplete) \<and>
    (\<forall>j \<le> length cs. length (log_bytes (take j cs)) \<le> m \<longrightarrow> j \<le> n)"
  using assms
proof (induction cs arbitrary: m)
  case Nil
  then show ?case by simp
next
  case (Cons c cs)
  then have valid: "valid_command default_parser c" by simp
  show ?case
  proof (cases "m < length (EncodeCommand c)")
    case True
    with command_frames.prefix_incomplete [OF valid True] show ?thesis
      by (intro exI [of _ 0] exI [of _ "take m (EncodeCommand c)"]) (auto simp: take_Cons split: nat.splits)
  next
    case False
    let ?m = "m - length (EncodeCommand c)"
    have "?m \<le> length (log_bytes cs)" using Cons.prems(2) by simp
    with Cons.IH [of ?m] Cons.prems(1) obtain n part where n: "take ?m (log_bytes cs) = log_bytes (take n cs) @ part" "n \<le> length cs"
      "part = [] \<or> ParseCommand default_parser part = kIncomplete"
      "\<forall>j \<le> length cs. length (log_bytes (take j cs)) \<le> ?m \<longrightarrow> j \<le> n"
      by (metis list.set_intros(2))
    have "\<forall>j \<le> length (c # cs). length (log_bytes (take j (c # cs))) \<le> m \<longrightarrow> j \<le> Suc n"
    proof (intro allI impI)
      fix j assume j: "j \<le> length (c # cs)" "length (log_bytes (take j (c # cs))) \<le> m"
      show "j \<le> Suc n"
      proof (cases j)
        case (Suc i)
        with j False n(4) show ?thesis by simp
      qed simp
    qed
    with n False show ?thesis
      by (intro exI [of _ "Suc n"] exI [of _ part]) simp
  qed
qed

lemma Replay_prefix:
  assumes "\<forall>c \<in> set cs. valid_command default_parser c" and "m \<le> length (log_bytes cs)"
  shows "\<exists>n \<le> length cs.
    Replay (\<lambda>c s. (Inr (), f c s)) True None (Some (take m (log_bytes cs))) s =
      (Inr n, Some (log_bytes (take n cs)), fold f (take n cs) s) \<and>
    (\<forall>j \<le> length cs. length (log_bytes (take j cs)) \<le> m \<longrightarrow> j \<le> n)"
proof -
  from log_prefix [OF assms] obtain n part where n: "take m (log_bytes cs) = log_bytes (take n cs) @ part" "n \<le> length cs"
    "part = [] \<or> ParseCommand default_parser part = kIncomplete"
    "\<forall>j \<le> length cs. length (log_bytes (take j cs)) \<le> m \<longrightarrow> j \<le> n"
    by blast
  have "\<forall>c \<in> set (take n cs). valid_command default_parser c" using assms(1) by (meson in_set_takeD)
  from Replay_loop_log [OF this n(3), of f "[]" 0 s] n(2)
  have "Replay (\<lambda>c s. (Inr (), f c s)) True None (Some (take m (log_bytes cs))) s =
      (Inr n, Some (log_bytes (take n cs)), fold f (take n cs) s)"
    by (simp add: Replay_def n(1))
  with n(2,4) show ?thesis by blast
qed

text \<open>The file is a prefix of the log of all accepted commands, at every moment.\<close>

lemma written_prefix:
  assumes "aof_at (log_bytes old) dur h w k off"
  shows "aof_file w = take (length (aof_file w)) (log_bytes (old @ h))"
proof (cases "k < length h")
  case True
  have "h = take k h @ h ! k # drop (Suc k) h" using True by (rule id_take_nth_drop)
  then have "log_bytes h = log_bytes (take k h) @ EncodeCommand (h ! k) @ log_bytes (drop (Suc k) h)"
    by (metis log_bytes_simps(2,3))
  moreover have "aof_file w = log_bytes old @ log_bytes (take k h) @ take off (EncodeCommand (h ! k))"
    using assms by (simp add: aof_at_def file_at_def)
  ultimately show ?thesis by (simp add: min_def)
next
  case False
  with assms have "k = length h" "off = 0"
    by (auto simp: aof_at_def worker_at_def idle_def split: worker_pc.splits if_splits)
  with assms show ?thesis by (simp add: aof_at_def file_at_def)
qed

lemma Replay_loop_corrupt:
  assumes "\<forall>c \<in> set cs. valid_command default_parser c" and "ParseCommand default_parser rest = kError message"
  shows "Replay_loop (\<lambda>c s. (Inr (), f c s)) (pre @ log_bytes cs @ rest) (length pre) cnt s =
    (Inl (runtime_error (''corrupt AOF at byte '' @ to_string (int (length pre + length (log_bytes cs))) @ '': '' @ message)),
     fold f cs s)"
  using assms(1)
proof (induction cs arbitrary: pre cnt s)
  case Nil
  have "rest \<noteq> []" using assms(2) by (auto simp: ParseCommand_def Parse_def ParseValue.simps)
  then show ?case using assms(2) by (subst Replay_loop.simps) simp
next
  case (Cons c cs)
  then have valid: "valid_command default_parser c" by simp
  have "ParseCommand default_parser (EncodeCommand c @ log_bytes cs @ rest) = kComplete (length (EncodeCommand c)) c"
    by (rule command_frames.decode_encode [OF valid])
  moreover have "EncodeCommand c \<noteq> []" by (rule command_frames.encode_nonempty [OF valid])
  ultimately show ?case
    using Cons.IH [of "pre @ EncodeCommand c" "Suc cnt" "f c s"] Cons.prems
    by (subst Replay_loop.simps) (simp add: add.assoc)
qed

subsection \<open>After a failure, and after a stop\<close>

text \<open>The error of a \<open>write\<close> or \<open>fdatasync\<close> that the code looks at.  The result of the last one, on leaving, is ignored.\<close>

fun fault :: "aof_event \<Rightarrow> AofWriter \<Rightarrow> std_exception option" where
  "fault (WriteError errno) w = Some (system_error errno ''write AOF'')"
| "fault (SyncError errno) w = Some (system_error errno ''fdatasync'')"
| "fault (Tick due (Some errno)) w =
     (if aof_policy w = kEverySecond \<and> aof_dirty w \<and> due then Some (system_error errno ''fdatasync AOF'') else None)"
| "fault _ w = None"

text \<open>\<open>done\<close>: the promises that were kept before the fault.\<close>

definition frozen :: "std_exception \<Rightarrow> string \<Rightarrow> nat set \<Rightarrow> string list list \<times> AofWriter \<Rightarrow> bool" where
  "frozen ex content done s \<longleftrightarrow>
     aof_file (snd s) = content \<and> (\<forall>i. aof_promises (snd s) i = Some (Inr ()) \<longrightarrow> i \<in> done) \<and>
     (if aof_failure (snd s) = None then \<exists>late. aof_pc (snd s) = Failing ex late
      else aof_failure (snd s) = Some ex \<and> aof_queue (snd s) = [] \<and>
        (case aof_pc (snd s) of Writing _ _ \<Rightarrow> False | Syncing _ \<Rightarrow> False | _ \<Rightarrow> True))"

lemma frozen_worker:
  assumes fz: "frozen ex content done (h, w)" and step: "aof_worker e w = Some w'"
  shows "frozen ex content done (h, w')"
proof (cases "aof_failure w")
  case None
  with fz obtain late where "aof_pc w = Failing ex late" by (auto simp: frozen_def)
  with step None fz show ?thesis
    by (cases e) (auto simp: frozen_def SetFailure_eq Let_def split: if_splits)
next
  case (Some x)
  then have w: "aof_file w = content" "\<forall>i. aof_promises w i = Some (Inr ()) \<longrightarrow> i \<in> done" "x = ex" "aof_queue w = []"
    "case aof_pc w of Writing _ _ \<Rightarrow> False | Syncing _ \<Rightarrow> False | _ \<Rightarrow> True"
    using fz by (simp_all add: frozen_def)
  show ?thesis
  proof (cases e)
    case (Tick due err)
    with step Some w show ?thesis by (auto simp: frozen_def split: if_splits option.splits)
  next
    case Reject
    with step Some w show ?thesis by (auto simp: frozen_def split: if_splits worker_pc.splits list.splits)
  qed (use step Some w in \<open>auto simp: frozen_def SetFailure_eq Let_def split: if_splits worker_pc.splits\<close>)
qed

interpretation aof_frozen: inductive_invariant aof_do "frozen ex content done" for ex content "done"
proof
  fix s a s'
  assume fz: "frozen ex content done s" and step: "aof_do a s = Some s'"
  obtain h w where s: "s = (h, w)" by (cases s)
  show "frozen ex content done s'"
  proof (cases a)
    case (Accept c)
    with step s fz show ?thesis by (auto simp: frozen_def Append_def Let_def split: if_splits option.splits)
  next
    case (Work e)
    with step s obtain w' where "s' = (h, w')" "aof_worker e w = Some w'" by auto
    with frozen_worker fz s show ?thesis by blast
  next
    case Shut
    with step s fz show ?thesis by (auto simp: frozen_def Stop_Aof_def)
  qed
qed

lemma fault_frozen:
  assumes "aof_at init dur h w k off" and "fault e w = Some err" and "aof_worker e w = Some w'"
  shows "frozen (case aof_failure w of None \<Rightarrow> err | Some first \<Rightarrow> first) (aof_file w) {i. aof_promises w i = Some (Inr ())} (h, w')"
proof (cases e)
  case (WriteError errno)
  with assms show ?thesis by (auto simp: frozen_def record_failed_def aof_at_def worker_at_def split: worker_pc.splits if_splits)
next
  case (SyncError errno)
  with assms show ?thesis by (auto simp: frozen_def record_failed_def aof_at_def worker_at_def split: worker_pc.splits if_splits)
next
  case (Tick due sync_error)
  with assms show ?thesis
    by (cases sync_error) (auto simp: frozen_def aof_at_def worker_at_def idle_def split: if_splits)
qed (use assms(2) in simp_all)

text \<open>What the worker still has to do.\<close>

definition aof_work :: "AofWriter \<Rightarrow> nat" where
  "aof_work w = (\<Sum>r \<leftarrow> aof_queue w. length (rec_data r) + 8) +
     (case aof_pc w of
        Exited \<Rightarrow> 0 | Waiting \<Rightarrow> 1 | Rejecting _ rs late \<Rightarrow> (if late then 2 else 5) + length rs
      | Failing _ late \<Rightarrow> if late then 3 else 6
      | Ticking \<Rightarrow> 4 | Syncing r \<Rightarrow> 7 | Writing r n \<Rightarrow> 7 + (length (rec_data r) - n))"

lemma rejected_work: "length rs \<le> (\<Sum>r \<leftarrow> rs. length (rec_data r) + 8)"
  by (induction rs) simp_all

lemma aof_worker_progress:
  assumes inv: "aof_at init dur h w k off" and stop: "aof_stopping w" and step: "aof_worker e w = Some w'"
  shows "aof_stopping w' \<and> (aof_work w' < aof_work w \<or> w' = w \<and> (e = WriteInterrupted \<or> e = Wrote 0))"
proof (cases e)
  case Pop
  with step stop show ?thesis by (auto simp: aof_work_def split: list.splits worker_pc.splits if_splits)
next
  case (Wrote n)
  with step obtain r i where pc: "aof_pc w = Writing r i" and n: "n \<le> length (rec_data r) - i" and w': "w' = wrote r i n w"
    by (auto split: worker_pc.splits if_splits)
  from inv pc have i: "i < length (rec_data r)" by (auto simp: aof_at_def worker_at_def rec_of_def)
  show ?thesis
  proof (cases "n = 0")
    case True
    with i have "w' = w\<lparr>aof_pc := Writing r i\<rparr>" by (simp add: w' wrote_def)
    then have "w' = w" using pc by simp
    with True Wrote stop show ?thesis by simp
  next
    case False
    with pc n i stop show ?thesis
      by (auto simp: w' wrote_def aof_work_def Let_def)
  qed
next
  case (WriteError n)
  with step stop show ?thesis by (auto simp: aof_work_def record_failed_def split: worker_pc.splits)
next
  case (SyncError n)
  with step stop show ?thesis by (auto simp: aof_work_def record_failed_def split: worker_pc.splits)
next
  case Fail
  with step stop rejected_work [of "aof_queue w"] show ?thesis
    by (auto simp: aof_work_def SetFailure_eq Let_def split: worker_pc.splits if_splits)
next
  case Reject
  with step stop show ?thesis by (auto simp: aof_work_def split: worker_pc.splits list.splits if_splits)
next
  case SyncOk
  with step stop show ?thesis by (auto simp: aof_work_def split: worker_pc.splits)
next
  case (Tick due err)
  with step stop show ?thesis
    by (auto simp: aof_work_def split: if_splits option.splits)
qed (use step stop in \<open>auto simp: aof_work_def split: worker_pc.splits if_splits\<close>)

lemma aof_worker_enabled:
  assumes inv: "aof_at init dur h w k off" and stop: "aof_stopping w" and running: "aof_pc w \<noteq> Exited"
  shows "\<exists>e w'. aof_worker e w = Some w' \<and> aof_work w' < aof_work w"
proof -
  have "\<exists>e w'. aof_worker e w = Some w' \<and> e \<noteq> WriteInterrupted \<and> e \<noteq> Wrote 0"
  proof (cases "aof_pc w")
    case Waiting
    with stop show ?thesis
      by (cases "aof_queue w") (auto intro: exI [of _ Pop] exI [of _ "Leave True"])
  next
    case (Writing r n)
    then show ?thesis by (intro exI [of _ "WriteError 0"]) simp
  next
    case (Syncing r)
    then show ?thesis by (intro exI [of _ SyncOk]) simp
  next
    case (Failing ex late)
    then show ?thesis by (intro exI [of _ Fail]) simp
  next
    case (Rejecting ex rs late)
    then show ?thesis by (intro exI [of _ Reject]) (cases rs; simp)
  next
    case Ticking
    then show ?thesis by (intro exI [of _ "Tick False None"]) simp
  qed (use running in simp)
  then show ?thesis using aof_worker_progress [OF inv stop] by blast
qed

subsection \<open>Properties\<close>

text \<open>
  C7. Crash safety of the append-only file: stop the machine at any moment of any interleaving of clients and worker, and
  let the disk keep a prefix of the file with at least what was on it when this run opened the file and what \<open>fdatasync\<close>
  has covered since.  The restart replays exactly the first \<open>n\<close> of all commands accepted so far, in the order they were
  accepted, and cuts the torn record off.  These include the commands of earlier runs that were on the disk, and every
  command whose \<open>appendfsync always\<close> promise was kept, with all commands before it; the other policies promise nothing to a
  caller of \<open>Append\<close>.
\<close>

theorem aof_crash_recovery:
  assumes "new_AofWriter (Inr (log_bytes old, on_disk)) policy = Inr w0"
    and "\<forall>c \<in> set old. valid_command default_parser c"
    and "reaches aof_do ([], w0) (h, w)"
    and "aof_synced w \<le> m" and "m \<le> length (aof_file w)"
  shows "\<exists>n \<le> length (old @ h).
    Replay (\<lambda>c s. (Inr (), f c s)) True None (Some (take m (aof_file w))) s =
      (Inr n, Some (log_bytes (take n (old @ h))), fold f (take n (old @ h)) s) \<and>
    (\<forall>j \<le> length old. length (log_bytes (take j old)) \<le> on_disk \<longrightarrow> j \<le> n) \<and>
    (\<forall>i. aof_promises w i = Some (Inr ()) \<longrightarrow> length old + i < n)"
proof -
  obtain k off where at: "aof_at (log_bytes old) on_disk h w k off" by (rule reaches_aof_at [OF assms(1,3)])
  then have valid: "\<forall>c \<in> set (old @ h). valid_command default_parser c" using assms(2) by (auto simp: aof_at_def)
  have pre: "take m (aof_file w) = take m (log_bytes (old @ h))"
    using assms(5) by (subst written_prefix [OF at]) (simp add: min_def)
  have len: "length (aof_file w) \<le> length (log_bytes (old @ h))"
    using arg_cong [OF written_prefix [OF at], of length] by simp
  with assms(5) Replay_prefix [OF valid, of m f s] obtain n where n: "n \<le> length (old @ h)"
    "Replay (\<lambda>c s. (Inr (), f c s)) True None (Some (take m (aof_file w))) s =
      (Inr n, Some (log_bytes (take n (old @ h))), fold f (take n (old @ h)) s)"
    "\<forall>j \<le> length (old @ h). length (log_bytes (take j (old @ h))) \<le> m \<longrightarrow> j \<le> n"
    unfolding pre by (meson le_trans)
  have "j \<le> n" if j: "j \<le> length old" "length (log_bytes (take j old)) \<le> on_disk" for j
  proof -
    have "log_bytes old = log_bytes (take j old) @ log_bytes (drop j old)"
      by (metis append_take_drop_id log_bytes_simps(3))
    then have "length (log_bytes (take j old)) \<le> length (log_bytes old)" by simp
    then have "length (log_bytes (take j old)) \<le> min on_disk (length (log_bytes old))" using j(2) by (rule min.boundedI [rotated])
    also have "\<dots> \<le> aof_synced w" using at by (simp add: aof_at_def)
    finally have "length (log_bytes (take j old)) \<le> aof_synced w" .
    then show ?thesis using n(3) [rule_format, of j] j(1) assms(4) by simp
  qed
  moreover have "length old + i < n" if "aof_promises w i = Some (Inr ())" for i
  proof -
    have "i < length h" "length (log_bytes old) + length (log_bytes (take (Suc i) h)) \<le> aof_synced w"
      using at that by (auto simp: aof_at_def acked_def)
    then show ?thesis using n(3) [rule_format, of "length old + Suc i"] assms(4) by simp
  qed
  ultimately show ?thesis using n(1,2) by blast
qed

definition sample_log :: "aof_action list" where
  "sample_log = [Accept [''SET'', ''a'', ''1''], Accept [''DEL'', ''a''], Work Pop, Work (Wrote 5), Work WriteInterrupted,
     Work (Wrote 22), Work SyncOk, Work (Tick True None), Work Pop, Work (Wrote 3)]"

definition sample_writer :: "FsyncPolicy \<Rightarrow> AofWriter" where
  "sample_writer policy = (case new_AofWriter (Inr (log_bytes [[''PING'']], 3)) policy of Inr w \<Rightarrow> w)"

definition sample_after :: "aof_action list \<Rightarrow> string list list \<times> AofWriter" where
  "sample_after as = the (run_actions aof_do as ([], sample_writer kAlways))"

lemma sample_writer: "new_AofWriter (Inr (log_bytes [[''PING'']], 3)) policy = Inr (sample_writer policy)"
  by (simp add: sample_writer_def new_AofWriter_def)

lemma sample_valid: "\<forall>c \<in> set [[''PING'']]. valid_command default_parser c"
  by (simp add: valid_command_def default_parser_def in_int64_def INT64_MIN_def INT64_MAX_def)

lemma sample_after_reaches:
  "run_actions aof_do as ([], sample_writer kAlways) \<noteq> None \<Longrightarrow> reaches aof_do ([], sample_writer kAlways) (sample_after as)"
  by (auto simp: sample_after_def intro: run_actions_reaches)

lemma sample_commands_valid [simp]:
  "valid_command default_parser [''SET'', ''a'', ''1'']" "valid_command default_parser [''DEL'', ''a'']"
  by (simp_all add: valid_command_def default_parser_def in_int64_def INT64_MIN_def INT64_MAX_def)

lemma sample_encodings:
  "EncodeCommand [''PING''] = ''*1'' @ CRLF @ ''$4'' @ CRLF @ ''PING'' @ CRLF"
  "EncodeCommand [''SET'', ''a'', ''1''] = ''*3'' @ CRLF @ ''$3'' @ CRLF @ ''SET'' @ CRLF @ ''$1'' @ CRLF @ ''a'' @ CRLF @ ''$1'' @ CRLF @ ''1'' @ CRLF"
  "EncodeCommand [''DEL'', ''a''] = ''*2'' @ CRLF @ ''$3'' @ CRLF @ ''DEL'' @ CRLF @ ''$1'' @ CRLF @ ''a'' @ CRLF"
  by code_simp+

lemmas sample_run = sample_log_def sample_writer_def new_AofWriter_def sample_encodings Append_def wrote_def fulfil_def Let_def

lemma sample_log_run:
  "run_actions aof_do sample_log ([], sample_writer kAlways) \<noteq> None"
  "aof_synced (snd (sample_after sample_log)) = 41" "length (aof_file (snd (sample_after sample_log))) = 44"
  "fst (sample_after sample_log) = [[''SET'', ''a'', ''1''], [''DEL'', ''a'']]"
  "aof_promises (snd (sample_after sample_log)) 0 = Some (Inr ())"
  by (simp_all add: sample_after_def sample_run)

theorem aof_crash_recovery_witness:
  "new_AofWriter (Inr (log_bytes [[''PING'']], 3)) kAlways = Inr (sample_writer kAlways) \<and>
   aof_synced (snd (sample_after sample_log)) = 41 \<and>
   (\<exists>n. n \<le> 3 \<and> 2 \<le> n \<and>
     Replay (\<lambda>c s. (Inr (), s @ [c])) True None (Some (take 43 (aof_file (snd (sample_after sample_log))))) [] =
       (Inr n, Some (log_bytes (take n [[''PING''], [''SET'', ''a'', ''1''], [''DEL'', ''a'']])),
        fold (\<lambda>c s. s @ [c]) (take n [[''PING''], [''SET'', ''a'', ''1''], [''DEL'', ''a'']]) []))"
proof -
  obtain w where w: "sample_after sample_log = ([[''SET'', ''a'', ''1''], [''DEL'', ''a'']], w)"
    using sample_log_run(4) by (cases "sample_after sample_log") simp
  have reach: "reaches aof_do ([], sample_writer kAlways) ([[''SET'', ''a'', ''1''], [''DEL'', ''a'']], w)"
    using sample_after_reaches [OF sample_log_run(1)] by (simp add: w)
  have facts: "aof_synced w = 41" "length (aof_file w) = 44" "aof_promises w 0 = Some (Inr ())"
    using sample_log_run by (simp_all add: w)
  have "\<exists>n \<le> length ([[''PING'']] @ [[''SET'', ''a'', ''1''], [''DEL'', ''a'']]).
      Replay (\<lambda>c s. (Inr (), s @ [c])) True None (Some (take 43 (aof_file w))) [] =
        (Inr n, Some (log_bytes (take n ([[''PING'']] @ [[''SET'', ''a'', ''1''], [''DEL'', ''a'']]))),
         fold (\<lambda>c s. s @ [c]) (take n ([[''PING'']] @ [[''SET'', ''a'', ''1''], [''DEL'', ''a'']])) []) \<and>
      (\<forall>j \<le> length [[''PING'']]. length (log_bytes (take j [[''PING'']])) \<le> 3 \<longrightarrow> j \<le> n) \<and>
      (\<forall>i. aof_promises w i = Some (Inr ()) \<longrightarrow> length [[''PING'']] + i < n)"
    by (rule aof_crash_recovery [OF sample_writer sample_valid reach]) (simp_all add: facts)
  then obtain n where n: "n \<le> 3" "Replay (\<lambda>c s. (Inr (), s @ [c])) True None (Some (take 43 (aof_file w))) [] =
        (Inr n, Some (log_bytes (take n [[''PING''], [''SET'', ''a'', ''1''], [''DEL'', ''a'']])),
         fold (\<lambda>c s. s @ [c]) (take n [[''PING''], [''SET'', ''a'', ''1''], [''DEL'', ''a'']]) [])"
      "\<forall>i. aof_promises w i = Some (Inr ()) \<longrightarrow> 1 + i < n"
    by auto
  have "2 \<le> n" using n(3) facts(3) by auto
  with n sample_writer show ?thesis by (auto simp: w facts)
qed

text \<open>
  C33. A failure of the log is final and visible.  Let a \<open>write\<close> fail, or an \<open>fdatasync\<close> under \<open>appendfsync always\<close> or at the
  interval of \<open>everysec\<close> (the result of the one on leaving is ignored by the code).  Whatever the threads do from then on, no byte is
  added to the file and no further promise is kept.  Until the worker has entered \<open>SetFailure\<close>, which it can do at once, \<open>Append\<close> may still accept
  commands; from then on \<open>Append\<close> and \<open>CheckError\<close> throw the first failure for ever, and when the worker has told the waiting
  clients, no \<open>Append\<close> of an accepted command is left waiting.
\<close>

theorem aof_failure_is_final:
  assumes "new_AofWriter (Inr (init, on_disk)) policy = Inr w0" and "reaches aof_do ([], w0) (h, w)"
    and "fault e w = Some err" and "aof_worker e w = Some w1" and "reaches aof_do (h, w1) (h', w')"
  shows "let first = (case aof_failure w of None \<Rightarrow> err | Some earlier \<Rightarrow> earlier)
    in aof_file w' = aof_file w \<and>
       (\<forall>i. aof_promises w' i = Some (Inr ()) \<longrightarrow> aof_promises w i = Some (Inr ())) \<and>
       (case aof_failure w' of
          None \<Rightarrow> \<exists>w2. aof_worker Fail w' = Some w2 \<and> aof_failure w2 = Some first \<and> aof_queue w2 = []
        | Some _ \<Rightarrow> Append c w' = (Inl first, w') \<and> CheckError w' = Inl first \<and>
            (aof_policy w' = kAlways \<and> (\<forall>ex rs late. aof_pc w' \<noteq> Rejecting ex rs late) \<longrightarrow>
               (\<forall>i < length h'. aof_promises w' i \<noteq> None)))"
proof -
  obtain k off where at: "aof_at init on_disk h w k off" by (rule reaches_aof_at [OF assms(1,2)])
  define first where "first = (case aof_failure w of None \<Rightarrow> err | Some earlier \<Rightarrow> earlier)"
  have "reaches aof_do ([], w0) (h, w1)" using assms(4) by (intro reaches_step [OF assms(2), of "Work e"]) simp
  then have "reaches aof_do ([], w0) (h', w')" by (rule reaches_trans [OF assms(5)])
  then obtain k' off' where at': "aof_at init on_disk h' w' k' off'" by (rule reaches_aof_at [OF assms(1)])
  have fz: "frozen first (aof_file w) {i. aof_promises w i = Some (Inr ())} (h', w')"
    unfolding first_def by (rule aof_frozen.on_reaches [OF assms(5)]) (rule fault_frozen [OF at assms(3,4)])
  have "aof_promises w' i \<noteq> None"
    if "aof_failure w' \<noteq> None" "aof_policy w' = kAlways" "\<forall>ex rs late. aof_pc w' \<noteq> Rejecting ex rs late" "i < length h'" for i
    using at' fz that by (auto simp: aof_at_def answered_def pending_def frozen_def split: worker_pc.splits)
  with fz show ?thesis
    unfolding first_def [symmetric] Let_def
    by (auto simp: frozen_def Append_def CheckError_def SetFailure_eq Let_def split: option.split)
qed

theorem aof_failure_is_final_witness:
  "let w = snd (sample_after sample_log);
       w' = snd (sample_after (sample_log @ [Work (WriteError 28), Accept [''DEL'', ''a''], Work Fail, Work Reject]))
   in fault (WriteError 28) w = Some (system_error 28 ''write AOF'') \<and> aof_file w' = aof_file w \<and>
      CheckError w' = Inl (system_error 28 ''write AOF'')"
proof -
  let ?err = "system_error 28 ''write AOF''" and ?s = "sample_after sample_log"
  let ?more = "[Accept [''DEL'', ''a''], Work Fail, Work Reject]"
  let ?t = "sample_after (sample_log @ Work (WriteError 28) # ?more)"
  obtain w1 where w1: "aof_worker (WriteError 28) (snd ?s) = Some w1"
    by (simp add: sample_after_def sample_run)
  have cont: "run_actions aof_do ?more (fst ?s, w1) = Some ?t" and first: "aof_failure (snd ?s) = None"
    and failed: "aof_failure (snd ?t) \<noteq> None"
    using w1 by (auto simp: sample_after_def sample_run record_failed_def SetFailure_def)
  have reach: "reaches aof_do ([], sample_writer kAlways) (fst ?s, snd ?s)"
    using sample_after_reaches [OF sample_log_run(1)] by simp
  have "reaches aof_do (fst ?s, w1) (fst ?t, snd ?t)" using run_actions_reaches [OF cont] by simp
  from aof_failure_is_final [OF sample_writer reach _ w1 this, of ?err] first failed show ?thesis
    by (auto simp: Let_def split: option.splits)
qed

text \<open>
  C32. Shutdown drains the log: once stopping, the worker can always take a step until it has left its
  loop; every step brings it closer to that, except a \<open>write\<close> that is interrupted or accepts nothing,
  which changes nothing; and when it has left, every waiting \<open>Append\<close> has its answer and, unless a
  failure was reported, the file ends with every accepted command in order.
\<close>

theorem aof_shutdown_drains:
  assumes "new_AofWriter (Inr (init, dur)) policy = Inr w0"
    and "reaches aof_do ([], w0) (h, w)" and "aof_stopping w"
  shows "(aof_pc w \<noteq> Exited \<longrightarrow> (\<exists>e w'. aof_worker e w = Some w' \<and> aof_work w' < aof_work w)) \<and>
    (\<forall>e w'. aof_worker e w = Some w' \<longrightarrow>
      aof_stopping w' \<and> (aof_work w' < aof_work w \<or> w' = w \<and> (e = WriteInterrupted \<or> e = Wrote 0))) \<and>
    (aof_pc w = Exited \<longrightarrow>
      (aof_policy w = kAlways \<longrightarrow> (\<forall>i < length h. aof_promises w i \<noteq> None)) \<and>
      (aof_failure w = None \<longrightarrow> aof_file w = init @ log_bytes h))"
proof -
  obtain k off where at: "aof_at init dur h w k off" by (rule reaches_aof_at [OF assms(1,2)])
  have "aof_policy w = kAlways \<longrightarrow> (\<forall>i < length h. aof_promises w i \<noteq> None)" if "aof_pc w = Exited"
    using at that by (auto simp: aof_at_def answered_def pending_def worker_at_def)
  moreover have "aof_failure w = None \<longrightarrow> aof_file w = init @ log_bytes h" if "aof_pc w = Exited"
    using at that by (auto simp: aof_at_def file_at_def worker_at_def idle_def)
  ultimately show ?thesis
    using aof_worker_enabled [OF at assms(3)] aof_worker_progress [OF at assms(3)] by blast
qed

theorem aof_shutdown_drains_witness:
  "aof_pc (snd (sample_after (sample_log @ [Shut, Work (Wrote 17), Work SyncOk, Work (Tick False None), Work (Leave True)]))) = Exited \<and>
   aof_file (snd (sample_after (sample_log @ [Shut, Work (Wrote 17), Work SyncOk, Work (Tick False None), Work (Leave True)]))) =
     log_bytes [[''PING''], [''SET'', ''a'', ''1''], [''DEL'', ''a'']]"
proof -
  let ?as = "sample_log @ [Shut, Work (Wrote 17), Work SyncOk, Work (Tick False None), Work (Leave True)]"
  have run: "run_actions aof_do ?as ([], sample_writer kAlways) \<noteq> None"
    and st: "aof_stopping (snd (sample_after ?as))" "aof_pc (snd (sample_after ?as)) = Exited"
      "aof_failure (snd (sample_after ?as)) = None" "fst (sample_after ?as) = [[''SET'', ''a'', ''1''], [''DEL'', ''a'']]"
    by (simp_all add: sample_after_def sample_run Stop_Aof_def)
  have "reaches aof_do ([], sample_writer kAlways) (fst (sample_after ?as), snd (sample_after ?as))"
    using sample_after_reaches [OF run] by simp
  from aof_shutdown_drains [OF sample_writer this st(1)]
  have "aof_file (snd (sample_after ?as)) = log_bytes [[''PING'']] @ log_bytes (fst (sample_after ?as))"
    using st(2,3) by blast
  then have "aof_file (snd (sample_after ?as)) = log_bytes [[''PING''], [''SET'', ''a'', ''1''], [''DEL'', ''a'']]"
    by (simp only: st(4) log_bytes_simps append_Nil2 append_assoc)
  with st(2) show ?thesis by simp
qed

text \<open>
  C34. Corruption is reported, not repaired: if whole records are followed by bytes that no command can
  begin with, \<open>Replay\<close> applies the records before them, fails with the byte offset and the parser's
  message, and leaves the file as it is.
\<close>

theorem Replay_reports_corruption:
  assumes "\<forall>c \<in> set cs. valid_command default_parser c"
    and "ParseCommand default_parser rest = kError message"
  shows "Replay (\<lambda>c s. (Inr (), f c s)) truncate_incomplete resize_error (Some (log_bytes cs @ rest)) s =
    (Inl (runtime_error (''corrupt AOF at byte '' @ to_string (int (length (log_bytes cs))) @ '': '' @ message)),
     Some (log_bytes cs @ rest), fold f cs s)"
  using Replay_loop_corrupt [OF assms, of f "[]" 0 s] by (simp add: Replay_def)

theorem Replay_reports_corruption_witness:
  "fst (Replay (\<lambda>c s. (Inr (), s @ [c])) True None (Some (log_bytes [[''PING'']] @ ''?'' @ CRLF)) []) =
     Inl (runtime_error ''corrupt AOF at byte 14: unknown RESP type byte'')"
proof -
  have e: "ParseCommand default_parser (''?'' @ CRLF) = kError ''unknown RESP type byte''"
    by (simp add: ParseCommand_def Parse_def ParseValue.simps default_parser_def)
  have l: "to_string (int (length (EncodeCommand [''PING'']))) = ''14''" by code_simp
  show ?thesis
    using Replay_reports_corruption [OF sample_valid e, of "\<lambda>c s. s @ [c]" True None "[]"] l by simp
qed

end
