(* ===== verification/Snapshot.thy ===== *)
theory Snapshot
  imports Aof_Theorems Kv_Store
begin

text \<open>
  Snapshots: src/include/cachefly/persist/snapshot.h, src/include/cachefly/persist/snapshot_impl.h and
  src/src/persist/snapshot.cpp.

  \<open>Save\<close> is cut at its system calls; the label of a step is what the operating system answers.  The
  disk keeps the names and contents the running system sees and, beside them, what is known to survive
  a crash: the directory as of its last \<open>fsync\<close>, and for each file whether \<open>fdatasync\<close> has covered it.  The
  model has the one directory that \<open>path\<close> lives in.
\<close>

subsection \<open>The disk\<close>

record disk =
  dir_names :: "string \<Rightarrow> nat option"
  dir_synced :: "string \<Rightarrow> nat option"
  contents :: "nat \<Rightarrow> string"
  content_synced :: "nat \<Rightarrow> bool"
  next_inode :: nat

text \<open>\<open>open\<close> with \<open>O_CREAT | O_TRUNC\<close>.\<close>

definition disk_open_trunc :: "string \<Rightarrow> disk \<Rightarrow> nat \<times> disk" where
  "disk_open_trunc file_name d =
     (case dir_names d file_name of
        Some i \<Rightarrow> (i, d\<lparr>contents := (contents d)(i := []), content_synced := (content_synced d)(i := False)\<rparr>)
      | None \<Rightarrow>
          (let i = next_inode d
           in (i, d\<lparr>dir_names := (dir_names d)(file_name \<mapsto> i), contents := (contents d)(i := []),
                 content_synced := (content_synced d)(i := False), next_inode := Suc i\<rparr>)))"

definition disk_write :: "nat \<Rightarrow> string \<Rightarrow> disk \<Rightarrow> disk" where
  "disk_write i bytes d =
     d\<lparr>contents := (contents d)(i := contents d i @ bytes), content_synced := (content_synced d)(i := False)\<rparr>"

definition disk_fdatasync :: "nat \<Rightarrow> disk \<Rightarrow> disk" where
  "disk_fdatasync i d = d\<lparr>content_synced := (content_synced d)(i := True)\<rparr>"

definition disk_fsync_directory :: "disk \<Rightarrow> disk" where
  "disk_fsync_directory d = d\<lparr>dir_synced := dir_names d\<rparr>"

definition disk_rename :: "string \<Rightarrow> string \<Rightarrow> disk \<Rightarrow> disk" where
  "disk_rename old new d = d\<lparr>dir_names := (dir_names d)(new := dir_names d old, old := None)\<rparr>"

definition disk_remove :: "string \<Rightarrow> disk \<Rightarrow> disk" where
  "disk_remove file_name d = d\<lparr>dir_names := (dir_names d)(file_name := None)\<rparr>"

text \<open>
  After a crash every name stands for what it stood for now or at the last \<open>fsync\<close> of the directory;
  a file that is not synced may hold anything.
\<close>

definition survives :: "disk \<Rightarrow> string \<Rightarrow> string option \<Rightarrow> bool" where
  "survives d file_name after \<longleftrightarrow>
     (\<exists>found \<in> {dir_names d file_name, dir_synced d file_name}.
        case found of
          None \<Rightarrow> after = None
        | Some i \<Rightarrow> after \<noteq> None \<and> (content_synced d i \<longrightarrow> after = Some (contents d i)))"

subsection \<open>Save\<close>

definition entry_command :: "SnapshotEntry \<Rightarrow> string list" where
  "entry_command entry =
     [''SET'', snap_key entry, snap_value entry] @
     (case snap_ttl entry of None \<Rightarrow> [] | Some ttl \<Rightarrow> [''PX'', to_string (max 1 ttl)])"

datatype save_pc =
    OpenDirectory
  | OpenTemporary
  | WriteEntries "SnapshotEntry list" nat
  | SyncOutput
  | SyncDirectory
  | ReplaceSnapshot
  | SyncReplaced
  | Cleanup std_exception
  | Saved
  | SaveFailed std_exception

record save_state =
  save_path :: string
  save_entries :: "SnapshotEntry list"
  save_output :: nat
  save_pc :: save_pc
  save_disk :: disk

definition temporary :: "save_state \<Rightarrow> string" where
  "temporary s = save_path s @ ''.tmp''"

datatype sys_answer = SysError int | SysOk nat

text \<open>The loop over the entries stands before the next \<open>write\<close>, or before \<open>fdatasync\<close> when none is left.\<close>

definition next_entry :: "SnapshotEntry list \<Rightarrow> save_pc" where
  "next_entry remaining = (if remaining = [] then SyncOutput else WriteEntries remaining 0)"

definition ThrowSystemError :: "int \<Rightarrow> string \<Rightarrow> save_state \<Rightarrow> save_state" where
  "ThrowSystemError errno operation s = s\<lparr>save_pc := Cleanup (system_error errno operation)\<rparr>"

text \<open>One \<open>write\<close> of \<open>WriteAll\<close>.\<close>

definition WriteAll_step :: "SnapshotEntry \<Rightarrow> SnapshotEntry list \<Rightarrow> nat \<Rightarrow> sys_answer \<Rightarrow> save_state \<Rightarrow> save_state option" where
  "WriteAll_step entry rest offset answer s =
     (let data = EncodeCommand (entry_command entry)
      in case answer of
           SysError errno \<Rightarrow>
             if errno = EINTR then Some s else Some (ThrowSystemError errno ''write snapshot'' s)
         | SysOk written \<Rightarrow>
             if written > length data - offset then None
             else if written = 0 then Some (s\<lparr>save_pc := Cleanup (runtime_error ''snapshot write made no progress'')\<rparr>)
             else Some (s\<lparr>save_disk := disk_write (save_output s) (take written (drop offset data)) (save_disk s),
                    save_pc := (if offset + written < length data then WriteEntries (entry # rest) (offset + written)
                                else next_entry rest)\<rparr>))"

fun Save_step :: "sys_answer \<Rightarrow> save_state \<Rightarrow> save_state option" where
  "Save_step answer s =
     (case (save_pc s, answer) of
        (OpenDirectory, SysError errno) \<Rightarrow> Some (ThrowSystemError errno ''open snapshot directory'' s)
      | (OpenDirectory, SysOk _) \<Rightarrow> Some (s\<lparr>save_pc := OpenTemporary\<rparr>)
      | (OpenTemporary, SysError errno) \<Rightarrow> Some (ThrowSystemError errno ''open temporary snapshot'' s)
      | (OpenTemporary, SysOk _) \<Rightarrow>
          (let (output, d) = disk_open_trunc (temporary s) (save_disk s)
           in Some (s\<lparr>save_output := output, save_disk := d, save_pc := next_entry (save_entries s)\<rparr>))
      | (WriteEntries [] _, _) \<Rightarrow> None
      | (WriteEntries (entry # rest) offset, _) \<Rightarrow> WriteAll_step entry rest offset answer s
      | (SyncOutput, SysError errno) \<Rightarrow> Some (ThrowSystemError errno ''fdatasync snapshot'' s)
      | (SyncOutput, SysOk _) \<Rightarrow>
          Some (s\<lparr>save_disk := disk_fdatasync (save_output s) (save_disk s), save_pc := SyncDirectory\<rparr>)
      | (SyncDirectory, SysError errno) \<Rightarrow> Some (ThrowSystemError errno ''fsync snapshot directory'' s)
      | (SyncDirectory, SysOk _) \<Rightarrow>
          Some (s\<lparr>save_disk := disk_fsync_directory (save_disk s), save_pc := ReplaceSnapshot\<rparr>)
      | (ReplaceSnapshot, SysError errno) \<Rightarrow> Some (ThrowSystemError errno ''replace snapshot'' s)
      | (ReplaceSnapshot, SysOk _) \<Rightarrow>
          Some (s\<lparr>save_disk := disk_rename (temporary s) (save_path s) (save_disk s), save_pc := SyncReplaced\<rparr>)
      | (SyncReplaced, SysError errno) \<Rightarrow> Some (ThrowSystemError errno ''fsync replaced snapshot'' s)
      | (SyncReplaced, SysOk _) \<Rightarrow>
          Some (s\<lparr>save_disk := disk_fsync_directory (save_disk s), save_pc := Saved\<rparr>)
      | (Cleanup ex, SysError _) \<Rightarrow> Some (s\<lparr>save_pc := SaveFailed ex\<rparr>)
      | (Cleanup ex, SysOk _) \<Rightarrow>
          Some (s\<lparr>save_disk := disk_remove (temporary s) (save_disk s), save_pc := SaveFailed ex\<rparr>)
      | (Saved, _) \<Rightarrow> None
      | (SaveFailed _, _) \<Rightarrow> None)"

declare Save_step.simps [simp del]

definition Save :: "string \<Rightarrow> SnapshotEntry list \<Rightarrow> disk \<Rightarrow> save_state" where
  "Save path snapshot d =
     \<lparr>save_path = path, save_entries = snapshot, save_output = 0, save_pc = OpenDirectory, save_disk = d\<rparr>"

subsection \<open>Load\<close>

definition Load :: "(string list \<Rightarrow> 's \<Rightarrow> (std_exception + unit) \<times> 's) \<Rightarrow> string option \<Rightarrow> 's \<Rightarrow>
    (std_exception + nat) \<times> string option \<times> 's" where
  "Load callback file_content s = Replay callback False None file_content s"

subsection \<open>Atomic replacement\<close>

definition snapshot_bytes :: "SnapshotEntry list \<Rightarrow> string" where
  "snapshot_bytes es = log_bytes (map entry_command es)"

definition whole :: "nat option \<Rightarrow> SnapshotEntry list \<Rightarrow> disk \<Rightarrow> nat option \<Rightarrow> bool" where
  "whole old es d found \<longleftrightarrow> found = old \<or> (\<exists>i. found = Some i \<and> content_synced d i \<and> contents d i = snapshot_bytes es)"

definition output_open :: "nat option \<Rightarrow> save_state \<Rightarrow> bool" where
  "output_open old s \<longleftrightarrow> dir_names (save_disk s) (temporary s) = Some (save_output s) \<and> Some (save_output s) \<noteq> old \<and>
     dir_names (save_disk s) (save_path s) = old \<and> dir_synced (save_disk s) (save_path s) = old"

text \<open>How far \<open>Save\<close> has come, by its program counter.\<close>

definition save_at :: "nat option \<Rightarrow> save_state \<Rightarrow> bool" where
  "save_at old s \<longleftrightarrow>
     (case save_pc s of
        OpenDirectory \<Rightarrow> dir_names (save_disk s) (save_path s) = old \<and> dir_synced (save_disk s) (save_path s) = old
      | OpenTemporary \<Rightarrow> dir_names (save_disk s) (save_path s) = old \<and> dir_synced (save_disk s) (save_path s) = old
      | WriteEntries rest off \<Rightarrow> output_open old s \<and> rest \<noteq> [] \<and>
          off < length (EncodeCommand (entry_command (hd rest))) \<and>
          (\<exists>before. save_entries s = before @ rest \<and>
             contents (save_disk s) (save_output s) = snapshot_bytes before @ take off (EncodeCommand (entry_command (hd rest))))
      | SyncOutput \<Rightarrow> output_open old s \<and> contents (save_disk s) (save_output s) = snapshot_bytes (save_entries s)
      | SyncDirectory \<Rightarrow> output_open old s \<and> contents (save_disk s) (save_output s) = snapshot_bytes (save_entries s) \<and>
          content_synced (save_disk s) (save_output s)
      | ReplaceSnapshot \<Rightarrow> output_open old s \<and> contents (save_disk s) (save_output s) = snapshot_bytes (save_entries s) \<and>
          content_synced (save_disk s) (save_output s)
      | SyncReplaced \<Rightarrow> whole None (save_entries s) (save_disk s) (dir_names (save_disk s) (save_path s)) \<and>
          dir_names (save_disk s) (save_path s) \<noteq> None
      | Saved \<Rightarrow> whole None (save_entries s) (save_disk s) (dir_names (save_disk s) (save_path s)) \<and>
          dir_names (save_disk s) (save_path s) \<noteq> None \<and>
          dir_synced (save_disk s) (save_path s) = dir_names (save_disk s) (save_path s)
      | _ \<Rightarrow> True)"

definition save_inv :: "string \<Rightarrow> SnapshotEntry list \<Rightarrow> disk \<Rightarrow> save_state \<Rightarrow> bool" where
  "save_inv path es d0 s \<longleftrightarrow>
     (let old = dir_names d0 path; d = save_disk s
      in save_path s = path \<and> save_entries s = es \<and>
         (\<forall>i. old = Some i \<longrightarrow> content_synced d i \<and> contents d i = contents d0 i \<and> i < next_inode d \<and>
            dir_names d (temporary s) \<noteq> Some i) \<and>
         whole old es d (dir_names d path) \<and> whole old es d (dir_synced d path) \<and> save_at old s)"

lemma snapshot_bytes_simps [simp]:
  "snapshot_bytes [] = []" "snapshot_bytes (e # es) = EncodeCommand (entry_command e) @ snapshot_bytes es"
  "snapshot_bytes (es @ fs) = snapshot_bytes es @ snapshot_bytes fs"
  by (simp_all add: snapshot_bytes_def)

lemma EncodeCommand_nonempty [simp]: "EncodeCommand c \<noteq> []"
  by (simp add: EncodeCommand_def)

lemma temporary_neq [simp]: "temporary s \<noteq> save_path s" "save_path s \<noteq> temporary s"
  by (simp_all add: temporary_def)

lemma temporary_update [simp]:
  "temporary (save_pc_update f s) = temporary s" "temporary (save_disk_update g s) = temporary s"
  "temporary (save_output_update h s) = temporary s"
  by (simp_all add: temporary_def)

lemmas disk_ops = disk_open_trunc_def disk_write_def disk_fdatasync_def disk_fsync_directory_def
  disk_rename_def disk_remove_def

lemma save_inv_error:
  "save_inv path es d0 s \<Longrightarrow> save_inv path es d0 (s\<lparr>save_pc := Cleanup ex\<rparr>)"
  by (simp add: save_inv_def save_at_def Let_def)

lemma save_inv_throw:
  "save_inv path es d0 s \<Longrightarrow> save_inv path es d0 (ThrowSystemError errno operation s)"
  by (simp add: ThrowSystemError_def save_inv_error)

lemma save_inv_open:
  assumes inv: "save_inv path es d0 s" and pc: "save_pc s = OpenTemporary"
    and op: "disk_open_trunc (temporary s) (save_disk s) = (i, d)"
  shows "save_inv path es d0 (s\<lparr>save_output := i, save_disk := d, save_pc := next_entry es\<rparr>)"
proof -
  from inv pc have names: "dir_names (save_disk s) path = dir_names d0 path" "dir_synced (save_disk s) path = dir_names d0 path"
    and path: "save_path s = path" and ents: "save_entries s = es"
    by (auto simp: save_inv_def save_at_def Let_def)
  have fresh: "dir_names d0 path \<noteq> Some i"
    using inv op by (auto simp: save_inv_def Let_def disk_open_trunc_def split: option.splits)
  have d: "dir_names d (temporary s) = Some i" "dir_names d path = dir_names d0 path" "dir_synced d path = dir_names d0 path"
    "contents d i = []" "\<And>j. j \<noteq> i \<Longrightarrow> contents d j = contents (save_disk s) j \<and> content_synced d j = content_synced (save_disk s) j"
    "next_inode (save_disk s) \<le> next_inode d"
    using op names path by (auto simp: disk_open_trunc_def Let_def split: option.splits)
  have "save_at (dir_names d0 path) (s\<lparr>save_output := i, save_disk := d, save_pc := next_entry es\<rparr>)"
    using d fresh path ents by (auto simp: save_at_def next_entry_def output_open_def)
  then show ?thesis
    using inv d fresh path ents by (auto simp: save_inv_def Let_def whole_def)
qed

lemma save_inv_write:
  assumes inv: "save_inv path es d0 s" and pc: "save_pc s = WriteEntries (e # rest) off"
    and step: "WriteAll_step e rest off answer s = Some s'"
  shows "save_inv path es d0 s'"
proof -
  let ?data = "EncodeCommand (entry_command e)"
  from inv pc obtain before where at: "output_open (dir_names d0 path) s" "off < length ?data" "es = before @ e # rest"
    "contents (save_disk s) (save_output s) = snapshot_bytes before @ take off ?data"
    and path: "save_path s = path" and ents: "save_entries s = es"
    by (auto simp: save_inv_def save_at_def Let_def)
  show ?thesis
  proof (cases "\<exists>n. answer = SysOk n \<and> 0 < n")
    case False
    with step inv show ?thesis
      by (auto simp: WriteAll_step_def Let_def save_inv_throw save_inv_error split: sys_answer.splits if_splits)
  next
    case True
    then obtain n where n: "answer = SysOk n" "0 < n" by blast
    let ?d = "disk_write (save_output s) (take n (drop off ?data)) (save_disk s)"
    let ?pc = "if off + n < length ?data then WriteEntries (e # rest) (off + n) else next_entry rest"
    from step n have s': "s' = s\<lparr>save_disk := ?d, save_pc := ?pc\<rparr>" and le: "n \<le> length ?data - off"
      by (auto simp: WriteAll_step_def Let_def split: if_splits)
    have c: "contents ?d (save_output s) = snapshot_bytes before @ take (off + n) ?data"
      using at(4) by (simp add: disk_write_def take_add)
    have "save_at (dir_names d0 path) s'"
    proof (cases "off + n < length ?data")
      case True
      with at c path ents show ?thesis
        by (auto simp: s' save_at_def output_open_def disk_write_def)
    next
      case False
      then have full: "contents ?d (save_output s) = snapshot_bytes (before @ [e])" using c by simp
      from at have "output_open (dir_names d0 path) (s\<lparr>save_disk := ?d, save_pc := next_entry rest\<rparr>)"
        by (simp add: output_open_def disk_write_def)
      with False full at(3) ents show ?thesis
        by (auto simp: s' save_at_def next_entry_def intro!: exI [of _ "before @ [e]"])
    qed
    with inv at(1) path show ?thesis
      by (auto simp: save_inv_def Let_def s' disk_write_def whole_def output_open_def)
  qed
qed

lemma save_inv_replace:
  assumes inv: "save_inv path es d0 s" and pc: "save_pc s = ReplaceSnapshot"
  shows "save_inv path es d0
    (s\<lparr>save_disk := disk_rename (temporary s) (save_path s) (save_disk s), save_pc := SyncReplaced\<rparr>)"
  using inv pc
  by (auto simp: save_inv_def save_at_def Let_def whole_def output_open_def disk_rename_def)

lemma save_inv_sync_output:
  assumes inv: "save_inv path es d0 s" and pc: "save_pc s = SyncOutput"
  shows "save_inv path es d0 (s\<lparr>save_disk := disk_fdatasync (save_output s) (save_disk s), save_pc := SyncDirectory\<rparr>)"
  using inv pc
  by (auto simp: save_inv_def save_at_def Let_def whole_def output_open_def disk_fdatasync_def)

lemma save_inv_sync_directory:
  assumes inv: "save_inv path es d0 s" and pc: "save_pc s = SyncDirectory"
  shows "save_inv path es d0 (s\<lparr>save_disk := disk_fsync_directory (save_disk s), save_pc := ReplaceSnapshot\<rparr>)"
  using inv pc
  by (auto simp: save_inv_def save_at_def Let_def whole_def output_open_def disk_fsync_directory_def)

lemma save_inv_sync_replaced:
  assumes inv: "save_inv path es d0 s" and pc: "save_pc s = SyncReplaced"
  shows "save_inv path es d0 (s\<lparr>save_disk := disk_fsync_directory (save_disk s), save_pc := Saved\<rparr>)"
  using inv pc
  by (auto simp: save_inv_def save_at_def Let_def whole_def disk_fsync_directory_def)

lemma save_inv_cleanup:
  assumes inv: "save_inv path es d0 s" and "save_pc s = Cleanup ex"
  shows "save_inv path es d0 (s\<lparr>save_disk := disk_remove (temporary s) (save_disk s), save_pc := SaveFailed ex\<rparr>)"
proof -
  have "temporary s \<noteq> path" using inv temporary_neq(1) [of s] by (simp add: save_inv_def Let_def)
  with inv show ?thesis by (auto simp: save_inv_def save_at_def Let_def whole_def disk_remove_def)
qed

interpretation save_machine: inductive_invariant Save_step "save_inv path es d0" for path es d0
proof
  fix s a s'
  assume inv: "save_inv path es d0 s" and step: "Save_step a s = Some s'"
  have ents: "save_entries s = es" using inv by (simp add: save_inv_def Let_def)
  show "save_inv path es d0 s'"
  proof (cases "save_pc s")
    case OpenDirectory
    with step inv show ?thesis
      by (cases a) (auto simp: Save_step.simps save_inv_throw, auto simp: save_inv_def save_at_def Let_def)
  next
    case OpenTemporary
    with step inv ents show ?thesis
      by (cases a) (auto simp: Save_step.simps save_inv_throw intro: save_inv_open split: prod.splits)
  next
    case (WriteEntries rest off)
    with step inv show ?thesis
      by (cases rest) (auto simp: Save_step.simps intro: save_inv_write)
  next
    case SyncOutput
    with step inv show ?thesis by (cases a) (auto simp: Save_step.simps save_inv_throw save_inv_sync_output)
  next
    case SyncDirectory
    with step inv show ?thesis by (cases a) (auto simp: Save_step.simps save_inv_throw save_inv_sync_directory)
  next
    case ReplaceSnapshot
    with step inv show ?thesis by (cases a) (auto simp: Save_step.simps save_inv_throw save_inv_replace)
  next
    case SyncReplaced
    with step inv show ?thesis by (cases a) (auto simp: Save_step.simps save_inv_throw save_inv_sync_replaced)
  next
    case (Cleanup ex)
    with step inv show ?thesis
      by (cases a) (auto simp: Save_step.simps save_inv_cleanup, auto simp: save_inv_def save_at_def Let_def)
  qed (use step in \<open>simp_all add: Save_step.simps\<close>)
qed

definition intact :: "string \<Rightarrow> disk \<Rightarrow> bool" where
  "intact path d \<longleftrightarrow> dir_synced d path = dir_names d path \<and>
     (\<forall>i. dir_names d path = Some i \<longrightarrow> content_synced d i \<and> i < next_inode d \<and> dir_names d (path @ ''.tmp'') \<noteq> Some i)"

lemma save_inv_start: "intact path d \<Longrightarrow> save_inv path es d (Save path es d)"
  by (auto simp: intact_def save_inv_def save_at_def Let_def Save_def whole_def temporary_def)

lemma whole_content:
  assumes "save_inv path es d0 s" and "survives (save_disk s) path after"
  shows "after = map_option (contents d0) (dir_names d0 path) \<or> after = Some (snapshot_bytes es)"
proof -
  from assms(2) obtain found where found: "found \<in> {dir_names (save_disk s) path, dir_synced (save_disk s) path}"
    "case found of None \<Rightarrow> after = None
     | Some i \<Rightarrow> after \<noteq> None \<and> (content_synced (save_disk s) i \<longrightarrow> after = Some (contents (save_disk s) i))"
    unfolding survives_def by blast
  then have "whole (dir_names d0 path) es (save_disk s) found" using assms(1) by (auto simp: save_inv_def Let_def)
  then consider "found = dir_names d0 path"
    | i where "found = Some i" "content_synced (save_disk s) i" "contents (save_disk s) i = snapshot_bytes es"
    unfolding whole_def by blast
  then show ?thesis
  proof cases
    case 1
    have old: "dir_names d0 path = Some i \<Longrightarrow> content_synced (save_disk s) i \<and> contents (save_disk s) i = contents d0 i" for i
      using assms(1) by (simp add: save_inv_def Let_def)
    show ?thesis using found(2) old 1 by (cases "dir_names d0 path") auto
  next
    case 2
    then show ?thesis using found(2) by simp
  qed
qed

subsection \<open>Properties\<close>

text \<open>
  C11. A snapshot is replaced atomically: crash during \<open>Save\<close> after any number of system calls, whatever
  they answered, and the snapshot file is either the previous one, untouched, or the new one, complete;
  after a successful return it is the new one.
\<close>

theorem Save_replaces_atomically:
  assumes "intact path d" and "reaches Save_step (Save path es d) s" and "survives (save_disk s) path after"
  shows "(after = map_option (contents d) (dir_names d path) \<or> after = Some (snapshot_bytes es)) \<and>
    (save_pc s = Saved \<longrightarrow> after = Some (snapshot_bytes es))"
proof -
  have inv: "save_inv path es d s"
    by (rule save_machine.on_reaches [OF assms(2)]) (rule save_inv_start [OF assms(1)])
  have "after = Some (snapshot_bytes es)" if "save_pc s = Saved"
    using inv that assms(3) by (auto simp: save_inv_def save_at_def Let_def whole_def survives_def)
  then show ?thesis using whole_content [OF inv assms(3)] by blast
qed

definition sample_disk :: disk where
  "sample_disk = \<lparr>dir_names = [''db'' \<mapsto> 0], dir_synced = [''db'' \<mapsto> 0], contents = (\<lambda>i. if i = 0 then ''old'' else []),
     content_synced = (\<lambda>i. i = 0), next_inode = 1\<rparr>"

definition sample_entries :: "SnapshotEntry list" where
  "sample_entries = [\<lparr>snap_key = ''k'', snap_value = ''v'', snap_ttl = Some 0\<rparr>]"

text \<open>The two disks: torn in the middle of the write, and after a complete save.\<close>

definition sample_save :: "nat \<Rightarrow> save_state" where
  "sample_save n = the (run_actions Save_step
     (take n [SysOk 0, SysOk 0, SysOk 10, SysError EINTR, SysOk 32, SysOk 0, SysOk 0, SysOk 0, SysOk 0]) (Save ''db'' sample_entries sample_disk))"

lemma sample_entry_bytes: "length (EncodeCommand (entry_command \<lparr>snap_key = ''k'', snap_value = ''v'', snap_ttl = Some 0\<rparr>)) = 42"
  by code_simp

lemmas sample_save_defs = sample_save_def sample_entries_def sample_disk_def Save_def Save_step.simps WriteAll_step_def
  sample_entry_bytes next_entry_def disk_ops EINTR_def temporary_def Let_def

lemma sample_save_run:
  "run_actions Save_step
     [SysOk 0, SysOk 0, SysOk 10, SysError EINTR, SysOk 32, SysOk 0, SysOk 0, SysOk 0, SysOk 0] (Save ''db'' sample_entries sample_disk) =
     Some (sample_save 9)"
  "run_actions Save_step [SysOk 0, SysOk 0, SysOk 10] (Save ''db'' sample_entries sample_disk) = Some (sample_save 3)"
  by (simp_all add: sample_save_defs)

theorem Save_replaces_atomically_witness:
  "save_pc (sample_save 9) = Saved \<and>
   survives (save_disk (sample_save 9)) ''db'' (Some (snapshot_bytes sample_entries)) \<and>
   survives (save_disk (sample_save 3)) ''db'' (Some ''old'') \<and> Some ''old'' \<noteq> Some (snapshot_bytes sample_entries)"
proof -
  have ok: "intact ''db'' sample_disk" by (simp add: intact_def sample_disk_def)
  have pc: "save_pc (sample_save 9) = Saved" by (simp add: sample_save_defs)
  obtain i where i: "dir_names (save_disk (sample_save 9)) ''db'' = Some i" by (simp add: sample_save_defs)
  have "survives (save_disk (sample_save 9)) ''db'' (Some (contents (save_disk (sample_save 9)) i))"
    using i by (simp add: survives_def)
  moreover from this have "Some (contents (save_disk (sample_save 9)) i) = Some (snapshot_bytes sample_entries)"
    using Save_replaces_atomically [OF ok run_actions_reaches [OF sample_save_run(1)]] pc by blast
  moreover have "survives (save_disk (sample_save 3)) ''db'' (Some ''old'')"
    by (simp add: survives_def sample_save_defs)
  moreover have "Some ''old'' \<noteq> Some (snapshot_bytes sample_entries)"
  proof
    assume "Some ''old'' = Some (snapshot_bytes sample_entries)"
    then have "length ''old'' = length (snapshot_bytes sample_entries)" by (simp only: option.inject)
    then show False using sample_entry_bytes by (simp add: sample_entries_def)
  qed
  ultimately show ?thesis using pc by (simp only: simp_thms)
qed

end
