(* ===== verification/Recovery.thy ===== *)
theory Recovery
  imports Shard_Ownership Snapshot
begin

text \<open>
  Recovery at startup, the first part of src/src/main.cpp: the commands of the append-only file or of the
  snapshot run through the executor, before any mutation hook is installed.  The theorem composes the
  snapshot format, the parser, the command layer and the sharded database.
\<close>

subsection \<open>The recovery of main\<close>

definition no_hooks :: "unit MutationHooks" where
  "no_hooks = \<lparr>mutation_callback = None, mutation_guard = None\<rparr>"

text \<open>
  \<open>replay\<close>.  The state is the number of commands run so far, the database and the metrics; \<open>ops n\<close> is the
  interface as the \<open>n\<close>-th command sees it and \<open>elapsed n\<close> its duration.
\<close>

definition replay_command ::
    "(nat \<Rightarrow> nat \<Rightarrow> 'd Database) \<Rightarrow> (nat \<Rightarrow> uint64) \<Rightarrow> string list \<Rightarrow> nat \<times> 'd \<times> Metrics option \<Rightarrow>
     (std_exception + unit) \<times> nat \<times> 'd \<times> Metrics option" where
  "replay_command ops elapsed command st =
     (let (n, d, m) = st;
          (result, d', _, m') = run_command (ops n) no_hooks (elapsed n) command d () m
      in (case result of
            Inl ex \<Rightarrow> Inl ex
          | Inr v \<Rightarrow> (case v of ErrorValue text \<Rightarrow> Inl (runtime_error (''recovery command failed: '' @ text)) | _ \<Rightarrow> Inr ()),
          Suc n, d', m'))"

text \<open>Which file is read: the append-only file if it is enabled, the snapshot otherwise.\<close>

definition recover ::
    "(string list \<Rightarrow> 's \<Rightarrow> (std_exception + unit) \<times> 's) \<Rightarrow> bool \<Rightarrow> bool \<Rightarrow> std_exception option \<Rightarrow>
     string option \<Rightarrow> string option \<Rightarrow> 's \<Rightarrow> (std_exception + nat) \<times> string option \<times> 's" where
  "recover replay appendonly snapshot resize_error aof_content snapshot_content s =
     (if appendonly then Replay replay True resize_error aof_content s
      else if snapshot
      then (case Load replay snapshot_content s of (r, _, s') \<Rightarrow> (r, aof_content, s'))
      else (Inr 0, aof_content, s))"

subsection \<open>Replaying a whole log\<close>

fun replay_all :: "(string list \<Rightarrow> 's \<Rightarrow> (std_exception + unit) \<times> 's) \<Rightarrow> string list list \<Rightarrow> nat \<Rightarrow> 's \<Rightarrow> (std_exception + nat) \<times> 's" where
  "replay_all callback [] cnt s = (Inr cnt, s)"
| "replay_all callback (c # cs) cnt s =
     (case callback c s of (Inl ex, s') \<Rightarrow> (Inl ex, s') | (Inr _, s') \<Rightarrow> replay_all callback cs (Suc cnt) s')"

lemma Replay_loop_all:
  assumes "\<forall>c \<in> set cs. valid_command default_parser c"
  shows "Replay_loop callback (pre @ log_bytes cs) (length pre) cnt s =
    (case replay_all callback cs cnt s of
       (Inl ex, s') \<Rightarrow> (Inl ex, s')
     | (Inr n, s') \<Rightarrow> (Inr (n, length pre + length (log_bytes cs)), s'))"
  using assms
proof (induction cs arbitrary: pre cnt s)
  case Nil
  then show ?case by (subst Replay_loop.simps) simp
next
  case (Cons c cs)
  then have valid: "valid_command default_parser c" by simp
  have "ParseCommand default_parser (EncodeCommand c @ log_bytes cs) = kComplete (length (EncodeCommand c)) c"
    by (rule command_frames.decode_encode [OF valid])
  moreover have "EncodeCommand c \<noteq> []" by (rule command_frames.encode_nonempty [OF valid])
  moreover obtain r s' where "callback c s = (r, s')" by fastforce
  ultimately show ?case
    using Cons.IH [of "pre @ EncodeCommand c" "Suc cnt" s'] Cons.prems
    by (subst Replay_loop.simps) (auto split: sum.split prod.split)
qed

lemma Load_all:
  assumes "\<forall>e \<in> set es. valid_command default_parser (entry_command e)"
  shows "Load callback (Some (snapshot_bytes es)) s =
    (case replay_all callback (map entry_command es) 0 s of (r, s') \<Rightarrow> (r, Some (snapshot_bytes es), s'))"
  using Replay_loop_all [of "map entry_command es" callback "[]" 0 s] assms
  by (auto simp: Load_def Replay_def snapshot_bytes_def split: prod.split sum.split)

subsection \<open>A database that does not evict\<close>

text \<open>
  The contract of a database whose policy forbids eviction, as an extension of the general one: a
  successful \<open>Set\<close> adds its key and touches no other.
\<close>

locale keeping_database = database_contract +
  fixes keeps :: "'b \<Rightarrow> bool"
  assumes Set_keeps: "valid e \<Longrightarrow> inv d \<Longrightarrow> keeps d \<Longrightarrow> db_Set (ops e) req d = (w, d') \<Longrightarrow>
      keeps d' \<and> (w = kOk \<longrightarrow> (\<exists>u. starts e \<le> u \<and> u \<le> ends e \<and>
        (\<forall>t \<ge> ends e. contents t d' = alive t (set_map u req (contents t d)))))"

text \<open>What \<open>SET\<close> asks for when an entry is replayed.\<close>

definition entry_request :: "SnapshotEntry \<Rightarrow> SetRequest" where
  "entry_request e = \<lparr>req_key = snap_key e, req_value = snap_value e, req_ttl = map_option (max 1) (snap_ttl e), req_condition = kNone\<rparr>"

definition entry_in_range :: "SnapshotEntry \<Rightarrow> bool" where
  "entry_in_range e \<longleftrightarrow> (case snap_ttl e of None \<Rightarrow> True | Some ttl \<Rightarrow> ttl \<le> INT64_MAX)"

lemma entry_command_options:
  assumes "entry_in_range e"
  shows "set_options \<lparr>req_key = entry_command e ! 1, req_value = entry_command e ! 2, req_ttl = None, req_condition = kNone\<rparr>
      (drop 3 (entry_command e)) = Inr (entry_request e)"
proof (cases "snap_ttl e")
  case None
  then show ?thesis by (simp add: entry_command_def entry_request_def)
next
  case (Some ttl)
  with assms have "ParseInteger (to_string (max 1 ttl)) = Some (max 1 ttl)"
    by (intro ParseInteger_to_string) (auto simp: in_int64_def entry_in_range_def INT64_MIN_def INT64_MAX_def)
  moreover have "Uppercase ''PX'' = ''PX''" by code_simp
  ultimately show ?thesis using Some by (simp add: entry_command_def entry_request_def Let_def)
qed

definition recovery_oom :: std_exception where
  "recovery_oom = runtime_error (''recovery command failed: '' @ ''OOM command not allowed when used memory > maxmemory'')"

lemma replay_entry:
  assumes "entry_in_range e" and "db_Set (ops n 0) (entry_request e) d = (w, d1)" and "w \<noteq> kConditionFailed"
  shows "\<exists>m'. replay_command ops elapsed (entry_command e) (n, d, m) =
    (if w = kOk then Inr () else Inl recovery_oom, Suc n, d1, m')"
proof -
  have up: "Uppercase (hd (entry_command e)) = ''SET''" by (simp add: entry_command_def) code_simp
  have ne: "entry_command e \<noteq> []" by (simp add: entry_command_def)
  have "handler (command_table (ops n) ! 3) (entry_command e) d = (WriteReply w, d1)"
    using entry_command_options [OF assms(1)] assms(2) by (simp add: command_table_def exec_Set_def)
  moreover have "\<not> wrong_arity (command_table (ops n) ! 3) (entry_command e)"
    by (simp add: command_table_def wrong_arity_def entry_command_def)
  ultimately have "Execute (executor_registry (ops n)) no_hooks (elapsed n) (entry_command e) d () m =
      (Inr (WriteReply w), d1, (), finish (elapsed n) (WriteReply w) m)"
    using Execute_runs [of "executor_registry (ops n)" "entry_command e" "command_table (ops n) ! 3" no_hooks "()" d "WriteReply w" d1 "elapsed n" m]
      up ne by (simp add: no_hooks_def guard_fails_def)
  then show ?thesis
    using assms(3) by (cases w) (auto simp: replay_command_def run_command_def WriteReply_def recovery_oom_def)
qed

lemma alive_set_map: "alive t (set_map u req (alive t m)) = alive t (set_map u req m)"
  by (rule ext) (simp add: alive_def set_map_def split: option.split)

text \<open>The map that replaying entries at the given times stands for.\<close>

definition restored :: "(SnapshotEntry \<times> time_point) list \<Rightarrow> kv_map \<Rightarrow> kv_map" where
  "restored = fold (\<lambda>(e, u). set_map u (entry_request e))"

lemma restored_simps [simp]:
  "restored [] m = m" "restored ((e, u) # xs) m = restored xs (set_map u (entry_request e) m)"
  by (simp_all add: restored_def)

lemma restored_other: "k \<notin> (snap_key \<circ> fst) ` set xs \<Longrightarrow> restored xs m k = m k"
  by (induction xs arbitrary: m) (auto simp: set_map_def entry_request_def)

lemma restored_entry:
  "distinct (map (snap_key \<circ> fst) xs) \<Longrightarrow> (e, u) \<in> set xs \<Longrightarrow>
    restored xs m (snap_key e) = Some (snap_value e, map_option (\<lambda>ms. time_add_ms u (max 1 ms)) (snap_ttl e))"
proof (induction xs arbitrary: m)
  case (Cons x xs)
  show ?case
  proof (cases "x = (e, u)")
    case True
    with Cons.prems have "snap_key e \<notin> (snap_key \<circ> fst) ` set xs" by auto
    with True show ?thesis by (simp add: restored_other set_map_def entry_request_def option.map_comp comp_def)
  next
    case False
    with Cons show ?thesis by (cases x) auto
  qed
qed simp

context keeping_database
begin

lemma replay_one:
  assumes "envs_ok valid starts ends es T" and "inv d" and "keeps d" and "entry_in_range e"
    and "replay_command (\<lambda>n i. ops (env n i)) elapsed (entry_command e) (n, d, m) = (r, n', d', m')" and "env n = es"
  shows "n' = Suc n \<and> inv d' \<and> keeps d' \<and>
    (r = Inl recovery_oom \<or> r = Inr () \<and> (\<exists>u. starts (es 0) \<le> u \<and> u \<le> ends (es 0) \<and>
       (\<forall>t \<ge> T. contents t d' = alive t (set_map u (entry_request e) (contents t d)))))"
proof -
  note e = envs_okD [OF assms(1), of 0]
  obtain w d1 where st: "db_Set (ops (es 0)) (entry_request e) d = (w, d1)" by fastforce
  note law = Set_law [OF e(1) assms(2) st]
  from law have "w \<noteq> kConditionFailed" by (auto simp: entry_request_def set_refused_def)
  from replay_entry [OF assms(4) _ this, of "\<lambda>n i. ops (env n i)" n d d1 elapsed m] st assms(6)
  obtain m1 where "replay_command (\<lambda>n i. ops (env n i)) elapsed (entry_command e) (n, d, m) =
      (if w = kOk then Inr () else Inl recovery_oom, Suc n, d1, m1)" by auto
  with assms(5) have r: "r = (if w = kOk then Inr () else Inl recovery_oom)" "n' = Suc n" "d' = d1" by auto
  from Set_keeps [OF e(1) assms(2,3) st] law r e(2) show ?thesis
    by (auto intro: order_trans)
qed

lemma replay_entries:
  assumes envs: "\<And>n. envs_ok valid starts ends (env n) (T n)" and "inv d" "keeps d" "\<forall>e \<in> set xs. entry_in_range e"
    and "\<And>t. P t \<Longrightarrow> contents t d = alive t M"
    and "replay_all (replay_command (\<lambda>n i. ops (env n i)) elapsed) (map entry_command xs) cnt (n, d, m) = (r, n', d', m')"
  shows "case r of
      Inl ex \<Rightarrow> ex = recovery_oom
    | Inr c \<Rightarrow> c = cnt + length xs \<and> inv d' \<and> keeps d' \<and>
        (\<exists>us. length us = length xs \<and> (\<forall>i < length xs. starts (env (n + i) 0) \<le> us ! i \<and> us ! i \<le> ends (env (n + i) 0)) \<and>
          (\<forall>t. P t \<longrightarrow> (\<forall>i < length xs. T (n + i) \<le> t) \<longrightarrow> contents t d' = alive t (restored (zip xs us) M)))"
  using assms(2-6)
proof (induction xs arbitrary: n d m cnt M P)
  case Nil
  then show ?case by auto
next
  case (Cons e xs)
  obtain r1 n1 d1 m1 where one: "replay_command (\<lambda>n i. ops (env n i)) elapsed (entry_command e) (n, d, m) = (r1, n1, d1, m1)"
    by (metis prod_cases4)
  from replay_one [OF envs Cons.prems(1,2) _ one refl] Cons.prems(3)
  have n1: "n1 = Suc n" "inv d1" "keeps d1" and
    res: "r1 = Inl recovery_oom \<or> r1 = Inr () \<and> (\<exists>u. starts (env n 0) \<le> u \<and> u \<le> ends (env n 0) \<and>
       (\<forall>t \<ge> T n. contents t d1 = alive t (set_map u (entry_request e) (contents t d))))" by auto
  show ?case
  proof (cases "r1 = Inr ()")
    case False
    with res one Cons.prems(5) show ?thesis by auto
  next
    case True
    with res obtain u where u: "starts (env n 0) \<le> u" "u \<le> ends (env n 0)"
      "\<And>t. T n \<le> t \<Longrightarrow> contents t d1 = alive t (set_map u (entry_request e) (contents t d))" by auto
    have d1: "contents t d1 = alive t (set_map u (entry_request e) M)" if "P t \<and> T n \<le> t" for t
      using u(3) [of t] Cons.prems(4) [of t] that by (simp add: alive_set_map)
    from True one n1 Cons.prems(5)
    have rest: "replay_all (replay_command (\<lambda>n i. ops (env n i)) elapsed) (map entry_command xs) (Suc cnt) (Suc n, d1, m1) = (r, n', d', m')"
      by simp
    have ih: "case r of
        Inl ex \<Rightarrow> ex = recovery_oom
      | Inr c \<Rightarrow> c = Suc cnt + length xs \<and> inv d' \<and> keeps d' \<and>
          (\<exists>us. length us = length xs \<and> (\<forall>i < length xs. starts (env (Suc n + i) 0) \<le> us ! i \<and> us ! i \<le> ends (env (Suc n + i) 0)) \<and>
            (\<forall>t. P t \<and> T n \<le> t \<longrightarrow> (\<forall>i < length xs. T (Suc n + i) \<le> t) \<longrightarrow>
              contents t d' = alive t (restored (zip xs us) (set_map u (entry_request e) M))))"
      using Cons.prems(3) by (intro Cons.IH [OF n1(2,3) _ d1 rest]) auto
    show ?thesis
    proof (cases r)
      case (Inr c)
      with ih obtain us where us: "length us = length xs" "c = Suc cnt + length xs" "inv d'" "keeps d'"
        "\<And>i. i < length xs \<Longrightarrow> starts (env (Suc n + i) 0) \<le> us ! i \<and> us ! i \<le> ends (env (Suc n + i) 0)"
        "\<And>t. P t \<Longrightarrow> T n \<le> t \<Longrightarrow> (\<forall>i < length xs. T (Suc n + i) \<le> t) \<Longrightarrow>
          contents t d' = alive t (restored (zip xs us) (set_map u (entry_request e) M))" by auto
      have "\<forall>i < length (e # xs). starts (env (n + i) 0) \<le> (u # us) ! i \<and> (u # us) ! i \<le> ends (env (n + i) 0)"
        using us(5) u(1,2) by (auto simp: less_Suc_eq_0_disj)
      moreover have "contents t d' = alive t (restored (zip (e # xs) (u # us)) M)"
        if pt: "P t" and late: "\<forall>i < length (e # xs). T (n + i) \<le> t" for t
      proof -
        have "T (Suc n + i) \<le> t" if "i < length xs" for i using late that by (auto dest: spec [of _ "Suc i"])
        moreover have "T n \<le> t" using late by (auto dest: spec [of _ 0])
        ultimately show ?thesis using us(6) [of t] pt by simp
      qed
      ultimately show ?thesis using Inr us(1-4) by (auto intro!: exI [of _ "u # us"])
    qed (use ih in simp)
  qed
qed

end

subsection \<open>The sharded database without eviction\<close>

definition no_eviction :: "KvStore list \<Rightarrow> bool" where
  "no_eviction d \<longleftrightarrow> (\<forall>s \<in> set d. policy s = kNoEviction)"

lemma find_live_policy: "find_live now k s = (found, s') \<Longrightarrow> policy s' = policy s"
  using find_live_Some(1) [of now k s _ s'] find_live_None(4) [of now k s s'] by (cases found) auto

lemma kv_Set_policy:
  assumes "kv_wf s" and "kv_Set now ho req s = (r, s')"
  shows "policy s' = policy s"
proof (rule kv_Set_cases [OF assms])
  fix found s1 s2 E
  assume "find_live now (req_key req) s = (found, s1)" "evicts s1 s2 E"
    and s': "s' = s2\<lparr>memory_usage := memory_usage s', access_clock := access_clock s2 + 1,
        entries := um_insert_or_assign ho (req_key req) (new_entry now req s2) (entries s2)\<rparr>"
  then have "policy s2 = policy s" by (simp add: find_live_policy evicts_def)
  with arg_cong [OF s', of policy] show ?thesis by simp
qed (auto dest: find_live_policy)

lemma sh_Set_keeps:
  assumes "call_valid ce" and "sh_wf d" and "no_eviction d" and "sh_Set hash ce req d = (w, d')"
  shows "no_eviction d' \<and> (w = kOk \<longrightarrow> (\<exists>u. c_start ce \<le> u \<and> u \<le> c_end ce \<and>
    (\<forall>t \<ge> c_end ce. sh_view hash t d' = alive t (set_map u req (sh_view hash t d)))))"
proof -
  note c = call_validD [OF assms(1), of 0]
  let ?i = "ShardForKey hash d (req_key req)" and ?now = "env_now (kenv (c_task ce 0))"
  let ?s0 = "fold expire_pass (passes (c_task ce 0)) (d ! ?i)"
  have i: "?i < length d" using assms(2) by (simp add: sh_wf_def)
  have "\<forall>p \<in> set (passes (c_task ce 0)). p \<le> ?now" using c(1) by (simp add: task_valid_def)
  from passes_spec [OF _ this, of "d ! ?i"] assms(2,3) i
  have s0: "kv_wf ?s0" "policy ?s0 = kNoEviction" "\<And>t. ?now \<le> t \<Longrightarrow> view t ?s0 = view t (d ! ?i)"
    by (auto simp: sh_wf_def no_eviction_def)
  obtain s' where s': "kv_Set ?now (env_map (kenv (c_task ce 0))) req ?s0 = (w, s')" "d' = d[?i := s']"
    using assms(4) by (auto simp: sh_Set_def Submit_def run_task_def split: prod.splits)
  have "no_eviction d'"
    using assms(3) kv_Set_policy [OF s0(1) s'(1)] s0(2) s'(2)
    by (auto simp: no_eviction_def dest!: set_update_subset_insert [THEN subsetD])
  moreover have "sh_view hash t d' = alive t (set_map ?now req (sh_view hash t d))" if "w = kOk" "c_end ce \<le> t" for t
  proof -
    have "view t s' = alive t (set_map ?now req (view t ?s0 |` (- {})))"
      using kv_Set_view [OF s0(1) s'(1)] that s0(2) c(5) by auto
    then have "sh_view hash t d' = alive t (set_map ?now req (sh_view hash t d |` (- {k \<in> {}. ShardForKey hash d k = ?i})))"
      using s0(3) c(5) that by (intro sh_view_lift [OF i s'(2), where ?s0.0 = ?s0]) (auto simp: set_map_other)
    then show ?thesis by simp
  qed
  ultimately show ?thesis using c(2,5) by blast
qed

interpretation sharded_keeps: keeping_database "sharded_database hash" sh_wf "sh_view hash" call_valid c_start c_end no_eviction
  for hash
  by unfold_locales (use sh_Set_keeps in simp)

lemma new_database_keeps:
  assumes "new_ShardedDatabase n mm kNoEviction met = Inr d"
  shows "sh_wf d \<and> no_eviction d \<and> sh_view hash t d = Map.empty"
proof -
  have d: "d = map (\<lambda>i. new_KvStore (shard_budget mm n i) kNoEviction met) [0..<n]" "n \<noteq> 0"
    using assms by (auto simp: new_ShardedDatabase_def new_Shard_def split: if_splits)
  then have "d \<noteq> []" by simp
  have empty: "entries s = [] \<and> kv_wf s \<and> policy s = kNoEviction" if "s \<in> set d" for s
    using that d by (auto simp: new_KvStore_def kv_wf_def um_wf_def)
  have "sh_view hash t d k = None" for k
    using empty [of "d ! ShardForKey hash d k"] \<open>d \<noteq> []\<close> by (simp add: sh_view_def view_def alive_def stored_def um_find_Nil)
  with empty \<open>d \<noteq> []\<close> show ?thesis by (auto simp: sh_wf_def no_eviction_def)
qed

text \<open>
  Loading the entries that \<open>Save\<close> wrote (with distinct keys and within the limits of the parser) into a new
  database that does not evict, with any number of shards.
\<close>

lemma recover_entries:
  assumes "new_ShardedDatabase shards mm kNoEviction met = Inr d0" and "\<forall>n. commands_ok (env n) (T n)"
    and "distinct (map snap_key es)" and "\<forall>e \<in> set es. entry_in_range e \<and> valid_command default_parser (entry_command e)"
    and "recover (replay_command (\<lambda>n i. sharded_database hash (env n i)) elapsed) False True resize_error aof_content
      (Some (snapshot_bytes es)) (0, d0, m) = (r, a, n, d, m')"
  shows "case r of
      Inl ex \<Rightarrow> ex = recovery_oom
    | Inr c \<Rightarrow> c = length es \<and>
        (\<exists>us. length us = length es \<and> (\<forall>i < length es. c_start (env i 0) \<le> us ! i \<and> us ! i \<le> c_end (env i 0)) \<and>
          (\<forall>t. (\<forall>i < length es. T i \<le> t) \<longrightarrow>
            (\<forall>k. k \<notin> snap_key ` set es \<longrightarrow> sh_view hash t d k = None) \<and>
            (\<forall>i < length es. sh_view hash t d (snap_key (es ! i)) =
              (let x = map_option (\<lambda>ms. time_add_ms (us ! i) (max 1 ms)) (snap_ttl (es ! i))
               in if expired_at t x then None else Some (snap_value (es ! i), x)))))"
proof -
  let ?replay = "replay_command (\<lambda>n i. sharded_database hash (env n i)) elapsed"
  have env: "envs_ok call_valid c_start c_end (env n) (T n)" for n using assms(2) by (simp add: commands_ok_def)
  note new = new_database_keeps [OF assms(1), of hash]
  have "replay_all ?replay (map entry_command es) 0 (0, d0, m) = (r, n, d, m')"
    using assms(4,5) by (auto simp: recover_def Load_all split: prod.splits)
  from sharded_keeps.replay_entries [where env = env and T = T and P = "\<lambda>_. True" and M = Map.empty, OF env _ _ _ _ this]
  have res: "case r of
      Inl ex \<Rightarrow> ex = recovery_oom
    | Inr c \<Rightarrow> c = length es \<and> (\<exists>us. length us = length es \<and>
        (\<forall>i < length es. c_start (env i 0) \<le> us ! i \<and> us ! i \<le> c_end (env i 0)) \<and>
        (\<forall>t. (\<forall>i < length es. T i \<le> t) \<longrightarrow> sh_view hash t d = alive t (restored (zip es us) Map.empty)))"
    using new assms(4) by (auto simp: alive_def fun_eq_iff split: sum.splits)
  show ?thesis
  proof (cases r)
    case (Inr c)
    with res obtain us where us: "c = length es" "length us = length es"
      "\<And>i. i < length es \<Longrightarrow> c_start (env i 0) \<le> us ! i \<and> us ! i \<le> c_end (env i 0)"
      "\<And>t. \<forall>i < length es. T i \<le> t \<Longrightarrow> sh_view hash t d = alive t (restored (zip es us) Map.empty)" by auto
    have "map (snap_key \<circ> fst) (zip es us) = map snap_key (map fst (zip es us))" by simp
    then have keys: "map (snap_key \<circ> fst) (zip es us) = map snap_key es" using us(2) by (simp only: map_fst_zip)
    then have key_set: "(snap_key \<circ> fst) ` set (zip es us) = snap_key ` set es" by (metis set_map)
    have "restored (zip es us) Map.empty k = None" if "k \<notin> snap_key ` set es" for k
      using restored_other [of k "zip es us" Map.empty] that key_set by simp
    moreover have "restored (zip es us) Map.empty (snap_key (es ! i)) =
        Some (snap_value (es ! i), map_option (\<lambda>ms. time_add_ms (us ! i) (max 1 ms)) (snap_ttl (es ! i)))" if "i < length es" for i
    proof (rule restored_entry)
      show "distinct (map (snap_key \<circ> fst) (zip es us))" unfolding keys by (rule assms(3))
      show "(es ! i, us ! i) \<in> set (zip es us)" using that us(2) by (auto simp: in_set_zip)
    qed
    ultimately show ?thesis
      using Inr us by (auto simp: alive_def Let_def intro!: exI [of _ us])
  qed (use res in simp)
qed

lemma snap_map_entry:
  assumes "distinct (map snap_key es)" and "i < length es"
  shows "snap_map es (snap_key (es ! i)) = Some (snap_value (es ! i), snap_ttl (es ! i))"
  unfolding snap_map_def
proof (rule map_of_is_SomeI)
  have "map fst (map (\<lambda>e. (snap_key e, snap_value e, snap_ttl e)) es) = map snap_key es" by simp
  with assms(1) show "distinct (map fst (map (\<lambda>e. (snap_key e, snap_value e, snap_ttl e)) es))" by argo
qed (use assms(2) in force)

text \<open>The entry of a key after the restart: its value, and the lifetime that was left at \<open>saved\<close>, counted from \<open>loaded\<close>.\<close>

definition restarted :: "time_point \<Rightarrow> time_point \<Rightarrow> string \<times> time_point option \<Rightarrow> string \<times> time_point option" where
  "restarted saved loaded vx =
     (fst vx, map_option (\<lambda>u. loaded + max 1 (time_diff_ms u saved) * 1000000) (snd vx))"

text \<open>
  C8. A restart from a snapshot rebuilds the cache.  Take any database reached by client calls and expiry
  passes, with any number of shards and any eviction policy; let \<open>Snapshot\<close> list it, its shards working at the same time in any
  order, and the file hold what \<open>Save\<close> writes for that list (within the limits of the parser); let main load the file into a new
  database that does not evict, with its own number of shards and hash.  Then startup either stops because the entries do
  not fit in memory, or it reports the number of entries and the new database shows exactly what the old
  one showed when its shards were listed: each live key has its value, a lifetime goes on with what was left of
  it (in whole milliseconds, at least one) from the time its entry is loaded, and there is no other key.  The lifetimes are taken to end
  within the 64-bit nanoseconds of the clock.
\<close>

theorem snapshot_load_restores:
  assumes "new_ShardedDatabase shards0 mm0 pol0 met0 = Inr s0" and "sh_reachable hash0 s0 s"
    and "\<forall>i < length s. task_valid (c_start ce) (c_end ce) (c_task ce i)" and "sh_Snapshot ce s = (es, s')"
    and "new_ShardedDatabase shards mm kNoEviction met = Inr d0" and "\<forall>n. commands_ok (env n) (T n)"
    and "\<forall>e \<in> set es. entry_in_range e \<and> valid_command default_parser (entry_command e)"
    and "\<forall>i < length es. 0 \<le> c_start (env i 0) \<and>
      (\<forall>ms. snap_ttl (es ! i) = Some ms \<longrightarrow> c_end (env i 0) + max 1 ms * 1000000 \<le> INT64_MAX)"
    and "recover (replay_command (\<lambda>n i. sharded_database hash (env n i)) elapsed) False True resize_error aof_content
      (Some (snapshot_bytes es)) (0, d0, m) = (r, a, n, d, m')"
  shows "case r of
      Inl ex \<Rightarrow> ex = recovery_oom
    | Inr c \<Rightarrow> c = length es \<and>
        (\<exists>loaded. (\<forall>k \<in> snap_key ` set es. \<exists>i < length es. c_start (env i 0) \<le> loaded k \<and> loaded k \<le> c_end (env i 0)) \<and>
          (\<forall>t k. (\<forall>i < length es. T i \<le> t) \<longrightarrow>
            (let e = kenv (c_task ce (ShardForKey hash0 s k))
             in sh_view hash t d k =
               alive t (map_option (restarted (env_now2 e) (loaded k)) \<circ> sh_view hash0 (env_now e) s) k)))"
proof (cases r)
  case (Inl ex)
  note owned = sh_reachable_owned [OF assms(1,2)]
  from recover_entries [OF assms(5,6) sh_Snapshot_owned(1) [OF owned assms(3,4)] assms(7,9)] Inl show ?thesis by simp
next
  case (Inr c)
  note owned = sh_reachable_owned [OF assms(1,2)]
  note dist = sh_Snapshot_owned(1) [OF owned assms(3,4)] and listed = sh_Snapshot_owned(2) [OF owned assms(3,4)]
  from recover_entries [OF assms(5,6) dist assms(7,9)] obtain us where
    c: "c = length es" and win: "\<And>i. i < length es \<Longrightarrow> c_start (env i 0) \<le> us ! i \<and> us ! i \<le> c_end (env i 0)" and
    other: "\<And>t k. \<forall>i < length es. T i \<le> t \<Longrightarrow> k \<notin> snap_key ` set es \<Longrightarrow> sh_view hash t d k = None" and
    entry: "\<And>t i. \<forall>i < length es. T i \<le> t \<Longrightarrow> i < length es \<Longrightarrow> sh_view hash t d (snap_key (es ! i)) =
      (let x = map_option (\<lambda>ms. time_add_ms (us ! i) (max 1 ms)) (snap_ttl (es ! i))
       in if expired_at t x then None else Some (snap_value (es ! i), x))"
    unfolding Inr sum.case by blast
  have "\<forall>k \<in> snap_key ` set es. \<exists>i. i < length es \<and> snap_key (es ! i) = k" by (auto simp: in_set_conv_nth)
  then obtain idx where idx: "\<And>k. k \<in> snap_key ` set es \<Longrightarrow> idx k < length es \<and> snap_key (es ! idx k) = k" by metis
  let ?old = "\<lambda>k. sh_view hash0 (env_now (kenv (c_task ce (ShardForKey hash0 s k)))) s k"
  let ?saved = "\<lambda>k. env_now2 (kenv (c_task ce (ShardForKey hash0 s k)))"
  have "sh_view hash t d k = alive t (map_option (restarted (?saved k) (us ! idx k)) \<circ> (\<lambda>k'. ?old k)) k"
    if t: "\<forall>i < length es. T i \<le> t" for t k
  proof (cases "k \<in> snap_key ` set es")
    case True
    with idx have i: "idx k < length es" "snap_key (es ! idx k) = k" by simp_all
    then have "map_option (remaining (?saved k)) (?old k) = Some (snap_value (es ! idx k), snap_ttl (es ! idx k))"
      using snap_map_entry [OF dist i(1)] listed [of k] by (simp add: Let_def)
    then obtain x where "?old k = Some (snap_value (es ! idx k), x)"
      "snap_ttl (es ! idx k) = map_option (\<lambda>u. max 0 (time_diff_ms u (?saved k))) x" by (auto simp: remaining_def)
    moreover have "max 1 (max 0 z) = max 1 z" for z :: int by simp
    moreover have "time_add_ms (us ! idx k) (max 1 ms) = us ! idx k + max 1 ms * 1000000" if "snap_ttl (es ! idx k) = Some ms" for ms
      using win [OF i(1)] assms(8) [rule_format, OF i(1)] that by (intro time_add_ms_exact) auto
    ultimately show ?thesis using entry [OF t i(1)] i(2)
      by (cases x) (simp_all add: alive_def restarted_def option.map_comp comp_def Let_def)
  next
    case False
    then have "?old k = None" using listed [of k] snap_map_None_iff [of es k] by (simp add: Let_def)
    with other [OF t False] show ?thesis by (simp add: alive_def)
  qed
  moreover have "\<forall>k \<in> snap_key ` set es. \<exists>i < length es. c_start (env i 0) \<le> us ! idx k \<and> us ! idx k \<le> c_end (env i 0)"
    using win idx by blast
  ultimately show ?thesis
    unfolding Inr sum.case Let_def using c by (intro conjI exI [of _ "\<lambda>k. us ! idx k"] allI impI) (simp_all add: alive_def)
qed

definition sample_source :: "KvStore list" where
  "sample_source = sh_run sample_hash (sample_call 0) (sample_set ''kk'' ''v'' (Some 7))
     (sh_run sample_hash (sample_call 0) (sample_set ''a'' ''1'' None) (projr (new_ShardedDatabase 2 1000 kLru None)))"

definition sample_snapshot :: "SnapshotEntry list" where
  "sample_snapshot = [\<lparr>snap_key = ''kk'', snap_value = ''v'', snap_ttl = Some 5\<rparr>, \<lparr>snap_key = ''a'', snap_value = ''1'', snap_ttl = None\<rparr>]"

lemma sample_source_reachable:
  "sh_reachable sample_hash (projr (new_ShardedDatabase 2 1000 kLru None)) sample_source"
  unfolding sample_source_def
  by (intro sh_reachable.intros) (simp_all add: sample_set_def pair_size_def sizeof_Entry_def)

lemma sample_source_Snapshot: "fst (sh_Snapshot (sample_call 2000000) sample_source) = sample_snapshot"
  by code_simp

definition sample_recovery :: "(std_exception + nat) \<times> string option \<times> nat \<times> KvStore list \<times> Metrics option" where
  "sample_recovery =
     recover (replay_command (\<lambda>n i. sharded_database sample_hash (sample_commands (int n) i)) (\<lambda>n. 0)) False True None None
       (Some (snapshot_bytes sample_snapshot)) (0, projr (new_ShardedDatabase 2 1000 kNoEviction None), None)"

lemma sample_snapshot_commands:
  "map entry_command sample_snapshot = [[''SET'', ''kk'', ''v'', ''PX'', ''5''], [''SET'', ''a'', ''1'']]"
  by code_simp

lemma sample_snapshot_valid: "\<forall>e \<in> set sample_snapshot. entry_in_range e \<and> valid_command default_parser (entry_command e)"
proof -
  have "\<forall>c \<in> set (map entry_command sample_snapshot). valid_command default_parser c"
    unfolding sample_snapshot_commands
    by (simp add: valid_command_def default_parser_def in_int64_def INT64_MIN_def INT64_MAX_def)
  moreover have "\<forall>e \<in> set sample_snapshot. entry_in_range e"
    by (simp add: sample_snapshot_def entry_in_range_def INT64_MAX_def)
  ultimately show ?thesis by simp
qed

theorem snapshot_load_restores_witness:
  "fst sample_recovery = Inr 2 \<and>
   (let d = fst (snd (snd (snd sample_recovery)))
    in sh_view sample_hash 6 d ''a'' = Some (''1'', None) \<and> sh_view sample_hash 6 d ''b'' = None \<and>
       (\<exists>u \<in> {0, 1}. sh_view sample_hash 6 d ''kk'' = Some (''v'', Some (5000000 + u))))"
proof -
  let ?d0 = "projr (new_ShardedDatabase 2 1000 kNoEviction None)"
  let ?replay = "replay_command (\<lambda>n i. sharded_database sample_hash (sample_commands (int n) i)) (\<lambda>n. 0)"
  have d0: "new_ShardedDatabase 2 1000 kNoEviction None = Inr ?d0" by (simp add: new_ShardedDatabase_def vector_limit_def)
  have s0: "new_ShardedDatabase 2 1000 kLru None = Inr (projr (new_ShardedDatabase 2 1000 kLru None))"
    by (simp add: new_ShardedDatabase_def vector_limit_def)
  have snap: "sh_Snapshot (sample_call 2000000) sample_source = (sample_snapshot, snd (sh_Snapshot (sample_call 2000000) sample_source))"
    by (metis sample_source_Snapshot prod.collapse)
  obtain r a n d m' where run: "sample_recovery = (r, a, n, d, m')" by (metis prod_cases5)
  have "fst (replay_all ?replay (map entry_command sample_snapshot) 0 (0, ?d0, None)) = Inr 2" by code_simp
  then have r: "r = Inr 2"
    using run sample_snapshot_valid by (auto simp: sample_recovery_def recover_def Load_all split: prod.splits)
  have w: "c_start (sample_commands t i) = t" "c_end (sample_commands t i) = t" for t i
    by (simp_all add: sample_commands_def sample_call_def)
  have len: "length sample_snapshot = 2" by (simp add: sample_snapshot_def)
  have ok: "\<forall>n. commands_ok (sample_commands (int n)) (int n)" by simp
  have tasks: "\<forall>i < length sample_source. task_valid (c_start (sample_call 2000000)) (c_end (sample_call 2000000)) (c_task (sample_call 2000000) i)"
    using call_validD(1) [OF sample_call_valid] by blast
  have fits: "\<forall>i < length sample_snapshot. 0 \<le> c_start (sample_commands (int i) 0) \<and>
      (\<forall>ms. snap_ttl (sample_snapshot ! i) = Some ms \<longrightarrow> c_end (sample_commands (int i) 0) + max 1 ms * 1000000 \<le> INT64_MAX)"
    unfolding w len by (auto simp: sample_snapshot_def less_2_cases_iff INT64_MAX_def)
  note main = snapshot_load_restores [where T = int, OF s0 sample_source_reachable tasks snap d0 ok
      sample_snapshot_valid fits run [unfolded sample_recovery_def]]
  have env: "env_now (kenv (c_task (sample_call t) i)) = t" "env_now2 (kenv (c_task (sample_call t) i)) = t" for t i
    by (simp_all add: sample_call_def)
  from main r obtain loaded where
    win: "\<forall>k \<in> snap_key ` set sample_snapshot. \<exists>i < length sample_snapshot.
      c_start (sample_commands (int i) 0) \<le> loaded k \<and> loaded k \<le> c_end (sample_commands (int i) 0)" and
    all: "\<And>t k. (\<forall>i < length sample_snapshot. int i \<le> t) \<Longrightarrow> sh_view sample_hash t d k =
      alive t (map_option (restarted 2000000 (loaded k)) \<circ> sh_view sample_hash 2000000 sample_source) k"
    unfolding Let_def env by (simp only: sum.case) blast
  have "''kk'' \<in> snap_key ` set sample_snapshot" by (simp add: sample_snapshot_def)
  with win obtain i where "i < 2" "int i \<le> loaded ''kk''" "loaded ''kk'' \<le> int i" unfolding w len by blast
  then have kk: "loaded ''kk'' \<in> {0, 1}" by (cases i) auto
  have late: "\<forall>i < length sample_snapshot. int i \<le> 6" by (simp add: len)
  have "sh_view sample_hash 2000000 sample_source ''a'' = Some (''1'', None)" by code_simp
  then have "sh_view sample_hash 6 d ''a'' = Some (''1'', None)"
    unfolding all [OF late] by (simp add: alive_def restarted_def expired_at_def)
  moreover have "sh_view sample_hash 2000000 sample_source ''b'' = None" by code_simp
  then have "sh_view sample_hash 6 d ''b'' = None" unfolding all [OF late] by (simp add: alive_def)
  moreover have "sh_view sample_hash 2000000 sample_source ''kk'' = Some (''v'', Some 7000000)" by code_simp
  ultimately have "sh_view sample_hash 6 d ''kk'' = Some (''v'', Some (5000000 + loaded ''kk''))"
    unfolding all [OF late] using kk by (auto simp: alive_def restarted_def expired_at_def time_diff_ms_def wrap64_def)
  with \<open>sh_view sample_hash 6 d ''a'' = _\<close> \<open>sh_view sample_hash 6 d ''b'' = _\<close> kk show ?thesis unfolding run r by (simp add: Let_def)
qed

end
