(* ===== verification/Std_String.thy ===== *)
theory Std_String
  imports Charconv
begin

text \<open>
  What src/src/config/config.cpp, src/src/base/logger.cpp and src/src/http/admin_server.cpp use of the
  standard library on text: the character classes of the C locale, \<open>find\<close>, \<open>substr\<close>, \<open>std::getline\<close>,
  \<open>std::stoull\<close>, and \<open>std::stold\<close> with the 80-bit \<open>long double\<close> of the x86-64 ABI.
\<close>

subsection \<open>Characters\<close>

definition isspace :: "char \<Rightarrow> bool" where
  "isspace c \<longleftrightarrow> of_char c = (32 :: nat) \<or> (9 \<le> (of_char c :: nat) \<and> (of_char c :: nat) \<le> 13)"

definition tolower :: "char \<Rightarrow> char" where
  "tolower c = (if 65 \<le> (of_char c :: nat) \<and> (of_char c :: nat) \<le> 90 then char_of ((of_char c :: nat) + 32) else c)"

definition Lowercase :: "string \<Rightarrow> string" where
  "Lowercase text = map tolower text"

lemma tolower_idem [simp]: "tolower (tolower c) = tolower c"
  by (auto simp: tolower_def)

lemma Lowercase_idem [simp]: "Lowercase (Lowercase s) = Lowercase s"
  by (simp add: Lowercase_def)

subsection \<open>Searching\<close>

fun str_find :: "string \<Rightarrow> string \<Rightarrow> nat option" where
  "str_find pat [] = (if pat = [] then Some 0 else None)"
| "str_find pat (c # s) = (if take (length pat) (c # s) = pat then Some 0 else map_option Suc (str_find pat s))"

definition str_find_from :: "string \<Rightarrow> nat \<Rightarrow> string \<Rightarrow> nat option" where
  "str_find_from pat pos s = (if pos > length s then None else map_option ((+) pos) (str_find pat (drop pos s)))"

lemma str_find_Some:
  "str_find pat s = Some i \<Longrightarrow> i + length pat \<le> length s \<and> take (length pat) (drop i s) = pat"
proof (induction s arbitrary: i)
  case Nil
  then show ?case by (auto split: if_splits)
next
  case (Cons c s)
  show ?case
  proof (cases "take (length pat) (c # s) = pat")
    case True
    with Cons.prems have "i = 0" by simp
    moreover have "length pat \<le> length (c # s)" using arg_cong [OF True, of length] by (simp del: take_Cons)
    ultimately show ?thesis using True by simp
  next
    case False
    with Cons.prems obtain j where "i = Suc j" "str_find pat s = Some j" by auto
    with Cons.IH [of j] show ?thesis by simp
  qed
qed

lemma str_find_char: "str_find [c] s = (if c \<in> set s then Some (length (takeWhile (\<lambda>d. d \<noteq> c) s)) else None)"
  by (induction s) auto

lemma str_find_char_append: "c \<notin> set s \<Longrightarrow> str_find [c] (s @ c # rest) = Some (length s)"
  by (induction s) auto

subsection \<open>Lines\<close>

text \<open>The lines \<open>std::getline\<close> delivers: the last one may lack its newline.\<close>

fun getlines :: "string \<Rightarrow> string list" where
  "getlines [] = []"
| "getlines (c # s) =
     (if c = LF then [] # getlines s
      else case getlines s of
             [] \<Rightarrow> [[c]]
           | line # rest \<Rightarrow> (c # line) # rest)"

subsection \<open>stoull\<close>

definition ULLONG_MAX :: nat where
  "ULLONG_MAX = 18446744073709551615"

text \<open>The value and the number of characters read.\<close>

definition stoull :: "string \<Rightarrow> std_exception + (uint64 \<times> nat)" where
  "stoull text =
     (let blanks = takeWhile isspace text;
          rest = drop (length blanks) text;
          sign = takeWhile (\<lambda>c. c = CHR ''+'' \<or> c = CHR ''-'') (take 1 rest);
          ds = takeWhile is_digit (drop (length sign) rest);
          v = decimal_value ds
      in if ds = [] then Inl (invalid_argument ''stoull'')
         else if v > ULLONG_MAX then Inl (out_of_range ''stoull'')
         else Inr (if sign = ''-'' then - of_nat v else of_nat v, length blanks + length sign + length ds))"

subsection \<open>stold\<close>

text \<open>
  A finite value is (-1)^sign * m * 2^e with a significand m of at most 64 bits; the exponents of the
  format are those of the x87 extended type.
\<close>

datatype long_double = Finite bool nat int | Infinity bool | NotANumber

fun ilog2 :: "nat \<Rightarrow> nat" where
  "ilog2 n = (if n < 2 then 0 else Suc (ilog2 (n div 2)))"

declare ilog2.simps [simp del]

text \<open>num / den divided by 2^s, rounded to the nearest integer, ties to even, and whether that was exact.\<close>

definition round_at :: "nat \<Rightarrow> nat \<Rightarrow> int \<Rightarrow> nat \<times> bool" where
  "round_at num den s =
     (let n = (if s \<ge> 0 then num else num * 2 ^ nat (- s));
          d = (if s \<ge> 0 then den * 2 ^ nat s else den);
          q = n div d; r = n mod d
      in (if 2 * r > d \<or> (2 * r = d \<and> odd q) then q + 1 else q, r = 0))"

text \<open>The position of the leading bit of num / den.\<close>

definition leading_bit :: "nat \<Rightarrow> nat \<Rightarrow> int" where
  "leading_bit num den =
     (let e = int (ilog2 num) - int (ilog2 den);
          below = (if e \<ge> 0 then num < den * 2 ^ nat e else num * 2 ^ nat (- e) < den)
      in if below then e - 1 else e)"

text \<open>\<open>None\<close> is a range error: overflow, or a tiny inexact result.\<close>

definition to_long_double :: "bool \<Rightarrow> nat \<Rightarrow> nat \<Rightarrow> long_double option" where
  "to_long_double sign num den =
     (if num = 0 then Some (Finite sign 0 0)
      else
        (let e = leading_bit num den;
             s = max (e - 63) (-16445);
             (m, exact) = round_at num den s;
             unbounded = fst (round_at num den (e - 63));
             tiny = int (ilog2 unbounded) + (e - 63) < -16382
         in if int (ilog2 m) + s > 16383 then None
            else if tiny \<and> \<not> exact then None
            else Some (Finite sign m s)))"

definition is_hex_digit :: "char \<Rightarrow> bool" where
  "is_hex_digit c \<longleftrightarrow> is_digit c \<or> (97 \<le> (of_char (tolower c) :: nat) \<and> (of_char (tolower c) :: nat) \<le> 102)"

definition hex_value :: "string \<Rightarrow> nat" where
  "hex_value cs = foldl (\<lambda>a c. 16 * a + (if is_digit c then digit_value c else of_char (tolower c) - 87)) 0 cs"

text \<open>The digits before and after the point, and how many characters they take.\<close>

definition mantissa :: "(char \<Rightarrow> bool) \<Rightarrow> string \<Rightarrow> string \<times> string \<times> nat" where
  "mantissa is_dig s =
     (let whole = takeWhile is_dig s;
          rest = drop (length whole) s;
          frac = (if rest \<noteq> [] \<and> hd rest = CHR ''.'' then takeWhile is_dig (tl rest) else [])
      in (whole, frac, length whole + (if rest \<noteq> [] \<and> hd rest = CHR ''.'' \<and> whole @ frac \<noteq> [] then 1 + length frac else 0)))"

text \<open>An exponent after the letter: nothing is read unless a digit follows.\<close>

definition exponent :: "char \<Rightarrow> string \<Rightarrow> int \<times> nat" where
  "exponent letter s =
     (if s = [] \<or> tolower (hd s) \<noteq> letter then (0, 0)
      else
        (let sign = takeWhile (\<lambda>c. c = CHR ''+'' \<or> c = CHR ''-'') (take 1 (tl s));
             ds = takeWhile is_digit (drop (length sign) (tl s))
         in if ds = [] then (0, 0)
            else (if sign = ''-'' then - int (decimal_value ds) else int (decimal_value ds), 1 + length sign + length ds)))"

text \<open>A number without its sign: the value as a quotient and the characters read; \<open>None\<close> if there is none.\<close>

definition scan_decimal :: "string \<Rightarrow> (nat \<times> nat \<times> nat) option" where
  "scan_decimal s =
     (let (whole, frac, n) = mantissa is_digit s;
          (x, k) = exponent (CHR ''e'') (drop n s);
          x10 = x - int (length frac);
          v = decimal_value (whole @ frac)
      in if whole @ frac = [] then None
         else Some (if x10 \<ge> 0 then v * 10 ^ nat x10 else v, if x10 \<ge> 0 then 1 else 10 ^ nat (- x10), n + k))"

definition scan_hex :: "string \<Rightarrow> (nat \<times> nat \<times> nat) option" where
  "scan_hex s =
     (let (whole, frac, n) = mantissa is_hex_digit s;
          (x, k) = exponent (CHR ''p'') (drop n s);
          x2 = x - 4 * int (length frac);
          v = hex_value (whole @ frac)
      in if whole @ frac = [] then None
         else Some (if x2 \<ge> 0 then v * 2 ^ nat x2 else v, if x2 \<ge> 0 then 1 else 2 ^ nat (- x2), n + k))"

definition starts_with :: "string \<Rightarrow> string \<Rightarrow> bool" where
  "starts_with pat s \<longleftrightarrow> take (length pat) s = pat"

text \<open>The optional \<open>(n-char-sequence)\<close> after \<open>nan\<close>.\<close>

definition nan_suffix :: "string \<Rightarrow> nat" where
  "nan_suffix s =
     (if s \<noteq> [] \<and> hd s = CHR ''(''
      then (let body = takeWhile (\<lambda>c. is_digit c \<or> c = CHR ''_'' \<or> (97 \<le> (of_char (tolower c) :: nat) \<and> (of_char (tolower c) :: nat) \<le> 122)) (tl s)
            in if drop (1 + length body) s \<noteq> [] \<and> hd (drop (1 + length body) s) = CHR '')'' then length body + 2 else 0)
      else 0)"

definition stold :: "string \<Rightarrow> std_exception + (long_double \<times> nat)" where
  "stold text =
     (let blanks = takeWhile isspace text;
          rest = drop (length blanks) text;
          sign = takeWhile (\<lambda>c. c = CHR ''+'' \<or> c = CHR ''-'') (take 1 rest);
          body = Lowercase (drop (length sign) rest);
          skipped = length blanks + length sign;
          negative = (sign = ''-'');
          number = (\<lambda>prefix_length scanned.
             case scanned of
               None \<Rightarrow> Inl (invalid_argument ''stold'')
             | Some (num, den, n) \<Rightarrow>
                 (case to_long_double negative num den of
                    None \<Rightarrow> Inl (out_of_range ''stold'')
                  | Some v \<Rightarrow> Inr (v, skipped + prefix_length + n)))
      in if starts_with ''infinity'' body then Inr (Infinity negative, skipped + 8)
         else if starts_with ''inf'' body then Inr (Infinity negative, skipped + 3)
         else if starts_with ''nan'' body then Inr (NotANumber, skipped + 3 + nan_suffix (drop 3 body))
         else if starts_with ''0x'' body \<and> scan_hex (drop 2 body) \<noteq> None then number 2 (scan_hex (drop 2 body))
         else number 0 (scan_decimal body))"

end
