(* ===== verification/Config.thy ===== *)
theory Config
  imports Std_String
begin

text \<open>
  The configuration: src/include/cachefly/config/config.h and src/src/config/config.cpp.  The files that
  can be opened are an argument, a map from paths to contents; so is \<open>strerror\<close>, which only the text of a
  \<open>std::system_error\<close> would use.
\<close>

subsection \<open>Helpers\<close>

definition Trim :: "string \<Rightarrow> string" where
  "Trim text = rev (dropWhile isspace (rev (dropWhile isspace text)))"

definition ParseBool :: "string \<Rightarrow> std_exception + bool" where
  "ParseBool text =
     (let value = Lowercase (Trim text)
      in if value = ''true'' \<or> value = ''yes'' \<or> value = ''on'' \<or> value = ''1'' then Inr True
         else if value = ''false'' \<or> value = ''no'' \<or> value = ''off'' \<or> value = ''0'' then Inr False
         else Inl (invalid_argument (''invalid boolean value: '' @ text)))"

definition ParseUnsigned :: "string \<Rightarrow> string \<Rightarrow> std_exception + size_t" where
  "ParseUnsigned text key =
     (let value = Trim text;
          invalid = Inl (invalid_argument (''invalid integer for '' @ key @ '': '' @ text))
      in if value = [] \<or> hd value = CHR ''-'' then invalid
         else case stoull value of
                Inl _ \<Rightarrow> invalid
              | Inr (parsed, consumed) \<Rightarrow>
                  if consumed \<noteq> length value \<or> parsed > SIZE_T_MAX then invalid else Inr parsed)"

type_synonym uint16 = "16 word"

definition ParsePort :: "string \<Rightarrow> string \<Rightarrow> std_exception + uint16" where
  "ParsePort text key =
     (case ParseUnsigned text key of
        Inl ex \<Rightarrow> Inl ex
      | Inr value \<Rightarrow>
          if value = 0 \<or> value > 65535 then Inl (invalid_argument (key @ '' must be in range 1..65535''))
          else Inr (ucast value))"

definition ParseOption :: "string \<Rightarrow> std_exception + (string \<times> string)" where
  "ParseOption argument =
     (if length argument < 2 \<or> take 2 argument \<noteq> ''--''
      then Inl (invalid_argument (''unexpected positional argument: '' @ argument))
      else case str_find ''='' argument of
             None \<Rightarrow> Inl (invalid_argument (''expected --key=value, got: '' @ argument))
           | Some equals \<Rightarrow>
               if equals = 2 \<or> equals + 1 = length argument
               then Inl (invalid_argument (''expected --key=value, got: '' @ argument))
               else Inr (take (equals - 2) (drop 2 argument), drop (equals + 1) argument))"

definition kHex :: string where
  "kHex = ''0123456789abcdef''"

definition json_char :: "char \<Rightarrow> string" where
  "json_char c =
     (if c = CHR 0x22 then [CHR 0x5C, CHR 0x22]
      else if c = CHR 0x5C then [CHR 0x5C, CHR 0x5C]
      else if c = CHR 0x08 then [CHR 0x5C, CHR ''b'']
      else if c = CHR 0x0C then [CHR 0x5C, CHR ''f'']
      else if c = CHR 0x0A then [CHR 0x5C, CHR ''n'']
      else if c = CHR 0x0D then [CHR 0x5C, CHR ''r'']
      else if c = CHR 0x09 then [CHR 0x5C, CHR ''t'']
      else if (of_char c :: nat) < 0x20
      then [CHR 0x5C, CHR ''u'', CHR ''0'', CHR ''0'', kHex ! (of_char c div 16), kHex ! (of_char c mod 16)]
      else [c])"

definition AppendJsonString :: "string \<Rightarrow> string" where
  "AppendJsonString value = [CHR 0x22] @ concat (map json_char value) @ [CHR 0x22]"

subsection \<open>The configuration\<close>

record ServerConfig =
  bind_address :: string
  port :: uint16
  shard_threads :: size_t
  max_clients :: size_t
  cfg_max_request_bytes :: size_t
  cfg_max_output_bytes :: size_t
  maxmemory_bytes :: size_t
  cfg_eviction_policy :: string
  cfg_log_level :: string
  log_file :: string
  appendonly :: bool
  appendfilename :: string
  appendfsync :: string
  snapshot :: bool
  snapshotfilename :: string
  admin_port :: uint16

definition default_ServerConfig :: ServerConfig where
  "default_ServerConfig =
     \<lparr>bind_address = ''127.0.0.1'', port = 6379, shard_threads = 4, max_clients = 10000,
      cfg_max_request_bytes = 16 * 1024 * 1024, cfg_max_output_bytes = 64 * 1024 * 1024,
      maxmemory_bytes = 512 * 1024 * 1024, cfg_eviction_policy = ''lru'', cfg_log_level = ''info'', log_file = '''',
      appendonly = False, appendfilename = ''cachefly.aof'', appendfsync = ''everysec'', snapshot = False,
      snapshotfilename = ''cachefly.snapshot'', admin_port = 8080\<rparr>"

text \<open>The power of two of a unit.\<close>

definition unit_shift :: "string \<Rightarrow> std_exception + nat" where
  "unit_shift suffix =
     (if suffix = '''' \<or> suffix = ''b'' then Inr 0
      else if suffix = ''k'' \<or> suffix = ''kb'' \<or> suffix = ''kib'' then Inr 10
      else if suffix = ''m'' \<or> suffix = ''mb'' \<or> suffix = ''mib'' then Inr 20
      else if suffix = ''g'' \<or> suffix = ''gb'' \<or> suffix = ''gib'' then Inr 30
      else Inl (invalid_argument (''unknown memory unit: '' @ suffix)))"

text \<open>
  The comparison of m * 2^e with the largest \<open>std::size_t\<close>, which a \<open>long double\<close> represents exactly, and
  the conversion that drops the fraction.  Multiplying by a power of two only moves the exponent.
\<close>

definition above_size_t :: "nat \<Rightarrow> int \<Rightarrow> bool" where
  "above_size_t m e \<longleftrightarrow> (if e \<ge> 0 then m * 2 ^ nat e > ULLONG_MAX else m > ULLONG_MAX * 2 ^ nat (- e))"

definition to_size_t :: "nat \<Rightarrow> int \<Rightarrow> nat" where
  "to_size_t m e = (if e \<ge> 0 then m * 2 ^ nat e else m div 2 ^ nat (- e))"

definition ParseMemorySize :: "string \<Rightarrow> std_exception + size_t" where
  "ParseMemorySize text =
     (let value = Lowercase (Trim text);
          invalid = Inl (invalid_argument (''invalid memory size: '' @ text))
      in if value = [] \<or> hd value = CHR ''-'' then invalid
         else case stold value of
                Inl _ \<Rightarrow> invalid
              | Inr (number, consumed) \<Rightarrow>
                  (case number of
                     Infinity _ \<Rightarrow> invalid
                   | NotANumber \<Rightarrow> invalid
                   | Finite negative m e \<Rightarrow>
                       if negative \<and> m \<noteq> 0 then invalid
                       else case unit_shift (Trim (drop consumed value)) of
                              Inl ex \<Rightarrow> Inl ex
                            | Inr k \<Rightarrow>
                                if above_size_t m (e + int k)
                                then Inl (overflow_error (''memory size is too large: '' @ text))
                                else Inr (of_nat (to_size_t m (e + int k)))))"

definition ToJson :: "ServerConfig \<Rightarrow> string" where
  "ToJson config =
     ''{'' @ AppendJsonString ''bind'' @ '':'' @ AppendJsonString (bind_address config) @
     '','' @ AppendJsonString ''port'' @ '':'' @ to_string (uint (port config)) @
     '','' @ AppendJsonString ''shard_threads'' @ '':'' @ to_string (uint (shard_threads config)) @
     '','' @ AppendJsonString ''max_clients'' @ '':'' @ to_string (uint (max_clients config)) @
     '','' @ AppendJsonString ''max_request_bytes'' @ '':'' @ to_string (uint (cfg_max_request_bytes config)) @
     '','' @ AppendJsonString ''max_output_bytes'' @ '':'' @ to_string (uint (cfg_max_output_bytes config)) @
     '','' @ AppendJsonString ''maxmemory_bytes'' @ '':'' @ to_string (uint (maxmemory_bytes config)) @
     '','' @ AppendJsonString ''eviction_policy'' @ '':'' @ AppendJsonString (cfg_eviction_policy config) @
     '','' @ AppendJsonString ''log_level'' @ '':'' @ AppendJsonString (cfg_log_level config) @
     '','' @ AppendJsonString ''log_file'' @ '':'' @ AppendJsonString (log_file config) @
     '','' @ AppendJsonString ''appendonly'' @ '':'' @ (if appendonly config then ''true'' else ''false'') @
     '','' @ AppendJsonString ''appendfilename'' @ '':'' @ AppendJsonString (appendfilename config) @
     '','' @ AppendJsonString ''appendfsync'' @ '':'' @ AppendJsonString (appendfsync config) @
     '','' @ AppendJsonString ''snapshot'' @ '':'' @ (if snapshot config then ''true'' else ''false'') @
     '','' @ AppendJsonString ''snapshotfilename'' @ '':'' @ AppendJsonString (snapshotfilename config) @
     '','' @ AppendJsonString ''admin_port'' @ '':'' @ to_string (uint (admin_port config)) @ ''}''"

definition Validate :: "ServerConfig \<Rightarrow> std_exception + unit" where
  "Validate config =
     (if bind_address config = [] then Inl (invalid_argument ''bind must not be empty'')
      else if shard_threads config = 0 then Inl (invalid_argument ''shard_threads must be positive'')
      else if max_clients config = 0 then Inl (invalid_argument ''max_clients must be positive'')
      else if cfg_max_request_bytes config = 0 then Inl (invalid_argument ''max_request_bytes must be positive'')
      else if cfg_max_output_bytes config = 0 then Inl (invalid_argument ''max_output_bytes must be positive'')
      else if maxmemory_bytes config = 0 then Inl (invalid_argument ''maxmemory must be positive'')
      else if cfg_eviction_policy config \<notin> set [''lru'', ''lfu'', ''random'', ''noeviction'']
      then Inl (invalid_argument ''invalid eviction_policy'')
      else if cfg_log_level config \<notin> set [''trace'', ''debug'', ''info'', ''warn'', ''warning'', ''error'', ''fatal'']
      then Inl (invalid_argument ''invalid log_level'')
      else if appendfsync config \<notin> set [''always'', ''everysec'', ''no'']
      then Inl (invalid_argument ''invalid appendfsync'')
      else if appendfilename config = [] \<or> snapshotfilename config = []
      then Inl (invalid_argument ''persistence filenames must not be empty'')
      else Inr ())"

definition Apply :: "string \<Rightarrow> string \<Rightarrow> ServerConfig \<Rightarrow> std_exception + ServerConfig" where
  "Apply key value config =
     (if key = ''bind'' then Inr (config\<lparr>bind_address := value\<rparr>)
      else if key = ''port'' then map_sum id (\<lambda>v. config\<lparr>port := v\<rparr>) (ParsePort value key)
      else if key = ''shard_threads'' then map_sum id (\<lambda>v. config\<lparr>shard_threads := v\<rparr>) (ParseUnsigned value key)
      else if key = ''max_clients'' then map_sum id (\<lambda>v. config\<lparr>max_clients := v\<rparr>) (ParseUnsigned value key)
      else if key = ''max_request_bytes'' then map_sum id (\<lambda>v. config\<lparr>cfg_max_request_bytes := v\<rparr>) (ParseMemorySize value)
      else if key = ''max_output_bytes'' then map_sum id (\<lambda>v. config\<lparr>cfg_max_output_bytes := v\<rparr>) (ParseMemorySize value)
      else if key = ''maxmemory'' then map_sum id (\<lambda>v. config\<lparr>maxmemory_bytes := v\<rparr>) (ParseMemorySize value)
      else if key = ''eviction_policy'' then Inr (config\<lparr>cfg_eviction_policy := Lowercase (Trim value)\<rparr>)
      else if key = ''log_level'' then Inr (config\<lparr>cfg_log_level := Lowercase (Trim value)\<rparr>)
      else if key = ''log_file'' then Inr (config\<lparr>log_file := value\<rparr>)
      else if key = ''appendonly'' then map_sum id (\<lambda>v. config\<lparr>appendonly := v\<rparr>) (ParseBool value)
      else if key = ''appendfilename'' then Inr (config\<lparr>appendfilename := value\<rparr>)
      else if key = ''appendfsync'' then Inr (config\<lparr>appendfsync := Lowercase (Trim value)\<rparr>)
      else if key = ''snapshot'' then map_sum id (\<lambda>v. config\<lparr>snapshot := v\<rparr>) (ParseBool value)
      else if key = ''snapshotfilename'' then Inr (config\<lparr>snapshotfilename := value\<rparr>)
      else if key = ''admin_port'' then map_sum id (\<lambda>v. config\<lparr>admin_port := v\<rparr>) (ParsePort value key)
      else Inl (invalid_argument (''unknown config key: '' @ key)))"

subsection \<open>Loading\<close>

fun what :: "(int \<Rightarrow> string) \<Rightarrow> std_exception \<Rightarrow> string" where
  "what strerror (invalid_argument m) = m"
| "what strerror (runtime_error m) = m"
| "what strerror (out_of_range m) = m"
| "what strerror (length_error m) = m"
| "what strerror (overflow_error m) = m"
| "what strerror (logic_error m) = m"
| "what strerror (system_error errno m) = m @ '': '' @ strerror errno"

fun read_lines :: "(int \<Rightarrow> string) \<Rightarrow> nat \<Rightarrow> string list \<Rightarrow> ServerConfig \<Rightarrow> std_exception + ServerConfig" where
  "read_lines strerror line_number [] config = Inr config"
| "read_lines strerror line_number (line # rest) config =
     (let normalized = Trim line
      in if normalized = [] \<or> hd normalized = CHR ''#'' then read_lines strerror (line_number + 1) rest config
         else case str_find ''='' normalized of
                None \<Rightarrow> Inl (runtime_error (''invalid config line '' @ to_string (int (line_number + 1))))
              | Some equals \<Rightarrow>
                  (case Apply (Trim (take equals normalized)) (Trim (drop (equals + 1) normalized)) config of
                     Inl ex \<Rightarrow> Inl (runtime_error (''invalid config line '' @ to_string (int (line_number + 1)) @ '': '' @ what strerror ex))
                   | Inr config1 \<Rightarrow> read_lines strerror (line_number + 1) rest config1))"

definition LoadFromFile :: "(int \<Rightarrow> string) \<Rightarrow> (string \<Rightarrow> string option) \<Rightarrow> string \<Rightarrow> std_exception + ServerConfig" where
  "LoadFromFile strerror files path =
     (case files path of
        None \<Rightarrow> Inl (runtime_error (''cannot open config file: '' @ path))
      | Some text \<Rightarrow>
          (case read_lines strerror 0 (getlines text) default_ServerConfig of
             Inl ex \<Rightarrow> Inl ex
           | Inr config \<Rightarrow> (case Validate config of Inl ex \<Rightarrow> Inl ex | Inr _ \<Rightarrow> Inr config)))"

fun find_config :: "string list \<Rightarrow> string \<Rightarrow> std_exception + string" where
  "find_config [] config_path = Inr config_path"
| "find_config (argument # rest) config_path =
     (case ParseOption argument of
        Inl ex \<Rightarrow> Inl ex
      | Inr (key, value) \<Rightarrow>
          if key = ''config''
          then if config_path \<noteq> [] then Inl (invalid_argument ''--config may only be specified once'')
               else find_config rest value
          else find_config rest config_path)"

fun apply_options :: "string list \<Rightarrow> ServerConfig \<Rightarrow> std_exception + ServerConfig" where
  "apply_options [] config = Inr config"
| "apply_options (argument # rest) config =
     (case ParseOption argument of
        Inl ex \<Rightarrow> Inl ex
      | Inr (key, value) \<Rightarrow>
          if key \<noteq> ''config''
          then case Apply key value config of Inl ex \<Rightarrow> Inl ex | Inr config1 \<Rightarrow> apply_options rest config1
          else apply_options rest config)"

text \<open>\<open>argv\<close> without the name of the program.\<close>

definition LoadFromArgs :: "(int \<Rightarrow> string) \<Rightarrow> (string \<Rightarrow> string option) \<Rightarrow> string list \<Rightarrow> std_exception + ServerConfig" where
  "LoadFromArgs strerror files args =
     (case find_config args [] of
        Inl ex \<Rightarrow> Inl ex
      | Inr config_path \<Rightarrow>
          (case (if config_path = [] then Inr default_ServerConfig else LoadFromFile strerror files config_path) of
             Inl ex \<Rightarrow> Inl ex
           | Inr config \<Rightarrow>
               (case apply_options args config of
                  Inl ex \<Rightarrow> Inl ex
                | Inr config1 \<Rightarrow> (case Validate config1 of Inl ex \<Rightarrow> Inl ex | Inr _ \<Rightarrow> Inr config1))))"

end
