(* ===== verification/Logger.thy ===== *)
theory Logger
  imports Std_String
begin

text \<open>
  The logger: src/include/cachefly/base/logger.h and src/src/base/logger.cpp.  The local time and
  whether a file can be opened are arguments; what has been written to standard error and to each file
  is part of the state.
\<close>

datatype LogLevel = kTrace | kDebug | kInfo | kWarn | kError | kFatal

fun severity :: "LogLevel \<Rightarrow> nat" where
  "severity kTrace = 0" | "severity kDebug = 1" | "severity kInfo = 2" | "severity kWarn = 3"
| "severity kError = 4" | "severity kFatal = 5"

record Logger =
  log_level :: LogLevel
  output_file :: "string option"
  cerr :: string
  log_files :: "string \<Rightarrow> string"

definition new_Logger :: "(string \<Rightarrow> string) \<Rightarrow> Logger" where
  "new_Logger fs = \<lparr>log_level = kInfo, output_file = None, cerr = [], log_files = fs\<rparr>"

definition SetLevel :: "LogLevel \<Rightarrow> Logger \<Rightarrow> Logger" where
  "SetLevel level l = l\<lparr>log_level := level\<rparr>"

definition Level :: "Logger \<Rightarrow> LogLevel" where
  "Level l = log_level l"

definition SetOutputFile :: "bool \<Rightarrow> string \<Rightarrow> Logger \<Rightarrow> bool \<times> Logger" where
  "SetOutputFile opens path l =
     (if path = [] then (True, l\<lparr>output_file := None\<rparr>)
      else if \<not> opens then (False, l)
      else (True, l\<lparr>output_file := Some path\<rparr>))"

fun LevelName :: "LogLevel \<Rightarrow> string" where
  "LevelName kTrace = ''TRACE''"
| "LevelName kDebug = ''DEBUG''"
| "LevelName kInfo = ''INFO''"
| "LevelName kWarn = ''WARN''"
| "LevelName kError = ''ERROR''"
| "LevelName kFatal = ''FATAL''"

text \<open>The fields of \<open>std::tm\<close> that the format reads, as they print.\<close>

record local_time =
  tm_year :: int
  tm_mon :: int
  tm_mday :: int
  tm_hour :: int
  tm_min :: int
  tm_sec :: int

definition padded :: "nat \<Rightarrow> int \<Rightarrow> string" where
  "padded width i = replicate (width - length (to_string i)) (CHR ''0'') @ to_string i"

definition Timestamp :: "local_time \<Rightarrow> int \<Rightarrow> string" where
  "Timestamp tm ms_since_epoch =
     to_string (tm_year tm) @ ''-'' @ padded 2 (tm_mon tm) @ ''-'' @ padded 2 (tm_mday tm) @ '' '' @
     padded 2 (tm_hour tm) @ '':'' @ padded 2 (tm_min tm) @ '':'' @ padded 2 (tm_sec tm) @ ''.'' @
     padded 3 (ms_since_epoch smod 1000)"

definition log_record :: "string \<Rightarrow> LogLevel \<Rightarrow> string \<Rightarrow> int \<Rightarrow> string \<Rightarrow> string" where
  "log_record timestamp level source_file line message =
     ''['' @ timestamp @ '']['' @ LevelName level @ '']['' @ source_file @ '':'' @ to_string line @ ''] '' @ message @ [LF]"

text \<open>\<open>True\<close>: the process aborts.\<close>

definition Log :: "string \<Rightarrow> LogLevel \<Rightarrow> string \<Rightarrow> int \<Rightarrow> string \<Rightarrow> Logger \<Rightarrow> bool \<times> Logger" where
  "Log timestamp level source_file line message l =
     (if severity level < severity (Level l) then (False, l)
      else
        (let text = log_record timestamp level source_file line message;
             l1 = l\<lparr>cerr := cerr l @ text\<rparr>;
             l2 = (case output_file l1 of
                     None \<Rightarrow> l1
                   | Some path \<Rightarrow> l1\<lparr>log_files := (log_files l1)(path := log_files l1 path @ text)\<rparr>)
         in (level = kFatal, l2)))"

definition ParseLogLevel :: "string \<Rightarrow> std_exception + LogLevel" where
  "ParseLogLevel text =
     (let value = Lowercase text
      in if value = ''trace'' then Inr kTrace
         else if value = ''debug'' then Inr kDebug
         else if value = ''info'' then Inr kInfo
         else if value = ''warn'' \<or> value = ''warning'' then Inr kWarn
         else if value = ''error'' then Inr kError
         else if value = ''fatal'' then Inr kFatal
         else Inl (invalid_argument (''invalid log level: '' @ text)))"

subsection \<open>Levels\<close>

lemma severity_inj [simp]: "severity a = severity b \<longleftrightarrow> a = b"
  by (cases a; cases b) simp_all

text \<open>The levels are ordered by severity.\<close>

instantiation LogLevel :: linorder
begin

definition less_eq_LogLevel :: "LogLevel \<Rightarrow> LogLevel \<Rightarrow> bool" where
  "less_eq_LogLevel a b \<longleftrightarrow> severity a \<le> severity b"

definition less_LogLevel :: "LogLevel \<Rightarrow> LogLevel \<Rightarrow> bool" where
  "less_LogLevel a b \<longleftrightarrow> severity a < severity b"

instance
  by standard (auto simp: less_eq_LogLevel_def less_LogLevel_def)

end

lemma ParseLogLevel_LevelName: "ParseLogLevel (LevelName level) = Inr level"
  by (cases level; simp only:; code_simp)

lemma ParseLogLevel_known:
  "ParseLogLevel ''trace'' = Inr kTrace" "ParseLogLevel ''debug'' = Inr kDebug" "ParseLogLevel ''info'' = Inr kInfo"
  "ParseLogLevel ''warn'' = Inr kWarn" "ParseLogLevel ''warning'' = Inr kWarn" "ParseLogLevel ''error'' = Inr kError"
  "ParseLogLevel ''fatal'' = Inr kFatal"
  by code_simp+

lemma Log_filters: "level < Level l \<Longrightarrow> Log ts level f n msg l = (False, l)"
  by (simp add: Log_def less_LogLevel_def)

lemma Log_writes_both:
  "Level l \<le> level \<Longrightarrow> output_file l = Some path \<Longrightarrow>
    cerr (snd (Log ts level f n msg l)) = cerr l @ log_record ts level f n msg \<and>
    log_files (snd (Log ts level f n msg l)) path = log_files l path @ log_record ts level f n msg"
  by (simp add: Log_def less_eq_LogLevel_def Let_def)

end
