(* ===== verification/Config_Theorems.thy ===== *)
theory Config_Theorems
  imports Config Logger Kv_Store Aof Sharded_Database Async_Dispatcher
begin

text \<open>
  Theorems about the configuration: memory sizes are exact, the strings of the JSON dump read back, and a
  configuration that was loaded can be used, so that nothing main parses out of it later can fail.
\<close>

subsection \<open>Memory sizes\<close>

lemma ilog2_bounds: "0 < n \<Longrightarrow> 2 ^ ilog2 n \<le> n \<and> n < 2 ^ Suc (ilog2 n)"
proof (induction n rule: ilog2.induct)
  case (1 n)
  show ?case
  proof (cases "n < 2")
    case True
    with 1 show ?thesis by (simp add: ilog2.simps [of n])
  next
    case False
    with 1 have ih: "2 ^ ilog2 (n div 2) \<le> n div 2 \<and> n div 2 < 2 ^ Suc (ilog2 (n div 2))" by simp
    from False have "ilog2 n = Suc (ilog2 (n div 2))" by (simp add: ilog2.simps [of n])
    with ih show ?thesis by (simp add: less_eq_div_iff_mult_less_eq div_less_iff_less_mult mult.commute)
  qed
qed

lemma ilog2_less: "0 < n \<Longrightarrow> n < 2 ^ k \<Longrightarrow> ilog2 n < k"
  using ilog2_bounds [of n] by (meson le_less_trans nat_power_less_imp_less zero_less_numeral)

lemma ilog2_1 [simp]: "ilog2 (Suc 0) = 0"
  by (simp add: ilog2.simps)

lemma ilog2_shift: "0 < n \<Longrightarrow> ilog2 (n * 2 ^ k) = ilog2 n + k"
proof (induction k)
  case (Suc k)
  have "ilog2 (n * 2 ^ Suc k) = Suc (ilog2 (n * 2 ^ Suc k div 2))"
    using Suc.prems by (subst ilog2.simps) (simp add: not_less Suc_leI)
  with Suc show ?case by simp
qed simp

text \<open>An integer below 2^64 is represented exactly.\<close>

lemma to_long_double_exact:
  assumes "0 < n" "n < 2 ^ 64"
  shows "to_long_double False n 1 = Some (Finite False (n * 2 ^ (63 - ilog2 n)) (int (ilog2 n) - 63))"
proof -
  have le: "ilog2 n \<le> 63" using ilog2_less [OF assms] by simp
  have lead: "leading_bit n 1 = int (ilog2 n)"
    using ilog2_bounds [OF assms(1)] by (simp add: leading_bit_def Let_def)
  have "nat (63 - int (ilog2 n)) = 63 - ilog2 n" using le by simp
  then have r: "round_at n 1 (int (ilog2 n) - 63) = (n * 2 ^ (63 - ilog2 n), True)"
    using le by (cases "ilog2 n = 63") (simp_all add: round_at_def Let_def)
  have "ilog2 (n * 2 ^ (63 - ilog2 n)) = 63" using ilog2_shift [OF assms(1)] le by simp
  then show ?thesis
    using assms(1) lead r le by (simp add: to_long_double_def max_def)
qed

lemma to_size_t_exact:
  assumes "l \<le> 63"
  shows "to_size_t (n * 2 ^ (63 - l)) (int l - 63 + int k) = n * 2 ^ k"
    and "above_size_t (n * 2 ^ (63 - l)) (int l - 63 + int k) \<longleftrightarrow> n * 2 ^ k \<ge> 2 ^ 64"
proof -
  define j where "j = int l - 63 + int k"
  have "to_size_t (n * 2 ^ (63 - l)) j = n * 2 ^ k \<and> (above_size_t (n * 2 ^ (63 - l)) j \<longleftrightarrow> n * 2 ^ k \<ge> 2 ^ 64)"
  proof (cases "j \<ge> 0")
    case True
    with assms have "63 - l + nat j = k" unfolding j_def by linarith
    then have eq: "n * 2 ^ (63 - l) * 2 ^ nat j = n * 2 ^ k" by (simp add: mult.assoc flip: power_add)
    show ?thesis unfolding to_size_t_def above_size_t_def ULLONG_MAX_def if_P [OF True] eq by (simp add: Suc_le_eq [symmetric])
  next
    case False
    with assms have "k + nat (- j) = 63 - l" unfolding j_def by linarith
    then have eq: "n * 2 ^ (63 - l) = n * 2 ^ k * 2 ^ nat (- j)" by (simp add: mult.assoc flip: power_add)
    have cancel: "ULLONG_MAX * 2 ^ nat (- j) < n * 2 ^ k * 2 ^ nat (- j) \<longleftrightarrow> ULLONG_MAX < n * 2 ^ k" by simp
    show ?thesis unfolding to_size_t_def above_size_t_def if_not_P [OF False] eq cancel unfolding ULLONG_MAX_def by (simp add: Suc_le_eq [symmetric])
  qed
  then show "to_size_t (n * 2 ^ (63 - l)) (int l - 63 + int k) = n * 2 ^ k"
    and "above_size_t (n * 2 ^ (63 - l)) (int l - 63 + int k) \<longleftrightarrow> n * 2 ^ k \<ge> 2 ^ 64"
    by (simp_all add: j_def)
qed

text \<open>Digits followed by a unit.\<close>

definition memory_units :: "string list" where
  "memory_units = ['''', ''b'', ''k'', ''kb'', ''kib'', ''m'', ''mb'', ''mib'', ''g'', ''gb'', ''gib'']"

lemma unit_shift_units: "unit_shift u = Inr k \<Longrightarrow> u \<in> set memory_units"
  by (auto simp: unit_shift_def memory_units_def split: if_splits)

lemma digit_facts: "is_digit c \<Longrightarrow> \<not> isspace c \<and> tolower c = c \<and> c \<noteq> CHR ''-'' \<and> c \<noteq> CHR ''+'' \<and> c \<noteq> CHR ''i'' \<and> c \<noteq> CHR ''n'' \<and> c \<noteq> CHR ''x''"
  by (auto simp: is_digit_def isspace_def tolower_def)

lemma unit_char_facts: "u \<in> set memory_units \<Longrightarrow> c \<in> set u \<Longrightarrow>
    \<not> isspace c \<and> tolower c = c \<and> \<not> is_digit c \<and> c \<noteq> CHR ''.'' \<and> c \<noteq> CHR ''e'' \<and> c \<noteq> CHR ''x''"
  by (auto simp: memory_units_def isspace_def tolower_def is_digit_def)

lemma Trim_id: "\<forall>c \<in> set s. \<not> isspace c \<Longrightarrow> Trim s = s"
proof -
  assume *: "\<forall>c \<in> set s. \<not> isspace c"
  then have "dropWhile isspace s = s" by (cases s) auto
  moreover have "dropWhile isspace (rev s) = rev s" using * by (cases "rev s") (auto simp flip: set_rev [of s])
  ultimately show ?thesis by (simp add: Trim_def)
qed

lemma Lowercase_id: "\<forall>c \<in> set s. tolower c = c \<Longrightarrow> Lowercase s = s"
  by (simp add: Lowercase_def map_idI)

lemma stold_digits:
  assumes "0 < n" "n < 2 ^ 64" and u: "u \<in> set memory_units"
  shows "stold (to_string_nat n @ u) =
    Inr (Finite False (n * 2 ^ (63 - ilog2 n)) (int (ilog2 n) - 63), length (to_string_nat n))"
proof -
  let ?d = "to_string_nat n"
  obtain c ds where d: "?d = c # ds" by (cases ?d) auto
  have dig: "is_digit c" "\<forall>x \<in> set ds. is_digit x" using to_string_nat_digits [of n] d by auto
  note cf = digit_facts [OF dig(1)]
  have low: "Lowercase (?d @ u) = ?d @ u"
    using to_string_nat_digits [of n] digit_facts unit_char_facts [OF u] by (intro Lowercase_id) auto
  have tw: "takeWhile is_digit (?d @ u) = ?d"
    using to_string_nat_digits [of n] unit_char_facts [OF u] by (cases u) (auto simp: takeWhile_tail)
  have x: "\<forall>y \<in> set (?d @ u). y \<noteq> CHR ''x''"
    using to_string_nat_digits [of n] digit_facts unit_char_facts [OF u] by auto
  have "mantissa is_digit (?d @ u) = (?d, [], length ?d)"
    using tw unit_char_facts [OF u] by (cases u) (auto simp: mantissa_def Let_def)
  moreover have "exponent (CHR ''e'') u = (0, 0)"
    using unit_char_facts [OF u] by (cases u) (auto simp: exponent_def)
  ultimately have sc: "scan_decimal (?d @ u) = Some (n, 1, length ?d)" by (simp add: scan_decimal_def)
  have "\<not> starts_with ''infinity'' (?d @ u)" "\<not> starts_with ''inf'' (?d @ u)" "\<not> starts_with ''nan'' (?d @ u)"
    using cf d by (auto simp: starts_with_def)
  moreover have "\<not> starts_with ''0x'' (?d @ u)" using x d by (cases ds; cases u) (auto simp: starts_with_def)
  moreover have "takeWhile isspace (?d @ u) = []" "takeWhile (\<lambda>c. c = CHR ''+'' \<or> c = CHR ''-'') (take 1 (?d @ u)) = []"
    using cf d by simp_all
  ultimately show ?thesis
    using sc to_long_double_exact [OF assms(1,2)] low by (simp add: stold_def Let_def)
qed

text \<open>Every positive integer with every unit: the exact number of bytes, or an overflow.\<close>

lemma ParseMemorySize_integer:
  assumes "0 < n" "n < 2 ^ 64" and u: "unit_shift u = Inr k"
  shows "ParseMemorySize (to_string_nat n @ u) =
    (if n * 2 ^ k < 2 ^ 64 then Inr (of_nat (n * 2 ^ k))
     else Inl (overflow_error (''memory size is too large: '' @ to_string_nat n @ u)))"
proof -
  let ?t = "to_string_nat n @ u"
  have mem: "u \<in> set memory_units" using u by (rule unit_shift_units)
  have "\<forall>c \<in> set ?t. \<not> isspace c" "\<forall>c \<in> set ?t. tolower c = c"
    using to_string_nat_digits [of n] digit_facts unit_char_facts [OF mem] by auto
  then have t: "Lowercase (Trim ?t) = ?t" by (simp add: Trim_id Lowercase_id)
  have tr: "Trim u = u" using unit_char_facts [OF mem] by (intro Trim_id) auto
  have h: "?t \<noteq> []" "hd ?t \<noteq> CHR ''-''" by (simp_all add: hd_append)
  have "ilog2 n \<le> 63" using ilog2_less [OF assms(1,2)] by simp
  then show ?thesis
    using t h tr u stold_digits [OF assms(1,2) mem] to_size_t_exact [of "ilog2 n" n k]
    by (simp add: ParseMemorySize_def Let_def not_less)
qed

subsection \<open>JSON strings\<close>

text \<open>A reader of JSON string literals (RFC 8259): the string and what follows the closing quote.\<close>

definition hex_digit_value :: "char \<Rightarrow> nat option" where
  "hex_digit_value c = (if is_hex_digit c then Some (hex_value [c]) else None)"

fun json_escape :: "string \<Rightarrow> (char \<times> string) option" where
  "json_escape [] = None"
| "json_escape (c # s) =
     (if c = CHR 0x22 \<or> c = CHR 0x5C \<or> c = CHR ''/'' then Some (c, s)
      else if c = CHR ''b'' then Some (CHR 0x08, s)
      else if c = CHR ''f'' then Some (CHR 0x0C, s)
      else if c = CHR ''n'' then Some (CHR 0x0A, s)
      else if c = CHR ''r'' then Some (CHR 0x0D, s)
      else if c = CHR ''t'' then Some (CHR 0x09, s)
      else if c = CHR ''u''
      then (case s of
              a # b # c1 # d # rest \<Rightarrow>
                (case (hex_digit_value a, hex_digit_value b, hex_digit_value c1, hex_digit_value d) of
                   (Some 0, Some 0, Some x, Some y) \<Rightarrow> Some (char_of (16 * x + y), rest)
                 | _ \<Rightarrow> None)
            | _ \<Rightarrow> None)
      else None)"

fun json_chars :: "nat \<Rightarrow> string \<Rightarrow> (string \<times> string) option" where
  "json_chars 0 s = None"
| "json_chars (Suc fuel) [] = None"
| "json_chars (Suc fuel) (c # s) =
     (if c = CHR 0x22 then Some ([], s)
      else if (of_char c :: nat) < 0x20 then None
      else if c = CHR 0x5C
      then (case json_escape s of
              None \<Rightarrow> None
            | Some (d, rest) \<Rightarrow> map_option (\<lambda>(t, r). (d # t, r)) (json_chars fuel rest))
      else map_option (\<lambda>(t, r). (c # t, r)) (json_chars fuel s))"

definition json_string :: "string \<Rightarrow> (string \<times> string) option" where
  "json_string s = (if s \<noteq> [] \<and> hd s = CHR 0x22 then json_chars (length s) (tl s) else None)"

lemma kHex_value: "n < 16 \<Longrightarrow> hex_digit_value (kHex ! n) = Some n"
proof -
  have "\<forall>n \<in> set [0..<16]. hex_digit_value (kHex ! n) = Some n" by code_simp
  then show "n < 16 \<Longrightarrow> hex_digit_value (kHex ! n) = Some n" by simp
qed

lemma json_char_read:
  "json_chars (Suc fuel) (json_char c @ s) = map_option (\<lambda>(t, r). (c # t, r)) (json_chars fuel s)"
proof (cases "(of_char c :: nat) < 32 \<and> c \<notin> {CHR 0x08, CHR 0x09, CHR 0x0A, CHR 0x0C, CHR 0x0D}")
  case True
  have "hex_digit_value (CHR ''0'') = Some 0"
    by (simp add: hex_digit_value_def is_hex_digit_def hex_value_def is_digit_def digit_value_def)
  moreover have "hex_digit_value (kHex ! (of_char c div 16)) = Some (of_char c div 16)"
    "hex_digit_value (kHex ! (of_char c mod 16)) = Some (of_char c mod 16)"
    using True by (intro kHex_value; simp)+
  moreover have "char_of (16 * (of_char c div 16) + of_char c mod 16 :: nat) = c" by (simp only: mult_div_mod_eq char_of_char)
  moreover have lt: "(of_char c :: nat) < 32" using True by simp
  then have "c \<noteq> CHR 0x22" "c \<noteq> CHR 0x5C" by (rule_tac notI, simp)+
  ultimately show ?thesis using True by (simp add: json_char_def)
next
  case False
  then show ?thesis by (auto simp: json_char_def)
qed

lemma json_chars_read:
  "length value < fuel \<Longrightarrow> json_chars fuel (concat (map json_char value) @ CHR 0x22 # rest) = Some (value, rest)"
proof (induction "value" arbitrary: fuel)
  case Nil
  then show ?case by (cases fuel) simp_all
next
  case (Cons c cs)
  then obtain f where "fuel = Suc f" "length cs < f" by (cases fuel) auto
  with Cons.IH [of f] show ?case by (simp add: json_char_read del: json_chars.simps)
qed

text \<open>Whatever bytes a value has, its JSON form reads back as the value.\<close>

lemma json_string_AppendJsonString: "json_string (AppendJsonString value @ rest) = Some (value, rest)"
proof -
  have "length value \<le> length (concat (map json_char value))"
    by (induction "value") (auto simp: json_char_def)
  then have "length value < length (AppendJsonString value @ rest)" by (simp add: AppendJsonString_def)
  from json_chars_read [OF this] show ?thesis by (simp add: json_string_def AppendJsonString_def)
qed

subsection \<open>Loading\<close>

definition ports_ok :: "ServerConfig \<Rightarrow> bool" where
  "ports_ok c \<longleftrightarrow> port c \<noteq> 0 \<and> admin_port c \<noteq> 0"

lemma ParsePort_nonzero: "ParsePort text key = Inr p \<Longrightarrow> p \<noteq> 0"
proof -
  assume "ParsePort text key = Inr p"
  then obtain v where "p = ucast v" "v \<noteq> (0 :: size_t)" "v \<le> 65535"
    by (auto simp: ParsePort_def not_less split: sum.splits if_splits)
  then have "0 < unat v" "unat v \<le> 65535" by (auto simp: word_le_nat_alt unat_gt_0)
  then have "unat p = unat v" using \<open>p = ucast v\<close> by (simp add: unsigned_ucast_eq take_bit_nat_eq_self)
  with \<open>0 < unat v\<close> show ?thesis by auto
qed

lemma map_sum_InrD: "map_sum f g x = Inr y \<longleftrightarrow> (\<exists>z. x = Inr z \<and> y = g z)"
  by (cases x) auto

lemma Apply_ports: "ports_ok c \<Longrightarrow> Apply key value c = Inr c' \<Longrightarrow> ports_ok c'"
  by (auto simp: Apply_def ports_ok_def map_sum_InrD dest: ParsePort_nonzero split: if_splits)

lemma read_lines_ports: "ports_ok c \<Longrightarrow> read_lines strerror n ls c = Inr c' \<Longrightarrow> ports_ok c'"
  by (induction ls arbitrary: n c)
     (auto simp: Let_def dest: Apply_ports split: if_splits option.splits sum.splits)

lemma apply_options_ports: "ports_ok c \<Longrightarrow> apply_options args c = Inr c' \<Longrightarrow> ports_ok c'"
  by (induction args arbitrary: c) (auto split: if_splits sum.splits, metis Apply_ports)

lemma LoadFromArgs_InrD:
  assumes "LoadFromArgs strerror files args = Inr c"
  shows "ports_ok c \<and> Validate c = Inr ()"
proof -
  have d: "ports_ok default_ServerConfig" by (simp add: ports_ok_def default_ServerConfig_def)
  from assms obtain path c0 where c0: "(if path = [] then Inr default_ServerConfig else LoadFromFile strerror files path) = Inr c0"
    and c: "apply_options args c0 = Inr c" and v: "Validate c = Inr ()"
    by (auto simp: LoadFromArgs_def split: sum.splits if_splits)
  from c0 d have "ports_ok c0"
    by (auto simp: LoadFromFile_def dest: read_lines_ports split: if_splits option.splits sum.splits)
  with c v show ?thesis by (blast intro: apply_options_ports)
qed

text \<open>
  C29. A configuration that \<open>LoadFromArgs\<close> returns, whatever the command line and the file held, is well formed:
  both ports are nonzero, the address and the file names are present, every limit is positive, and the log level, the
  fsync policy and the eviction policy parse.  With it, and with no more threads than a vector can hold, the constructors of the sharded
  database and of the dispatcher refuse nothing (allocation and the start of threads apart).  Whether the address can be bound and the files can
  be opened is not checked by the code at this point, and not claimed.
\<close>

theorem LoadFromArgs_usable:
  assumes "LoadFromArgs strerror files args = Inr c"
  shows "port c \<noteq> 0 \<and> admin_port c \<noteq> 0 \<and> bind_address c \<noteq> [] \<and> appendfilename c \<noteq> [] \<and> snapshotfilename c \<noteq> [] \<and>
    0 < max_clients c \<and> 0 < cfg_max_request_bytes c \<and> 0 < cfg_max_output_bytes c \<and>
    (\<exists>level. ParseLogLevel (cfg_log_level c) = Inr level) \<and> (\<exists>fsync. ParseFsyncPolicy (appendfsync c) = Inr fsync) \<and>
    0 < maxmemory_bytes c \<and>
    (\<exists>evict. ParseEvictionPolicy (cfg_eviction_policy c) = Inr evict \<and>
       (int (unat (shard_threads c)) \<le> vector_limit \<longrightarrow>
          (\<exists>db. new_ShardedDatabase (unat (shard_threads c)) (maxmemory_bytes c) evict met = Inr db) \<and>
          (\<exists>disp. new_AsyncDispatcher n_clients True (unat (shard_threads c)) = Inr disp)))"
proof -
  note v = LoadFromArgs_InrD [OF assms, THEN conjunct2]
  note ports = LoadFromArgs_InrD [OF assms, THEN conjunct1]
  have pos: "shard_threads c \<noteq> 0" "max_clients c \<noteq> 0" "cfg_max_request_bytes c \<noteq> 0" "cfg_max_output_bytes c \<noteq> 0"
    "maxmemory_bytes c \<noteq> 0" and texts: "bind_address c \<noteq> []" "appendfilename c \<noteq> []" "snapshotfilename c \<noteq> []"
    and evict: "cfg_eviction_policy c \<in> {''lru'', ''lfu'', ''random'', ''noeviction''}"
    and level: "cfg_log_level c \<in> {''trace'', ''debug'', ''info'', ''warn'', ''warning'', ''error'', ''fatal''}"
    and fsync: "appendfsync c \<in> {''always'', ''everysec'', ''no''}"
    using v by (auto simp: Validate_def split: if_splits)
  have "\<forall>l \<in> {''trace'', ''debug'', ''info'', ''warn'', ''warning'', ''error'', ''fatal''}. \<exists>r. ParseLogLevel l = Inr r"
    by (simp add: ParseLogLevel_known)
  with level have "\<exists>l. ParseLogLevel (cfg_log_level c) = Inr l" by blast
  moreover from fsync have "\<exists>f. ParseFsyncPolicy (appendfsync c) = Inr f" by (auto simp: ParseFsyncPolicy_def)
  moreover from evict have "\<exists>p. ParseEvictionPolicy (cfg_eviction_policy c) = Inr p" by (auto simp: ParseEvictionPolicy_def)
  ultimately show ?thesis
    using pos texts ports by (auto simp: new_ShardedDatabase_def new_AsyncDispatcher_def word_neq_0_conv unat_eq_zero ports_ok_def)
qed

lemma sample_options:
  "ParseOption ''--port=6381'' = Inr (''port'', ''6381'')" "ParseOption ''--appendfsync=Always'' = Inr (''appendfsync'', ''Always'')"
  "Lowercase (Trim ''Always'') = ''always''"
  by code_simp+

lemma sample_port: "ParsePort ''6381'' ''port'' = Inr 6381"
proof -
  have "Trim ''6381'' = ''6381''" "takeWhile isspace ''6381'' = []" "takeWhile is_digit ''6381'' = ''6381''" "decimal_value ''6381'' = 6381"
    by code_simp+
  then have "ParseUnsigned ''6381'' ''port'' = Inr 6381"
    by (simp add: ParseUnsigned_def stoull_def Let_def ULLONG_MAX_def SIZE_T_MAX_def not_less)
  then show ?thesis by (simp add: ParsePort_def)
qed

theorem LoadFromArgs_usable_witness:
  "\<exists>c. LoadFromArgs (\<lambda>_. []) (\<lambda>_. None) [''--port=6381'', ''--appendfsync=Always''] = Inr c \<and> port c = 6381 \<and> admin_port c \<noteq> 0 \<and>
     (\<exists>disp :: nat dispatcher. new_AsyncDispatcher 0 True (unat (shard_threads c)) = Inr disp)"
proof -
  let ?c = "default_ServerConfig\<lparr>port := 6381, appendfsync := ''always''\<rparr>"
  have load: "LoadFromArgs (\<lambda>_. []) (\<lambda>_. None) [''--port=6381'', ''--appendfsync=Always''] = Inr ?c"
    by (simp add: LoadFromArgs_def sample_options sample_port Apply_def Validate_def default_ServerConfig_def)
  have few: "int (unat (shard_threads ?c)) \<le> vector_limit" by (simp add: default_ServerConfig_def vector_limit_def)
  note usable = LoadFromArgs_usable [where met = None and n_clients = 0, OF load]
  from usable have "admin_port ?c \<noteq> 0" by blast
  moreover from usable few have "\<exists>disp :: nat dispatcher. new_AsyncDispatcher 0 True (unat (shard_threads ?c)) = Inr disp" by blast
  ultimately show ?thesis using load by (intro exI [of _ ?c]) simp
qed

end
