(* ===== verification/Tcp_Server.thy ===== *)
theory Tcp_Server
  imports Message_Loop Metrics
begin

text \<open>
  Sockets and the server: src/include/cachefly/net/socket.h, src/src/net/socket.cpp,
  src/include/cachefly/net/tcp_server.h and src/src/net/tcp_server.cpp, with the connection and traffic
  callbacks that src/src/main.cpp installs.

  What a system call answers is an argument (\<open>Some errno\<close> or \<open>Inl errno\<close> where it fails).  \<open>accept4\<close> returns a
  descriptor that is not open, so never one of a connection the server still holds.
\<close>

subsection \<open>Socket\<close>

text \<open>
  Ownership of a descriptor: \<open>fd_\<close> is -1 once it has been moved from.  The list collects what has been
  closed.
\<close>

definition destroy_Socket :: "int \<Rightarrow> int list \<Rightarrow> int list" where
  "destroy_Socket fd released = (if fd \<ge> 0 then released @ [fd] else released)"

text \<open>The new owner and what is left in the old one.\<close>

definition move_Socket :: "int \<Rightarrow> int \<times> int" where
  "move_Socket other = (other, -1)"

definition assign_Socket :: "bool \<Rightarrow> int \<Rightarrow> int \<Rightarrow> int list \<Rightarrow> int \<times> int \<times> int list" where
  "assign_Socket same this other released =
     (if same then (this, other, released) else (other, -1, destroy_Socket this released))"

definition CreateNonBlocking :: "int + int \<Rightarrow> std_exception + int" where
  "CreateNonBlocking answer =
     (case answer of Inl errno \<Rightarrow> Inl (system_error errno ''socket'') | Inr fd \<Rightarrow> Inr fd)"

definition SetReuseAddress :: "int option \<Rightarrow> std_exception + unit" where
  "SetReuseAddress fault =
     (case fault of Some errno \<Rightarrow> Inl (system_error errno ''setsockopt'') | None \<Rightarrow> Inr ())"

text \<open>\<open>is_ipv4\<close>: \<open>inet_pton\<close> accepts the address.\<close>

definition Bind :: "bool \<Rightarrow> int option \<Rightarrow> string \<Rightarrow> std_exception + unit" where
  "Bind is_ipv4 fault address =
     (if \<not> is_ipv4 then Inl (invalid_argument (''invalid IPv4 address: '' @ address))
      else case fault of Some errno \<Rightarrow> Inl (system_error errno ''bind'') | None \<Rightarrow> Inr ())"

definition Listen :: "int option \<Rightarrow> std_exception + unit" where
  "Listen fault = (case fault of Some errno \<Rightarrow> Inl (system_error errno ''listen'') | None \<Rightarrow> Inr ())"

text \<open>\<open>None\<close> is the result -1: no connection now.  The address is \<open>None\<close> when \<open>inet_ntop\<close> fails.\<close>

definition Accept :: "int + (int \<times> string option \<times> nat) \<Rightarrow> std_exception + (int \<times> string \<times> nat) option" where
  "Accept answer =
     (case answer of
        Inl errno \<Rightarrow>
          if errno = EAGAIN \<or> errno = EINTR \<or> errno = ECONNABORTED then Inr None
          else Inl (system_error errno ''accept4'')
      | Inr (client, address, port) \<Rightarrow>
          Inr (Some (client, case address of Some a \<Rightarrow> a | None \<Rightarrow> ''unknown'', port)))"

subsection \<open>Server\<close>

text \<open>
  \<open>sv_connections\<close> is \<open>connections_\<close>; nothing depends on its order but the destructor, which takes the first.
  \<open>sv_refused\<close> collects the descriptors closed at once.  \<open>'x\<close> is the state of the callbacks.
\<close>

record 'x TcpServer =
  sv_listen :: Channel
  sv_epoll :: epoll
  sv_max_clients :: nat
  sv_options :: TcpConnectionOptions
  sv_started :: bool
  sv_connections :: "(int \<times> TcpConnection) list"
  sv_peers :: "(int \<times> string) list"
  sv_refused :: "int list"
  sv_app :: 'x

definition new_TcpServer ::
    "int + int \<Rightarrow> int option \<Rightarrow> bool \<Rightarrow> int option \<Rightarrow> epoll \<Rightarrow> string \<Rightarrow> nat \<Rightarrow> TcpConnectionOptions \<Rightarrow> 'x \<Rightarrow>
     std_exception + 'x TcpServer" where
  "new_TcpServer socket_answer reuse_fault is_ipv4 bind_fault ep address max_clients options x =
     (case CreateNonBlocking socket_answer of
        Inl ex \<Rightarrow> Inl ex
      | Inr fd \<Rightarrow>
          (case SetReuseAddress reuse_fault of
             Inl ex \<Rightarrow> Inl ex
           | Inr _ \<Rightarrow>
               (case Bind is_ipv4 bind_fault address of
                  Inl ex \<Rightarrow> Inl ex
                | Inr _ \<Rightarrow>
                    Inr \<lparr>sv_listen = new_Channel fd, sv_epoll = ep, sv_max_clients = max_clients, sv_options = options,
                        sv_started = False, sv_connections = [], sv_peers = [], sv_refused = [], sv_app = x\<rparr>)))"

definition Start :: "int option \<Rightarrow> int option \<Rightarrow> 'x TcpServer \<Rightarrow> (std_exception + unit) \<times> 'x TcpServer" where
  "Start listen_fault ctl_fault sv =
     (if sv_started sv then (Inr (), sv)
      else case Listen listen_fault of
             Inl ex \<Rightarrow> (Inl ex, sv)
           | Inr _ \<Rightarrow>
               (let (r, ch, ep) = EnableReading ctl_fault (sv_listen sv) (sv_epoll sv)
                in (r, sv\<lparr>sv_listen := ch, sv_epoll := ep, sv_started := (r = Inr ())\<rparr>)))"

definition ConnectionCount :: "'x TcpServer \<Rightarrow> nat" where
  "ConnectionCount sv = length (sv_connections sv)"

text \<open>
  A step of one connection inside the server: the connection works on the shared interest list, and the
  calls it made of the connection callback run on \<open>'x\<close>.
\<close>

definition with_connection ::
    "(int \<Rightarrow> bool \<Rightarrow> 'x \<Rightarrow> 'x) \<Rightarrow> (TcpConnection \<Rightarrow> TcpConnection) \<Rightarrow> int \<Rightarrow> TcpConnection \<Rightarrow> 'x TcpServer \<Rightarrow>
     TcpConnection \<times> 'x TcpServer" where
  "with_connection cb f fd c sv =
     (let c1 = f (c\<lparr>conn_epoll := sv_epoll sv\<rparr>)
      in (c1, sv\<lparr>sv_epoll := conn_epoll c1, sv_app := fold (cb fd) (drop (length (notified c)) (notified c1)) (sv_app sv)\<rparr>))"

fun HandleAccept ::
    "(int \<Rightarrow> bool \<Rightarrow> 'x \<Rightarrow> 'x) \<Rightarrow> (int + (int \<times> string option \<times> nat)) list \<Rightarrow> 'x TcpServer \<Rightarrow> (std_exception + unit) \<times> 'x TcpServer" where
  "HandleAccept cb [] sv = (Inr (), sv)"
| "HandleAccept cb (answer # answers) sv =
     (case Accept answer of
        Inl ex \<Rightarrow> (Inl ex, sv)
      | Inr None \<Rightarrow> (Inr (), sv)
      | Inr (Some (client_fd, address, port)) \<Rightarrow>
          if length (sv_connections sv) \<ge> sv_max_clients sv
          then HandleAccept cb answers (sv\<lparr>sv_refused := sv_refused sv @ [client_fd]\<rparr>)
          else
            (let (c, sv1) = with_connection cb ConnectEstablished client_fd
                              (new_TcpConnection client_fd (sv_epoll sv) (sv_options sv)) sv
             in HandleAccept cb answers
                  (sv1\<lparr>sv_connections := (client_fd, c) # sv_connections sv1,
                     sv_peers := (client_fd, address @ '':'' @ to_string (int port)) # sv_peers sv1\<rparr>)))"

definition RemoveConnection :: "(int \<Rightarrow> bool \<Rightarrow> 'x \<Rightarrow> 'x) \<Rightarrow> int \<Rightarrow> TcpConnection \<Rightarrow> 'x TcpServer \<Rightarrow> 'x TcpServer" where
  "RemoveConnection cb fd c sv =
     (if fd \<in> fst ` set (sv_connections sv)
      then snd (with_connection cb ConnectDestroyed fd c
             (sv\<lparr>sv_connections := filter (\<lambda>p. fst p \<noteq> fd) (sv_connections sv)\<rparr>))
      else sv)"

text \<open>A handler of the connection at \<open>fd\<close>; if it called the close callback, the connection is removed.\<close>

definition run_handler :: "(int \<Rightarrow> bool \<Rightarrow> 'x \<Rightarrow> 'x) \<Rightarrow> (TcpConnection \<Rightarrow> TcpConnection) \<Rightarrow> int \<Rightarrow> 'x TcpServer \<Rightarrow> 'x TcpServer option" where
  "run_handler cb f fd sv =
     (case map_of (sv_connections sv) fd of
        None \<Rightarrow> None
      | Some c \<Rightarrow>
          (let (c1, sv1) = with_connection cb f fd c sv
           in Some (if closes c1 > closes c then RemoveConnection cb fd c1 sv1
                    else sv1\<lparr>sv_connections := map (\<lambda>p. if fst p = fd then (fd, c1) else p) (sv_connections sv1)\<rparr>)))"

fun destroy_all :: "(int \<Rightarrow> bool \<Rightarrow> 'x \<Rightarrow> 'x) \<Rightarrow> (int \<times> TcpConnection) list \<Rightarrow> 'x TcpServer \<Rightarrow> 'x TcpServer" where
  "destroy_all cb [] sv = sv\<lparr>sv_connections := []\<rparr>"
| "destroy_all cb ((fd, c) # rest) sv = destroy_all cb rest (snd (with_connection cb ConnectDestroyed fd c sv))"

definition Destroy_TcpServer :: "(int \<Rightarrow> bool \<Rightarrow> 'x \<Rightarrow> 'x) \<Rightarrow> 'x TcpServer \<Rightarrow> 'x TcpServer" where
  "Destroy_TcpServer cb sv =
     (let (_, ch, ep) = DisableAll None (sv_listen sv) (sv_epoll sv);
          (ch1, ep1) = RemoveChannel None ch ep
      in destroy_all cb (sv_connections sv) (sv\<lparr>sv_listen := ch1, sv_epoll := ep1\<rparr>))"

subsection \<open>The callbacks of main\<close>

text \<open>The calls of the dispatcher are recorded: \<open>True\<close> for \<open>OpenSession\<close>.\<close>

definition connection_callback :: "int \<Rightarrow> bool \<Rightarrow> Metrics \<times> (int \<times> bool) list \<Rightarrow> Metrics \<times> (int \<times> bool) list" where
  "connection_callback fd connected x =
     (if connected then (ConnectionOpened (fst x), snd x @ [(fd, True)])
      else (ConnectionClosed (fst x), snd x @ [(fd, False)]))"

definition traffic_callback :: "nat \<Rightarrow> nat \<Rightarrow> Metrics \<Rightarrow> Metrics" where
  "traffic_callback bytes_read bytes_written m = AddBytes (of_nat bytes_read) (of_nat bytes_written) m"

subsection \<open>Descriptors\<close>

text \<open>However a socket is moved, its descriptor is closed once.\<close>

lemma Socket_closed_once:
  "0 \<le> fd \<Longrightarrow> move_Socket fd = (new, old) \<Longrightarrow> destroy_Socket new (destroy_Socket old released) = released @ [fd]"
  "0 \<le> fd \<Longrightarrow> assign_Socket False this fd released = (new, old, released1) \<Longrightarrow>
    destroy_Socket new (destroy_Socket old released1) = destroy_Socket this released @ [fd]"
  by (auto simp: move_Socket_def assign_Socket_def destroy_Socket_def)

subsection \<open>Alive or gone\<close>

definition conn_alive :: "TcpConnection \<Rightarrow> bool" where
  "conn_alive c \<longleftrightarrow> conn_state c \<in> {kConnected, kDisconnecting} \<and> notified c = [True] \<and> closes c = 0"

definition conn_gone :: "TcpConnection \<Rightarrow> bool" where
  "conn_gone c \<longleftrightarrow> conn_state c = kDisconnected \<and> notified c = [True, False] \<and> closes c = 1"

definition settled :: "TcpConnection \<Rightarrow> bool" where
  "settled c \<longleftrightarrow> conn_alive c \<or> conn_gone c"

lemmas settled_defs = settled_def conn_alive_def conn_gone_def

lemma settled_update [simp]:
  "settled (c\<lparr>input_buffer := b\<rparr>) = settled c" "settled (c\<lparr>output_buffer := b\<rparr>) = settled c"
  "settled (c\<lparr>conn_epoll := e\<rparr>) = settled c" "settled (c\<lparr>sent_log := l\<rparr>) = settled c" "settled (c\<lparr>wire := x\<rparr>) = settled c"
  "settled (with_channel r c) = settled c" "settled (add_traffic m n c) = settled c" "settled (ReleaseOutput k c) = settled c"
  by (simp_all add: settled_defs with_channel_def add_traffic_def ReleaseOutput_def)

lemma settled_HandleClose [simp]: "settled c \<Longrightarrow> settled (HandleClose c)"
  by (auto simp: settled_defs HandleClose_def with_channel_def ReleaseOutput_def Connected_def Let_def)

lemma settled_ShutdownInLoop [simp]: "settled (ShutdownInLoop c) = settled c"
  by (simp add: settled_defs ShutdownInLoop_def)

lemma settled_buffer_rest [simp]: "settled (buffer_rest r c) = settled c"
  by (simp add: buffer_rest_def Let_def)

lemma settled_SendInLoop [simp]: "settled c \<Longrightarrow> settled (SendInLoop room m c)"
  by (simp add: SendInLoop_def Let_def HandleError_def split: sum.split)

lemma settled_HandleWrite [simp]: "settled c \<Longrightarrow> settled (HandleWrite room c)"
  by (simp add: HandleWrite_def Let_def HandleError_def split: sum.split)

lemma settled_ReserveOutput [simp]: "settled c \<Longrightarrow> settled (snd (ReserveOutput n c))"
  by (auto simp: ReserveOutput_def settled_defs split: if_splits)

lemma settled_Send_in_loop [simp]: "settled c \<Longrightarrow> settled (Send_in_loop room m c)"
  using settled_ReserveOutput [of c "length m"] by (cases "ReserveOutput (length m) c") (simp add: Send_in_loop_def)

lemma settled_Shutdown_in_loop [simp]:
  assumes "settled c"
  shows "settled (Shutdown_in_loop c)"
proof (cases "conn_state c = kConnected")
  case True
  with assms have "settled (c\<lparr>conn_state := kDisconnecting\<rparr>)" by (auto simp: settled_defs)
  with True show ?thesis by (simp add: Shutdown_in_loop_def)
qed (use assms in \<open>simp add: Shutdown_in_loop_def\<close>)

lemma settled_serve_commands: "settled c \<Longrightarrow> settled (fst (serve_commands room (c, x)))"
proof (induction room "(c, x)" arbitrary: c x rule: serve_commands.induct)
  case (1 room c x)
  then show ?case
    by (subst serve_commands.simps) (auto split: ParseResult.split sum.split simp: Let_def)
qed

lemma settled_HandleRead:
  "settled c \<Longrightarrow> settled (fst (HandleRead (serve_commands room) input (c, x)))"
  by (auto simp: HandleRead_def Let_def HandleError_def settled_serve_commands split: sum.split prod.split)

lemma settled_HandleEvent:
  assumes "settled c"
  shows "settled (fst (HandleEvent (conn_callbacks serve_commands input room1 room2) returned (c, x)))"
proof -
  obtain c2 x2 where r: "HandleRead (serve_commands room1) input (c, x) = (c2, x2)" by fastforce
  with settled_HandleRead [OF assms, of room1 input x] have "settled c2" by simp
  with assms r show ?thesis by (simp add: HandleEvent_def conn_callbacks_def Let_def HandleError_def)
qed

lemma settled_run_task: "settled c \<Longrightarrow> settled (run_task room t c)"
  by (cases t) (simp_all add: run_task_def)

subsection \<open>The server in operation\<close>

datatype server_action =
    AcceptReady "(int + (int \<times> string option \<times> nat)) list"
  | HandleReady int uint32 "int + string" "int + nat" "int + nat"
  | RunQueued int "int + nat" conn_task
  | WorkerReserves int nat

definition accepted_fds :: "(int + (int \<times> string option \<times> nat)) list \<Rightarrow> int list" where
  "accepted_fds answers = concat (map (\<lambda>a. case a of Inl _ \<Rightarrow> [] | Inr (fd, _) \<Rightarrow> [fd]) answers)"

fun server_do :: "server_action \<Rightarrow> (Metrics \<times> (int \<times> bool) list) TcpServer \<Rightarrow> (Metrics \<times> (int \<times> bool) list) TcpServer option" where
  "server_do (AcceptReady answers) sv =
     (if distinct (map fst (sv_connections sv) @ accepted_fds answers)
      then Some (snd (HandleAccept connection_callback answers sv)) else None)"
| "server_do (HandleReady fd returned input room1 room2) sv =
     run_handler connection_callback
       (\<lambda>c. fst (HandleEvent (conn_callbacks serve_commands input room1 room2) returned (c, []))) fd sv"
| "server_do (RunQueued fd room task) sv = run_handler connection_callback (run_task room task) fd sv"
| "server_do (WorkerReserves fd n) sv = run_handler connection_callback (\<lambda>c. snd (ReserveOutput n c)) fd sv"

definition open_sessions :: "(int \<times> bool) list \<Rightarrow> int set" where
  "open_sessions calls = fold (\<lambda>(fd, opened) s. if opened then insert fd s else s - {fd}) calls {}"

lemma open_sessions_snoc [simp]:
  "open_sessions (calls @ [(fd, opened)]) = (if opened then insert fd (open_sessions calls) else open_sessions calls - {fd})"
  by (simp add: open_sessions_def)

definition server_ok :: "(Metrics \<times> (int \<times> bool) list) TcpServer \<Rightarrow> bool" where
  "server_ok sv \<longleftrightarrow> distinct (map fst (sv_connections sv)) \<and> length (sv_connections sv) \<le> sv_max_clients sv \<and>
     (\<forall>p \<in> set (sv_connections sv). conn_alive (snd p)) \<and>
     m_active_connections (fst (sv_app sv)) = of_nat (length (sv_connections sv)) \<and>
     open_sessions (snd (sv_app sv)) = fst ` set (sv_connections sv)"

lemma server_ok_listen [simp]: "server_ok (sv\<lparr>sv_listen := ch, sv_epoll := ep, sv_started := b\<rparr>) = server_ok sv"
  by (simp add: server_ok_def)

lemma HandleAccept_ok:
  assumes "server_ok sv" and "distinct (map fst (sv_connections sv) @ accepted_fds answers)"
  shows "server_ok (snd (HandleAccept connection_callback answers sv))"
  using assms
proof (induction answers arbitrary: sv)
  case Nil
  then show ?case by simp
next
  case (Cons answer answers)
  show ?case
  proof (cases "Accept answer")
    case (Inl ex)
    with Cons.prems show ?thesis by simp
  next
    case (Inr r)
    show ?thesis
    proof (cases r)
      case None
      with Inr Cons.prems show ?thesis by simp
    next
      case (Some t)
      obtain fd address port where t: "t = (fd, address, port)" by (cases t)
      have fds: "accepted_fds (answer # answers) = fd # accepted_fds answers"
        using Inr Some t by (auto simp: Accept_def accepted_fds_def split: sum.splits if_splits prod.splits)
      show ?thesis
      proof (cases "length (sv_connections sv) \<ge> sv_max_clients sv")
        case True
        have "server_ok (sv\<lparr>sv_refused := sv_refused sv @ [fd]\<rparr>)" using Cons.prems(1) by (simp add: server_ok_def)
        from Cons.IH [OF this] Cons.prems(2) fds True Inr Some t show ?thesis by simp
      next
        case False
        let ?new = "ConnectEstablished ((new_TcpConnection fd (sv_epoll sv) (sv_options sv))\<lparr>conn_epoll := sv_epoll sv\<rparr>)"
        have new: "conn_alive ?new" "notified ?new = [True]"
          by (simp_all add: conn_alive_def ConnectEstablished_def new_TcpConnection_def with_channel_def Connected_def Let_def)
        have fresh: "notified (new_TcpConnection fd (sv_epoll sv) (sv_options sv)) = []" by (simp add: new_TcpConnection_def)
        obtain sv1 where w: "with_connection connection_callback ConnectEstablished fd (new_TcpConnection fd (sv_epoll sv) (sv_options sv)) sv = (?new, sv1)"
          and sv1: "sv1 = sv\<lparr>sv_epoll := conn_epoll ?new, sv_app := connection_callback fd True (sv_app sv)\<rparr>"
          using new(2) fresh by (simp add: with_connection_def Let_def)
        let ?sv2 = "sv1\<lparr>sv_connections := (fd, ?new) # sv_connections sv1,
          sv_peers := (fd, address @ '':'' @ to_string (int port)) # sv_peers sv1\<rparr>"
        have "server_ok ?sv2"
          using Cons.prems fds False new
          by (auto simp: server_ok_def sv1 connection_callback_def ConnectionOpened_def)
        moreover have "distinct (map fst (sv_connections ?sv2) @ accepted_fds answers)"
          using Cons.prems(2) fds by (auto simp: sv1)
        ultimately show ?thesis
          using Cons.IH [of ?sv2] False Inr Some t w by simp
      qed
    qed
  qed
qed

lemma RemoveConnection_gone:
  assumes "fd \<in> fst ` set (sv_connections sv)" and "conn_gone c"
  shows "\<exists>e. RemoveConnection cb fd c sv = sv\<lparr>sv_connections := filter (\<lambda>p. fst p \<noteq> fd) (sv_connections sv), sv_epoll := e\<rparr>"
proof -
  have "notified (ConnectDestroyed (c\<lparr>conn_epoll := e\<rparr>)) = notified c" for e
    using assms(2) by (auto simp: ConnectDestroyed_def conn_gone_def Let_def split: prod.splits)
  with assms(1) show ?thesis
    by (intro exI [of _ "conn_epoll (ConnectDestroyed (c\<lparr>conn_epoll := sv_epoll sv\<rparr>))"]) (simp add: RemoveConnection_def with_connection_def Let_def)
qed

lemma run_handler_ok:
  assumes ok: "server_ok sv" and f: "\<And>c. settled c \<Longrightarrow> settled (f c)" and step: "run_handler connection_callback f fd sv = Some sv'"
  shows "server_ok sv'"
proof -
  from step obtain c where c: "map_of (sv_connections sv) fd = Some c" by (auto simp: run_handler_def split: option.splits)
  then have mem: "(fd, c) \<in> set (sv_connections sv)" by (rule map_of_SomeD)
  with ok have al: "conn_alive c" by (auto simp: server_ok_def)
  let ?c1 = "f (c\<lparr>conn_epoll := sv_epoll sv\<rparr>)"
  have "settled c" using al by (simp add: settled_def)
  then have "settled ?c1" by (intro f) simp
  then consider (alive) "conn_alive ?c1" | (gone) "conn_gone ?c1" by (auto simp: settled_def)
  then show ?thesis
  proof cases
    case alive
    then have sv': "sv' = sv\<lparr>sv_epoll := conn_epoll ?c1, sv_connections := map (\<lambda>p. if fst p = fd then (fd, ?c1) else p) (sv_connections sv)\<rparr>"
      using step c al by (simp add: run_handler_def with_connection_def conn_alive_def Let_def)
    have keys: "map fst (sv_connections sv') = map fst (sv_connections sv)" by (simp add: sv' comp_def cong: map_cong)
    then have "fst ` set (sv_connections sv') = fst ` set (sv_connections sv)" by (metis set_map)
    moreover have "\<forall>p \<in> set (sv_connections sv'). conn_alive (snd p)" using ok alive by (auto simp: sv' server_ok_def)
    moreover have "length (sv_connections sv') = length (sv_connections sv)" "sv_max_clients sv' = sv_max_clients sv"
      "sv_app sv' = sv_app sv" by (simp_all add: sv')
    ultimately show ?thesis using ok keys by (simp add: server_ok_def)
  next
    case gone
    let ?sv1 = "sv\<lparr>sv_epoll := conn_epoll ?c1, sv_app := connection_callback fd False (sv_app sv)\<rparr>"
    have "sv' = RemoveConnection connection_callback fd ?c1 ?sv1"
      using step c al gone by (simp add: run_handler_def with_connection_def conn_alive_def conn_gone_def Let_def)
    moreover have "fd \<in> fst ` set (sv_connections ?sv1)" using mem by force
    ultimately obtain e where sv': "sv' = ?sv1\<lparr>sv_connections := filter (\<lambda>p. fst p \<noteq> fd) (sv_connections ?sv1), sv_epoll := e\<rparr>"
      using RemoveConnection_gone [OF _ gone, of fd ?sv1 connection_callback] by metis
    have "Suc (length (filter (\<lambda>q. fst q \<noteq> fd) (sv_connections sv))) = length (sv_connections sv)"
      using length_filter_neq_Suc [OF _ mem] ok by (simp add: server_ok_def)
    then have "of_nat (length (sv_connections sv)) - 1 = (of_nat (length (filter (\<lambda>q. fst q \<noteq> fd) (sv_connections sv))) :: uint64)"
      by (metis add_diff_cancel_left' of_nat_Suc)
    with ok \<open>Suc _ = _\<close> show ?thesis
      by (auto simp: server_ok_def sv' connection_callback_def ConnectionClosed_def distinct_map_filter)
  qed
qed

interpretation server_machine: inductive_invariant server_do server_ok
proof
  fix sv a sv'
  assume ok: "server_ok sv" and step: "server_do a sv = Some sv'"
  show "server_ok sv'"
  proof (cases a)
    case (AcceptReady answers)
    with step ok HandleAccept_ok [OF ok, of answers] show ?thesis by (auto split: if_splits)
  next
    case (HandleReady fd returned input room1 room2)
    with step show ?thesis by (auto intro: run_handler_ok [OF ok] settled_HandleEvent)
  next
    case (RunQueued fd room task)
    with step show ?thesis by (auto intro: run_handler_ok [OF ok] settled_run_task)
  next
    case (WorkerReserves fd n)
    with step have "run_handler connection_callback (\<lambda>c. snd (ReserveOutput n c)) fd sv = Some sv'" by simp
    then show ?thesis by (rule run_handler_ok [OF ok, rotated]) simp
  qed
qed

lemma destroy_all_ok:
  assumes "distinct (map fst cs)" "\<forall>p \<in> set cs. conn_alive (snd p)"
    "m_active_connections (fst (sv_app sv)) = of_nat (length cs)" "open_sessions (snd (sv_app sv)) = fst ` set cs"
  shows "sv_connections (destroy_all connection_callback cs sv) = [] \<and>
    m_active_connections (fst (sv_app (destroy_all connection_callback cs sv))) = 0 \<and>
    open_sessions (snd (sv_app (destroy_all connection_callback cs sv))) = {}"
  using assms
proof (induction cs arbitrary: sv)
  case Nil
  then show ?case by simp
next
  case (Cons p cs)
  obtain fd c where p: "p = (fd, c)" by fastforce
  have al: "conn_alive c" using Cons.prems(2) p by simp
  have "notified (ConnectDestroyed (c\<lparr>conn_epoll := e\<rparr>)) = notified c @ [False]" for e
    using al by (auto simp: ConnectDestroyed_def conn_alive_def with_channel_def Connected_def Let_def split: prod.splits)
  then have app: "sv_app (snd (with_connection connection_callback ConnectDestroyed fd c sv)) = connection_callback fd False (sv_app sv)"
    by (simp add: with_connection_def Let_def)
  have closed: "m_active_connections (fst (connection_callback fd False x)) = m_active_connections (fst x) - 1"
    "open_sessions (snd (connection_callback fd False x)) = open_sessions (snd x) - {fd}" for x
    by (simp_all add: connection_callback_def ConnectionClosed_def)
  have "distinct (map fst cs)" "\<forall>p \<in> set cs. conn_alive (snd p)" "fd \<notin> fst ` set cs" using Cons.prems p by auto
  then show ?case
    using Cons.IH [of "snd (with_connection connection_callback ConnectDestroyed fd c sv)"] Cons.prems(3,4) p app closed by auto
qed

lemma Destroy_TcpServer_ok:
  assumes "server_ok sv"
  shows "sv_connections (Destroy_TcpServer connection_callback sv) = [] \<and>
    m_active_connections (fst (sv_app (Destroy_TcpServer connection_callback sv))) = 0 \<and>
    open_sessions (snd (sv_app (Destroy_TcpServer connection_callback sv))) = {}"
proof -
  obtain ch ep where "Destroy_TcpServer connection_callback sv =
      destroy_all connection_callback (sv_connections sv) (sv\<lparr>sv_listen := ch, sv_epoll := ep\<rparr>)"
    by (cases "DisableAll None (sv_listen sv) (sv_epoll sv)"; cases "RemoveChannel None (fst (snd (DisableAll None (sv_listen sv) (sv_epoll sv))))
          (snd (snd (DisableAll None (sv_listen sv) (sv_epoll sv))))") (simp add: Destroy_TcpServer_def)
  with assms show ?thesis by (simp add: server_ok_def destroy_all_ok)
qed

text \<open>
  C28. The server never holds more connections than \<open>max_clients\<close>: over every sequence of accepts, events of
  the connections, tasks of the loop and reservations of worker threads, the open connections have distinct
  descriptors, the metrics count exactly them, and the dispatcher has a session open for exactly them.
  Destroying the server closes every one, leaving a count of zero and no open session.
\<close>

theorem server_connection_limit:
  assumes "new_TcpServer socket_answer reuse_fault is_ipv4 bind_fault ep address max_clients options (new_metrics, []) = Inr sv0"
    and "Start listen_fault ctl_fault sv0 = (Inr (), sv1)" and "reaches server_do sv1 sv"
  shows "ConnectionCount sv \<le> sv_max_clients sv \<and> distinct (map fst (sv_connections sv)) \<and>
    m_active_connections (fst (sv_app sv)) = of_nat (ConnectionCount sv) \<and>
    open_sessions (snd (sv_app sv)) = fst ` set (sv_connections sv) \<and>
    ConnectionCount (Destroy_TcpServer connection_callback sv) = 0 \<and>
    m_active_connections (fst (sv_app (Destroy_TcpServer connection_callback sv))) = 0 \<and>
    open_sessions (snd (sv_app (Destroy_TcpServer connection_callback sv))) = {}"
proof -
  have "server_ok sv0" using assms(1)
    by (auto simp: new_TcpServer_def server_ok_def new_metrics_def open_sessions_def split: sum.splits)
  then have "server_ok sv1" using assms(2) by (auto simp: Start_def split: if_splits sum.splits prod.splits)
  with assms(3) have "server_ok sv" by (rule server_machine.on_reaches)
  with Destroy_TcpServer_ok [OF this] show ?thesis by (auto simp: server_ok_def ConnectionCount_def)
qed

lemma EnableReading_new:
  "ep fd = None \<Longrightarrow> EnableReading None (new_Channel fd) ep =
     (Inr (), \<lparr>ch_fd = fd, ch_events = kReadEvents, added_to_loop = True\<rparr>, ep(fd \<mapsto> kReadEvents))"
  by (simp add: EnableReading_def UpdateChannel_def HasNoEvents_def new_Channel_def epoll_ctl_def kReadEvents_def EPOLLIN_def
      EPOLLPRI_def EPOLLRDHUP_def)

definition sample_server :: "(Metrics \<times> (int \<times> bool) list) TcpServer" where
  "sample_server =
     (case new_TcpServer (Inr 3) None True None (\<lambda>_. None) ''127.0.0.1'' 1 default_options (new_metrics, []) of
        Inr sv \<Rightarrow> snd (Start None None sv))"

text \<open>Two clients at a limit of one: the second is refused.\<close>

theorem server_connection_limit_witness:
  "map_option (\<lambda>sv. (map fst (sv_connections sv), sv_refused sv, m_active_connections (fst (sv_app sv))))
     (run_actions server_do [AcceptReady [Inr (5, Some ''10.0.0.1'', 4000), Inr (6, None, 4001), Inl EAGAIN]] sample_server)
   = Some ([5], [6], 1)"
proof -
  let ?run = "run_actions server_do [AcceptReady [Inr (5, Some ''10.0.0.1'', 4000), Inr (6, None, 4001), Inl EAGAIN]] sample_server"
  have "sv_connections sample_server = []" "sv_refused sample_server = []" "sv_max_clients sample_server = 1"
    by (simp_all add: sample_server_def new_TcpServer_def CreateNonBlocking_def SetReuseAddress_def Bind_def Start_def Listen_def
        EnableReading_new)
  then have "map_option (\<lambda>sv. (map fst (sv_connections sv), sv_refused sv)) ?run = Some ([5], [6])"
    by (simp add: accepted_fds_def Accept_def with_connection_def Let_def)
  then obtain sv where sv: "?run = Some sv" "map fst (sv_connections sv) = [5]" "sv_refused sv = [6]" by auto
  obtain sv0 where new: "new_TcpServer (Inr 3) None True None (\<lambda>_. None) ''127.0.0.1'' 1 default_options (new_metrics, []) = Inr sv0"
    "Start None None sv0 = (Inr (), sample_server)"
    by (simp add: new_TcpServer_def sample_server_def CreateNonBlocking_def SetReuseAddress_def Bind_def Start_def Listen_def
        EnableReading_new)
  have "ConnectionCount sv = 1" using sv(2) by (auto simp: ConnectionCount_def)
  with server_connection_limit [OF new run_actions_reaches [OF sv(1)]] sv show ?thesis by simp
qed

end
