(* ===== verification/Admin_Server.thy ===== *)
theory Admin_Server
  imports Tcp_Server Std_String
begin

text \<open>
  The HTTP endpoint: src/include/cachefly/http/admin_server.h and src/src/http/admin_server.cpp.  What the
  status and configuration callbacks return at the moment of a request is part of the state the message
  callback reads.
\<close>

record AdminServer =
  admin_metrics :: Metrics
  status_callback :: string
  config_callback :: string

text \<open>\<open>max_clients\<close> and the limits of a connection.\<close>

definition AdminServerOptions :: "nat \<times> TcpConnectionOptions" where
  "AdminServerOptions =
     (128, default_options\<lparr>opt_max_request_bytes := 64 * 1024, opt_max_output_bytes := 1 * 1024 * 1024\<rparr>)"

definition new_AdminServer ::
    "int + int \<Rightarrow> int option \<Rightarrow> bool \<Rightarrow> int option \<Rightarrow> epoll \<Rightarrow> string \<Rightarrow> 'x \<Rightarrow> std_exception + 'x TcpServer" where
  "new_AdminServer socket_answer reuse_fault is_ipv4 bind_fault ep address x =
     new_TcpServer socket_answer reuse_fault is_ipv4 bind_fault ep address (fst AdminServerOptions) (snd AdminServerOptions) x"

definition admin_Start :: "int option \<Rightarrow> int option \<Rightarrow> 'x TcpServer \<Rightarrow> (std_exception + unit) \<times> 'x TcpServer" where
  "admin_Start listen_fault ctl_fault sv = Start listen_fault ctl_fault sv"

definition HttpResponse :: "int \<Rightarrow> string \<Rightarrow> string \<Rightarrow> string" where
  "HttpResponse status content_type body =
     (let reason = (if status = 200 then ''OK'' else if status = 400 then ''Bad Request'' else ''Not Found'')
      in ''HTTP/1.1 '' @ to_string status @ '' '' @ reason @ CRLF @
         ''Content-Type: '' @ content_type @ CRLF @
         ''Content-Length: '' @ to_string (int (length body)) @ CRLF @
         ''Connection: close'' @ CRLF @ CRLF @ body)"

definition ResponseForPath :: "AdminServer \<Rightarrow> string \<Rightarrow> string" where
  "ResponseForPath admin path =
     (if path = ''/metrics'' then HttpResponse 200 ''text/plain; version=0.0.4'' (Prometheus (admin_metrics admin))
      else if path = ''/status'' then HttpResponse 200 ''application/json'' (status_callback admin)
      else if path = ''/config'' then HttpResponse 200 ''application/json'' (config_callback admin)
      else HttpResponse 404 ''text/plain'' (''not found'' @ [LF]))"

definition bad_request :: string where
  "bad_request = HttpResponse 400 ''text/plain'' (''bad request'' @ [LF])"

text \<open>The response to a request line.\<close>

definition respond :: "AdminServer \<Rightarrow> string \<Rightarrow> string" where
  "respond admin line =
     (case str_find '' '' line of
        None \<Rightarrow> bad_request
      | Some first_space \<Rightarrow>
          (case str_find_from '' '' (first_space + 1) line of
             None \<Rightarrow> bad_request
           | Some second_space \<Rightarrow>
               if take first_space line \<noteq> ''GET'' then bad_request
               else ResponseForPath admin (take (second_space - first_space - 1) (drop (first_space + 1) line))))"

definition admin_message :: "int + nat \<Rightarrow> TcpConnection \<times> AdminServer \<Rightarrow> TcpConnection \<times> AdminServer" where
  "admin_message room s =
     (case s of
        (c, admin) \<Rightarrow>
          (let data = View (input_buffer c)
           in case str_find (CRLF @ CRLF) data of
                None \<Rightarrow> (c, admin)
              | Some headers_end \<Rightarrow>
                  (let line = (case str_find CRLF data of None \<Rightarrow> data | Some line_end \<Rightarrow> take line_end data);
                       response = respond admin line
                   in case Retrieve (headers_end + 4) (input_buffer c) of
                        Inl ex \<Rightarrow> (c, admin)
                      | Inr buffer \<Rightarrow>
                          (Shutdown_in_loop (Send_in_loop room response (c\<lparr>input_buffer := buffer\<rparr>)), admin))))"

subsection \<open>The endpoint on a connection\<close>

lemma admin_message_retrieves:
  assumes "buf_wf (input_buffer c)" and "str_find (CRLF @ CRLF) (View (input_buffer c)) = Some n"
  shows "\<exists>b. Retrieve (n + 4) (input_buffer c) = Inr b \<and> buf_wf b \<and> View b = drop (n + 4) (View (input_buffer c))"
proof -
  from str_find_Some [OF assms(2)] have "n + 4 \<le> length (View (input_buffer c))" by simp
  then show ?thesis using buffer.retrieve [OF assms(1)] by blast
qed

interpretation admin: message_handler admin_message
proof
  fix k c room x
  assume inv: "live_inv k c"
  then have wf: "buf_wf (input_buffer c)" by (simp add: live_inv_def inv_defs)
  show "live_inv k (fst (admin_message room (c, x)))"
  proof (cases "str_find (CRLF @ CRLF) (View (input_buffer c))")
    case None
    with inv show ?thesis by (simp add: admin_message_def)
  next
    case (Some n)
    then obtain b where "Retrieve (n + 4) (input_buffer c) = Inr b" "buf_wf b" using admin_message_retrieves [OF wf] by blast
    with Some set_input_inv [OF inv] show ?thesis
      by (simp add: admin_message_def Let_def Shutdown_in_loop_inv Send_in_loop_inv)
  qed
qed

text \<open>
  The pending output of an admin connection is bounded like that of a client, and its bytes go out in
  order: the invariant of a connection holds with this callback too.
\<close>

lemma admin_reaches_sys_inv:
  assumes "ep fd = None" and "reaches (conn_do admin_message) (new_conn_system fd ep (snd AdminServerOptions) threads x) s"
  shows "sys_inv s"
proof (rule admin.connection.on_reaches [OF assms(2)])
  show "sys_inv (new_conn_system fd ep (snd AdminServerOptions) threads x)"
    using assms(1) by (intro sys_inv_start) (simp_all add: AdminServerOptions_def)
qed

subsection \<open>One response per connection\<close>

text \<open>Before the response the connection is open; with the response its end has begun.\<close>

definition is_response :: "string \<Rightarrow> bool" where
  "is_response m \<longleftrightarrow> (\<exists>admin line. m = respond admin line)"

lemma is_response_respond [simp]: "is_response (respond admin line)"
  by (auto simp: is_response_def)

definition one_response :: "TcpConnection \<Rightarrow> bool" where
  "one_response c \<longleftrightarrow> (conn_state c \<in> {kConnecting, kConnected} \<longrightarrow> sent_log c = []) \<and>
     length (sent_log c) \<le> 1 \<and> (\<forall>m \<in> set (sent_log c). is_response m)"

lemma one_response_update [simp]:
  "one_response (c\<lparr>input_buffer := b\<rparr>) = one_response c" "one_response (c\<lparr>output_buffer := b\<rparr>) = one_response c"
  "one_response (c\<lparr>wire := w\<rparr>) = one_response c" "one_response (with_channel r c) = one_response c"
  "one_response (add_traffic m n c) = one_response c" "one_response (ReleaseOutput k c) = one_response c"
  "one_response (buffer_rest rest c) = one_response c" "one_response (ShutdownInLoop c) = one_response c"
  "one_response (HandleError c) = one_response c"
  by (simp_all add: one_response_def with_channel_def add_traffic_def ReleaseOutput_def buffer_rest_def ShutdownInLoop_def
      HandleError_def Let_def)

lemma HandleClose_state [simp]: "conn_state (HandleClose c) = kDisconnected" "sent_log (HandleClose c) = sent_log c"
  by (auto simp: HandleClose_def with_channel_def ReleaseOutput_def Let_def)

lemma one_response_HandleClose [simp]: "one_response c \<Longrightarrow> one_response (HandleClose c)"
  by (auto simp: one_response_def)

lemma one_response_HandleWrite: "one_response c \<Longrightarrow> one_response (HandleWrite room c)"
  by (simp add: HandleWrite_def Let_def split: sum.split)

lemma buffer_rest_log [simp]: "sent_log (buffer_rest rest c) = sent_log c" "conn_state (buffer_rest rest c) = conn_state c"
  by (simp_all add: buffer_rest_def with_channel_def Let_def)

lemma SendInLoop_log:
  "conn_state c = kConnected \<Longrightarrow> sent_log (SendInLoop room m c) = sent_log c @ [m] \<and>
    conn_state (SendInLoop room m c) \<in> {kConnected, kDisconnected}"
  by (auto simp: SendInLoop_def Let_def add_traffic_def ReleaseOutput_def HandleError_def split: sum.split)

lemma one_response_admin_message:
  assumes "one_response c"
  shows "one_response (fst (admin_message room (c, admin)))"
proof -
  have "one_response (Shutdown_in_loop (Send_in_loop room (respond admin line) (c\<lparr>input_buffer := b\<rparr>)))" for line b
  proof (cases "conn_state c = kConnected")
    case True
    then have log: "sent_log c = []" using assms by (simp add: one_response_def)
    let ?c = "c\<lparr>input_buffer := b, pending_output := pending_output c + length (respond admin line)\<rparr>"
    have "sent_log (SendInLoop room (respond admin line) ?c) = [respond admin line] \<and>
        conn_state (SendInLoop room (respond admin line) ?c) \<in> {kConnected, kDisconnected}"
      using SendInLoop_log [of ?c room "respond admin line"] True log by simp
    moreover have "Send_in_loop room (respond admin line) (c\<lparr>input_buffer := b\<rparr>) \<in>
        {HandleClose (c\<lparr>input_buffer := b\<rparr>), SendInLoop room (respond admin line) ?c}"
      using True by (simp add: Send_in_loop_def ReserveOutput_def Connected_def)
    ultimately show ?thesis
      using log by (auto simp: Shutdown_in_loop_def one_response_def ShutdownInLoop_def)
  qed (use assms in \<open>simp add: Send_in_loop_def Shutdown_in_loop_def Connected_def\<close>)
  with assms show ?thesis by (auto simp: admin_message_def Let_def split: option.split sum.split)
qed

text \<open>No thread but the loop thread sends on an admin connection.\<close>

definition admin_ok :: "AdminServer conn_system \<Rightarrow> bool" where
  "admin_ok s \<longleftrightarrow> one_response (conn s) \<and> senders s = [] \<and> loop_tasks s = []"

interpretation admin_responses: inductive_invariant "conn_do admin_message" admin_ok
proof
  fix s a s'
  assume ok: "admin_ok s" and step: "conn_do admin_message a s = Some s'"
  have read: "one_response c \<Longrightarrow> one_response (fst (HandleRead (admin_message room) input (c, x)))" for c x room input
    by (auto simp: HandleRead_def Let_def one_response_admin_message split: sum.split prod.split)
  have event: "one_response (fst (HandleEvent (conn_callbacks admin_message input room1 room2) returned (conn s, app s)))"
    for input room1 room2 returned
  proof -
    obtain c2 x2 where r: "HandleRead (admin_message room1) input (conn s, app s) = (c2, x2)" by fastforce
    with read [of "conn s" room1 input "app s"] ok have "one_response c2" by (simp add: admin_ok_def)
    with ok r show ?thesis by (simp add: HandleEvent_def conn_callbacks_def Let_def admin_ok_def HandleError_def one_response_HandleWrite)
  qed
  show "admin_ok s'"
  proof (cases a)
    case (Event returned input room1 room2)
    obtain c x where "HandleEvent (conn_callbacks admin_message input room1 room2) returned (conn s, app s) = (c, x)" by fastforce
    with Event step ok event [of input room1 room2 returned] show ?thesis by (auto simp: admin_ok_def split: if_splits)
  qed (use ok step in \<open>auto simp: admin_ok_def one_response_def ConnectEstablished_def ConnectDestroyed_def with_channel_def Let_def
      split: if_splits prod.splits\<close>)
qed

lemma admin_at_most_one_response:
  assumes "reaches (conn_do admin_message) (new_conn_system fd ep options 0 x) s"
  shows "length (sent_log (conn s)) \<le> 1 \<and> (\<forall>m \<in> set (sent_log (conn s)). \<exists>admin line. m = respond admin line)"
proof -
  have "admin_ok (new_conn_system fd ep options 0 x)"
    by (simp add: admin_ok_def one_response_def new_conn_system_def new_TcpConnection_def)
  from admin_responses.on_reaches [OF assms this] show ?thesis by (simp add: admin_ok_def one_response_def is_response_def)
qed

subsection \<open>Framing of a response\<close>

text \<open>The header ends where the first empty line is, and the body has the announced length.\<close>

lemma str_find_skip: "str_find pat s = Some n \<Longrightarrow> pat \<noteq> [] \<Longrightarrow> hd pat \<notin> set p \<Longrightarrow> str_find pat (p @ s) = Some (length p + n)"
proof (induction p)
  case (Cons c p)
  then have "take (length pat) (c # p @ s) \<noteq> pat" by (cases pat) auto
  with Cons show ?case by simp
qed simp

lemma str_find_CRLF_skip:
  assumes "CR \<notin> set p" "s \<noteq> []" "hd s \<noteq> CR" "str_find (CRLF @ CRLF) s = Some n"
  shows "str_find (CRLF @ CRLF) (p @ CRLF @ s) = Some (length p + 2 + n)"
proof -
  obtain c t where s: "s = c # t" using assms(2) by (cases s) auto
  have "str_find (CRLF @ CRLF) (CRLF @ s) = Some (2 + n)" using assms(3,4) s by simp
  from str_find_skip [OF this _, of p] assms(1) show ?thesis by simp
qed

lemma HttpResponse_framed:
  assumes "CR \<notin> set content_type" and "0 \<le> status"
  shows "\<exists>header. HttpResponse status content_type body = header @ CRLF @ CRLF @ body \<and>
    str_find (CRLF @ CRLF) (HttpResponse status content_type body) = Some (length header) \<and>
    (\<exists>before. header = before @ ''Content-Length: '' @ to_string (int (length body)) @ CRLF @ ''Connection: close'')"
proof -
  let ?reason = "if status = 200 then ''OK'' else if status = 400 then ''Bad Request'' else ''Not Found''"
  let ?l1 = "''HTTP/1.1 '' @ to_string status @ '' '' @ ?reason" and ?l2 = "''Content-Type: '' @ content_type"
    and ?l3 = "''Content-Length: '' @ to_string (int (length body))" and ?l4 = "''Connection: close''"
  let ?header = "?l1 @ CRLF @ ?l2 @ CRLF @ ?l3 @ CRLF @ ?l4"
  have resp: "HttpResponse status content_type body = ?header @ CRLF @ CRLF @ body"
    by (simp add: HttpResponse_def Let_def)
  have "str_find (CRLF @ CRLF) (CRLF @ CRLF @ body) = Some 0" by simp
  from str_find_skip [OF this, of ?l4] have 4: "str_find (CRLF @ CRLF) (?l4 @ CRLF @ CRLF @ body) = Some (length ?l4)" by simp
  have 3: "str_find (CRLF @ CRLF) (?l3 @ CRLF @ ?l4 @ CRLF @ CRLF @ body) = Some (length ?l3 + 2 + length ?l4)"
    by (rule str_find_CRLF_skip [OF _ _ _ 4]) simp_all
  have 2: "str_find (CRLF @ CRLF) (?l2 @ CRLF @ ?l3 @ CRLF @ ?l4 @ CRLF @ CRLF @ body) = Some (length ?l2 + 2 + (length ?l3 + 2 + length ?l4))"
    by (rule str_find_CRLF_skip [OF _ _ _ 3]) (use assms(1) in simp_all)
  have "str_find (CRLF @ CRLF) (?l1 @ CRLF @ ?l2 @ CRLF @ ?l3 @ CRLF @ ?l4 @ CRLF @ CRLF @ body) =
      Some (length ?l1 + 2 + (length ?l2 + 2 + (length ?l3 + 2 + length ?l4)))"
    by (rule str_find_CRLF_skip [OF _ _ _ 2]) simp_all
  moreover have "length ?l1 + 2 + (length ?l2 + 2 + (length ?l3 + 2 + length ?l4)) = length ?header" by simp
  moreover have assoc: "?header @ CRLF @ CRLF @ body = ?l1 @ CRLF @ ?l2 @ CRLF @ ?l3 @ CRLF @ ?l4 @ CRLF @ CRLF @ body" by (simp only: append_assoc)
  ultimately have found: "str_find (CRLF @ CRLF) (HttpResponse status content_type body) = Some (length ?header)" by (simp only: resp assoc)
  have parts: "?header = (?l1 @ CRLF @ ?l2 @ CRLF) @ ''Content-Length: '' @ to_string (int (length body)) @ CRLF @ ?l4"
    by (simp only: append_assoc)
  show ?thesis by (rule exI, rule conjI, rule resp, rule conjI, rule found, rule exI, rule parts)
qed

end
