(* ===== verification/Main_Program.thy ===== *)
theory Main_Program
  imports Recovery Config_Theorems Admin_Server
begin

text \<open>
  The wiring of src/src/main.cpp around the components: the order of startup, the hooks of the append-only
  file, the options of the servers, the status report, and the snapshot on a clean shutdown.  What the
  operating system answers is an argument.  The recovery itself is in \<open>Recovery\<close>, the callbacks of the RESP
  server in \<open>Message_Loop\<close> and \<open>Tcp_Server\<close>.
\<close>

subsection \<open>Help and signals\<close>

definition Usage :: "string \<Rightarrow> string" where
  "Usage executable =
     ''Usage: '' @ executable @ '' [--config=PATH] [--key=value ...]'' @ [LF] @
     ''Keys: bind, port, shard_threads, max_clients, max_request_bytes, '' @
     ''max_output_bytes, maxmemory, eviction_policy, log_level, log_file, '' @
     ''appendonly, appendfilename, appendfsync, snapshot, snapshotfilename, '' @
     ''admin_port'' @ [LF]"

definition HandleSignal :: "'t EventLoop option \<Rightarrow> 't EventLoop option" where
  "HandleSignal g_loop = map_option Quit g_loop"

subsection \<open>The hooks of the append-only file\<close>

text \<open>\<open>await\<close>: what \<open>future.get()\<close> of \<open>Append\<close> returns or throws once the writer has fulfilled the promise.\<close>

definition aof_callback :: "(nat \<Rightarrow> std_exception + unit) \<Rightarrow> string list \<Rightarrow> AofWriter \<Rightarrow> (std_exception + unit) \<times> AofWriter" where
  "aof_callback await command w =
     (case Append command w of
        (Inl ex, w') \<Rightarrow> (Inl ex, w')
      | (Inr None, w') \<Rightarrow> (Inr (), w')
      | (Inr (Some promise), w') \<Rightarrow> (await promise, w'))"

definition aof_hooks :: "(nat \<Rightarrow> std_exception + unit) \<Rightarrow> AofWriter MutationHooks" where
  "aof_hooks await = \<lparr>mutation_callback = Some (aof_callback await), mutation_guard = Some CheckError\<rparr>"

subsection \<open>Startup\<close>

record program =
  prog_config :: ServerConfig
  prog_logger :: Logger
  prog_database :: "KvStore list"
  prog_recovered :: nat
  prog_aof_file :: "string option"
  prog_aof :: "AofWriter option"

text \<open>
  The part of the surroundings that startup reads: the configuration files, whether the log file opens,
  the persistence files, what \<open>resize_file\<close> throws, the error of opening the append-only file, if any, and how much of that file is on the
  disk.
\<close>

record system =
  sys_strerror :: "int \<Rightarrow> string"
  sys_config_files :: "string \<Rightarrow> string option"
  sys_log_opens :: bool
  sys_logs :: "string \<Rightarrow> string"
  sys_files :: "string \<Rightarrow> string option"
  sys_resize_error :: "std_exception option"
  sys_aof_errno :: "int option"
  sys_aof_on_disk :: nat

text \<open>An exception ends startup.\<close>

definition and_then :: "std_exception + 'a \<Rightarrow> ('a \<Rightarrow> std_exception + 'b) \<Rightarrow> std_exception + 'b" where
  "and_then x f = (case x of Inl ex \<Rightarrow> Inl ex | Inr a \<Rightarrow> f a)"

definition open_log :: "system \<Rightarrow> ServerConfig \<Rightarrow> std_exception + Logger" where
  "open_log sys config =
     and_then (ParseLogLevel (cfg_log_level config)) (\<lambda>level.
       let (opened, logger) = SetOutputFile (sys_log_opens sys) (log_file config) (SetLevel level (new_Logger (sys_logs sys)))
       in if opened then Inr logger else Inl (runtime_error (''failed to open log file: '' @ log_file config)))"

definition open_aof :: "system \<Rightarrow> ServerConfig \<Rightarrow> string option \<Rightarrow> std_exception + AofWriter option" where
  "open_aof sys config content =
     (if \<not> appendonly config then Inr None
      else and_then (ParseFsyncPolicy (appendfsync config)) (\<lambda>fsync_policy.
             and_then (new_AofWriter (case sys_aof_errno sys of
                                        Some errno \<Rightarrow> Inl errno
                                      | None \<Rightarrow> Inr (case content of None \<Rightarrow> [] | Some text \<Rightarrow> text, sys_aof_on_disk sys)) fsync_policy)
               (\<lambda>aof. Inr (Some aof))))"

definition startup ::
    "system \<Rightarrow> hash_function \<Rightarrow> (nat \<Rightarrow> nat \<Rightarrow> call_env) \<Rightarrow> (nat \<Rightarrow> uint64) \<Rightarrow> string list \<Rightarrow> std_exception + program" where
  "startup sys hash env elapsed args =
     and_then (LoadFromArgs (sys_strerror sys) (sys_config_files sys) args) (\<lambda>config.
     and_then (open_log sys config) (\<lambda>logger.
     and_then (ParseEvictionPolicy (cfg_eviction_policy config)) (\<lambda>pol.
     and_then (new_ShardedDatabase (unat (shard_threads config)) (maxmemory_bytes config) pol (Some new_metrics)) (\<lambda>d0.
       let (result, content, _, d, _) =
             recover (replay_command (\<lambda>n i. sharded_database hash (env n i)) elapsed)
               (appendonly config) (snapshot config) (sys_resize_error sys)
               (sys_files sys (appendfilename config)) (sys_files sys (snapshotfilename config)) (0, d0, Some new_metrics)
       in and_then result (\<lambda>recovered.
          and_then (open_aof sys config content) (\<lambda>aof.
            Inr \<lparr>prog_config = config, prog_logger = logger, prog_database = d, prog_recovered = recovered,
                 prog_aof_file = content, prog_aof = aof\<rparr>))))))"

text \<open>The exit status and what is printed: help, or the text of a fatal error.\<close>

definition main_exit :: "system \<Rightarrow> string \<Rightarrow> string list \<Rightarrow> std_exception + 'a \<Rightarrow> nat \<times> string" where
  "main_exit sys executable args run =
     (if args = [''--help''] then (0, Usage executable)
      else case run of
             Inl ex \<Rightarrow> (1, ''fatal error: '' @ what (sys_strerror sys) ex @ [LF])
           | Inr _ \<Rightarrow> (0, []))"

subsection \<open>Servers\<close>

definition server_options :: "ServerConfig \<Rightarrow> nat \<times> TcpConnectionOptions" where
  "server_options config =
     (unat (max_clients config),
      default_options\<lparr>opt_max_request_bytes := unat (cfg_max_request_bytes config),
        opt_max_output_bytes := unat (cfg_max_output_bytes config)\<rparr>)"

definition status_json :: "uint64 \<times> uint64 \<Rightarrow> Metrics \<Rightarrow> AofWriter option \<Rightarrow> string" where
  "status_json stats m aof =
     (let (keys, bytes) = stats;
          persistence_ok = (case aof of None \<Rightarrow> True | Some w \<Rightarrow> (case CheckError w of Inl _ \<Rightarrow> False | Inr _ \<Rightarrow> True))
      in ''{'' @ AppendJsonString ''status'' @ '':'' @ AppendJsonString (if persistence_ok then ''ok'' else ''degraded'') @
         '','' @ AppendJsonString ''persistence'' @ '':'' @ AppendJsonString (if persistence_ok then ''ok'' else ''error'') @
         '','' @ AppendJsonString ''connections'' @ '':'' @ show_word (m_active_connections m) @
         '','' @ AppendJsonString ''commands'' @ '':'' @ show_word (m_commands m) @
         '','' @ AppendJsonString ''keys'' @ '':'' @ show_word keys @
         '','' @ AppendJsonString ''memory_bytes'' @ '':'' @ show_word bytes @ ''}'')"

definition admin_state :: "program \<Rightarrow> call_env \<Rightarrow> Metrics \<Rightarrow> AdminServer" where
  "admin_state p ce m =
     \<lparr>admin_metrics = m, status_callback = status_json (fst (sh_Stats ce (prog_database p))) m (prog_aof p),
      config_callback = ToJson (prog_config p)\<rparr>"

subsection \<open>Bringing the servers up\<close>

text \<open>What the operating system answers to one server that starts listening.\<close>

record listen_answers =
  ans_socket :: "int + int"
  ans_reuse :: "int option"
  ans_ipv4 :: bool
  ans_bind :: "int option"
  ans_listen :: "int option"
  ans_ctl :: "int option"

text \<open>The objects main holds while the loop runs.  The interest list is the one of the loop.\<close>

record 'r running =
  run_dispatcher :: "'r dispatcher"
  run_loop :: loop_descriptors
  run_server :: "(Metrics \<times> (int \<times> bool) list) TcpServer"
  run_admin :: "unit TcpServer"

definition started :: "(std_exception + unit) \<times> 'a \<Rightarrow> std_exception + 'a" where
  "started result = and_then (fst result) (\<lambda>_. Inr (snd result))"

definition bring_up ::
    "nat \<Rightarrow> nat \<Rightarrow> int + int \<Rightarrow> int + int \<Rightarrow> int option \<Rightarrow> listen_answers \<Rightarrow> listen_answers \<Rightarrow> Metrics \<Rightarrow> program \<Rightarrow>
     std_exception + 'r running" where
  "bring_up n_clients this_thread epoll_answer eventfd_answer ctl_fault resp http m p =
     (let config = prog_config p; (clients, options) = server_options config
      in and_then (new_AsyncDispatcher n_clients True (unat (shard_threads config))) (\<lambda>dispatcher.
         and_then (construct_EventLoop this_thread epoll_answer eventfd_answer ctl_fault) (\<lambda>loop.
         and_then (new_TcpServer (ans_socket resp) (ans_reuse resp) (ans_ipv4 resp) (ans_bind resp) (interest loop)
                     (bind_address config) clients options (m, [])) (\<lambda>server0.
         and_then (started (Start (ans_listen resp) (ans_ctl resp) server0)) (\<lambda>server.
         and_then (new_AdminServer (ans_socket http) (ans_reuse http) (ans_ipv4 http) (ans_bind http) (sv_epoll server)
                     (bind_address config) ()) (\<lambda>admin0.
         and_then (started (admin_Start (ans_listen http) (ans_ctl http) admin0)) (\<lambda>admin.
           Inr \<lparr>run_dispatcher = dispatcher, run_loop = loop\<lparr>interest := sv_epoll admin\<rparr>,
                run_server = server\<lparr>sv_epoll := sv_epoll admin\<rparr>, run_admin = admin\<rparr>)))))))"

subsection \<open>Shutdown\<close>

definition shutdown_snapshot :: "call_env \<Rightarrow> disk \<Rightarrow> program \<Rightarrow> save_state option \<times> program" where
  "shutdown_snapshot ce dsk p =
     (if snapshot (prog_config p)
      then (let (es, d) = sh_Snapshot ce (prog_database p)
            in (Some (Save (snapshotfilename (prog_config p)) es dsk), p\<lparr>prog_database := d\<rparr>))
      else (None, p))"

subsection \<open>Startup and recovery together\<close>

lemma and_then_Inr [simp]: "and_then (Inr a) f = f a" "and_then (Inl ex) f = Inl ex"
  by (simp_all add: and_then_def)

text \<open>
  Once the command line has been accepted, the log file opens and a vector can hold the threads asked for, startup can only fail
  in the recovery or in opening the append-only file: the parsers and constructors before them refuse nothing.
\<close>

lemma startup_after_config:
  assumes "LoadFromArgs (sys_strerror sys) (sys_config_files sys) args = Inr config" and "log_file config = [] \<or> sys_log_opens sys"
    and "int (unat (shard_threads config)) \<le> vector_limit"
  shows "\<exists>logger pol d0. ParseEvictionPolicy (cfg_eviction_policy config) = Inr pol \<and>
    new_ShardedDatabase (unat (shard_threads config)) (maxmemory_bytes config) pol (Some new_metrics) = Inr d0 \<and>
    (\<forall>result content n d m.
       recover (replay_command (\<lambda>n i. sharded_database hash (env n i)) elapsed) (appendonly config) (snapshot config)
         (sys_resize_error sys) (sys_files sys (appendfilename config)) (sys_files sys (snapshotfilename config))
         (0, d0, Some new_metrics) = (result, content, n, d, m) \<longrightarrow>
       startup sys hash env elapsed args =
         and_then result (\<lambda>recovered. and_then (open_aof sys config content) (\<lambda>aof.
           Inr \<lparr>prog_config = config, prog_logger = logger, prog_database = d, prog_recovered = recovered,
             prog_aof_file = content, prog_aof = aof\<rparr>)))"
proof -
  note ok = LoadFromArgs_InrD [OF assms(1)]
  have "cfg_log_level config \<in> {''trace'', ''debug'', ''info'', ''warn'', ''warning'', ''error'', ''fatal''}"
    "cfg_eviction_policy config \<in> {''lru'', ''lfu'', ''random'', ''noeviction''}" "shard_threads config \<noteq> 0"
    using ok by (auto simp: Validate_def split: if_splits)
  then obtain level pol where "ParseLogLevel (cfg_log_level config) = Inr level"
    "ParseEvictionPolicy (cfg_eviction_policy config) = Inr pol" "unat (shard_threads config) \<noteq> 0"
    by (auto simp: ParseLogLevel_known ParseEvictionPolicy_def unat_eq_zero)
  moreover from this(1) assms(2) obtain logger where "open_log sys config = Inr logger"
    by (cases "log_file config = []") (simp_all add: open_log_def SetOutputFile_def)
  ultimately show ?thesis
    using assms(1,3) by (auto simp: startup_def new_ShardedDatabase_def)
qed

text \<open>What \<open>Append\<close> was given is what reaches the log, and a failed log refuses mutations from then on.\<close>

lemma aof_guard_refuses: "aof_failure w = Some ex \<Longrightarrow> guard_fails (aof_hooks await) w"
  by (simp add: guard_fails_def aof_hooks_def CheckError_def)

lemma aof_callback_appends:
  "aof_failure w = None \<Longrightarrow> \<not> aof_stopping w \<Longrightarrow>
    map rec_data (aof_queue (snd (aof_callback await command w))) = map rec_data (aof_queue w) @ [EncodeCommand command]"
  by (simp add: aof_callback_def Append_def Let_def)

text \<open>
  With an accepted configuration and an operating system that refuses nothing, the servers come up: the loop
  waits for its wakeups, for clients and for the administrator, and for nothing else yet.
\<close>

definition no_fault :: "listen_answers \<Rightarrow> int \<Rightarrow> bool" where
  "no_fault a fd \<longleftrightarrow> ans_socket a = Inr fd \<and> ans_reuse a = None \<and> ans_ipv4 a \<and> ans_bind a = None \<and> ans_listen a = None \<and>
     ans_ctl a = None"

lemma bring_up_listens:
  assumes "shard_threads (prog_config p) \<noteq> 0" and "no_fault resp s" and "no_fault http a" and "distinct [w, s, a]"
    and "int (unat (shard_threads (prog_config p))) \<le> vector_limit"
  shows "\<exists>run. bring_up n_clients t (Inr ep) (Inr w) None resp http m p = Inr run \<and>
    interest (run_loop run) = [w \<mapsto> kReadEvents, s \<mapsto> kReadEvents, a \<mapsto> kReadEvents] \<and>
    ch_fd (sv_listen (run_server run)) = s \<and> ch_fd (sv_listen (run_admin run)) = a \<and>
    sv_max_clients (run_server run) = unat (max_clients (prog_config p)) \<and>
    length (workers (run_dispatcher run)) = unat (shard_threads (prog_config p))"
proof -
  have "unat (shard_threads (prog_config p)) \<noteq> 0" using assms(1) by (simp add: unat_eq_zero)
  with assms(2-5) show ?thesis
    by (simp add: bring_up_def server_options_def new_AsyncDispatcher_def construct_EventLoop_def CreateEpoll_def CreateEventFd_def
        EnableReading_new no_fault_def new_TcpServer_def CreateNonBlocking_def SetReuseAddress_def Bind_def started_def Start_def
        Listen_def new_AdminServer_def admin_Start_def Let_def)
qed

text \<open>The loop's own faults end main before any port is open.\<close>

lemma bring_up_no_epoll:
  assumes "shard_threads (prog_config p) \<noteq> 0" and "int (unat (shard_threads (prog_config p))) \<le> vector_limit"
  shows "bring_up n_clients t (Inl errno) eventfd ctl resp http m p = Inl (system_error errno ''epoll_create1'')"
proof -
  have "unat (shard_threads (prog_config p)) \<noteq> 0" using assms(1) by (simp add: unat_eq_zero)
  with assms(2) show ?thesis
    by (simp add: bring_up_def server_options_def new_AsyncDispatcher_def construct_EventLoop_def CreateEpoll_def Let_def)
qed

end
