(* ===== verification/Sharded_Concurrency.thy ===== *)
theory Sharded_Concurrency
  imports Shard_Ownership Transition_System
begin

text \<open>
  The sharded database under concurrent callers: src/src/shard/sharded_database.cpp with
  \<open>transaction_mutex_\<close>, the queues of the shards and their worker threads.

  \<open>Sharded_Database\<close> describes a call as if nobody else were there.  Here a call is a script: rounds of tasks that
  are posted one after another and whose futures are then waited for, each round chosen by the results of
  the ones before.  A step of the system is a caller taking or releasing the lock, posting one task or going on with
  the results of a round, or one turn of a worker; every order of such steps is a run.
\<close>

subsection \<open>Scripts\<close>

datatype db_reply =
    GetR "string option"
  | WriteR WriteResult
  | IntR (the_int: int)
  | BoolR bool
  | IncrementR IncrementResult
  | EntriesR (the_entries: "SnapshotEntry list")
  | StatsR (the_stats: "size_t \<times> size_t")
  | StoreR (the_store: KvStore)
  | UnitR

type_synonym shard_task = "kv_env \<Rightarrow> KvStore \<Rightarrow> db_reply \<times> KvStore"

datatype script =
    Return db_reply
  | Round "(nat \<times> shard_task) list" "db_reply list \<Rightarrow> script"

text \<open>The tasks of the calls on one key.\<close>

fun call_task :: "kv_call \<Rightarrow> shard_task" where
  "call_task (GetC key) e s = map_prod GetR id (kv_Get (env_now e) key s)"
| "call_task (SetC request) e s = map_prod WriteR id (kv_Set (env_now e) (env_map e) request s)"
| "call_task (DeleteC keys) e s = map_prod IntR id (kv_Delete (env_now e) keys s)"
| "call_task (ExistsC keys) e s = map_prod IntR id (kv_Exists (env_now e) keys s)"
| "call_task (ExpireC key ttl) e s = map_prod BoolR id (kv_Expire (env_now e) key ttl s)"
| "call_task (TtlC key) e s = map_prod IntR id (kv_TtlSeconds (env_now e) key s)"
| "call_task (IncrementC key delta) e s =
     map_prod IncrementR id (kv_Increment (env_now e) (env_now2 e) (env_map e) key delta s)"
| "call_task _ e s = (UnitR, s)"

fun call_key :: "kv_call \<Rightarrow> string" where
  "call_key (GetC key) = key"
| "call_key (SetC request) = req_key request"
| "call_key (DeleteC keys) = hd keys"
| "call_key (ExistsC keys) = hd keys"
| "call_key (ExpireC key ttl) = key"
| "call_key (TtlC key) = key"
| "call_key (IncrementC key delta) = key"
| "call_key _ = []"

definition call_shard :: "hash_function \<Rightarrow> nat \<Rightarrow> kv_call \<Rightarrow> nat" where
  "call_shard hash n c = unat (hash (call_key c)) mod n"

text \<open>One task after another, each waited for; \<open>combine\<close> makes the result of the results.\<close>

primrec key_script ::
    "hash_function \<Rightarrow> nat \<Rightarrow> kv_call list \<Rightarrow> (db_reply list \<Rightarrow> db_reply) \<Rightarrow> db_reply list \<Rightarrow> script" where
  "key_script hash n [] combine got = Return (combine got)"
| "key_script hash n (c # cs) combine got =
     Round [(call_shard hash n c, call_task c)] (\<lambda>rs. key_script hash n cs combine (got @ rs))"

text \<open>The parts of \<open>MSet\<close>.\<close>

primrec checkpoint_script ::
    "nat list \<Rightarrow> (nat \<times> KvStore) list \<Rightarrow> ((nat \<times> KvStore) list \<Rightarrow> script) \<Rightarrow> script" where
  "checkpoint_script [] checkpoints continue = continue checkpoints"
| "checkpoint_script (index # indices) checkpoints continue =
     Round [(index, \<lambda>e s. map_prod StoreR id (copy_store e s))]
       (\<lambda>rs. checkpoint_script indices (checkpoints @ [(index, the_store (hd rs))]) continue)"

definition rollback_script :: "(nat \<times> KvStore) list \<Rightarrow> db_reply \<Rightarrow> script" where
  "rollback_script checkpoints result =
     Round (map (\<lambda>(index, checkpoint). (index, \<lambda>e s. (UnitR, snd (restore_store checkpoint e s)))) checkpoints)
       (\<lambda>_. Return result)"

primrec apply_script :: "(string \<times> string) list list \<Rightarrow> (nat \<times> KvStore) list \<Rightarrow> nat list \<Rightarrow> script" where
  "apply_script groups checkpoints [] = Return (WriteR kOk)"
| "apply_script groups checkpoints (index # indices) =
     Round [(index, \<lambda>e s. map_prod WriteR id (kv_MSet (env_copy e) (env_updates e) (env_map e) (groups ! index) s))]
       (\<lambda>rs. if hd rs \<noteq> WriteR kOk then rollback_script checkpoints (hd rs)
             else apply_script groups checkpoints indices)"

text \<open>A task for every shard at once.\<close>

definition every_shard :: "nat \<Rightarrow> shard_task \<Rightarrow> (db_reply list \<Rightarrow> db_reply) \<Rightarrow> script" where
  "every_shard n task combine = Round (map (\<lambda>index. (index, task)) [0..<n]) (\<lambda>rs. Return (combine rs))"

datatype db_call = Stats_call | Call kv_call

definition groups_of :: "hash_function \<Rightarrow> nat \<Rightarrow> (string \<times> string) list \<Rightarrow> (string \<times> string) list list" where
  "groups_of hash n kvs = map (\<lambda>index. filter (\<lambda>(k, v). unat (hash k) mod n = index) kvs) [0..<n]"

definition sum_int :: "db_reply list \<Rightarrow> db_reply" where
  "sum_int rs = IntR (sum_list (map the_int rs))"

fun db_script :: "hash_function \<Rightarrow> nat \<Rightarrow> db_call \<Rightarrow> script" where
  "db_script hash n (Call (MSetC kvs)) =
     (let groups = groups_of hash n kvs; touched = touched_shards groups
      in checkpoint_script touched [] (\<lambda>checkpoints. apply_script groups checkpoints touched))"
| "db_script hash n (Call SnapshotC) =
     every_shard n (\<lambda>e s. map_prod EntriesR id (kv_Snapshot (env_now e) (env_now2 e) s))
       (\<lambda>rs. EntriesR (concat (map the_entries rs)))"
| "db_script hash n (Call ClearC) = every_shard n (\<lambda>e s. (UnitR, kv_Clear s)) (\<lambda>_. UnitR)"
| "db_script hash n (Call (DeleteC keys)) = key_script hash n (map (\<lambda>key. DeleteC [key]) keys) sum_int []"
| "db_script hash n (Call (ExistsC keys)) = key_script hash n (map (\<lambda>key. ExistsC [key]) keys) sum_int []"
| "db_script hash n (Call c) = key_script hash n [c] hd []"
| "db_script hash n Stats_call =
     every_shard n (\<lambda>e s. (StatsR (kv_Size s, kv_MemoryUsage s), s))
       (\<lambda>rs. StatsR (sum_list (map (fst \<circ> the_stats) rs), sum_list (map (snd \<circ> the_stats) rs)))"

text \<open>The calls that take the lock as writers; \<open>ActiveExpire\<close> is not a call of clients.\<close>

fun exclusive :: "db_call \<Rightarrow> bool" where
  "exclusive (Call (MSetC _)) = True"
| "exclusive (Call SnapshotC) = True"
| "exclusive (Call ClearC) = True"
| "exclusive _ = False"

fun client_call :: "db_call \<Rightarrow> bool" where
  "client_call (Call (ActiveExpireC _)) = False"
| "client_call _ = True"

subsection \<open>The lock\<close>

text \<open>\<open>std::shared_mutex\<close>; \<open>None\<close> where the thread has to wait.\<close>

record shared_mutex =
  mx_readers :: nat
  mx_writer :: bool

definition lock_for :: "bool \<Rightarrow> shared_mutex \<Rightarrow> shared_mutex option" where
  "lock_for excl m =
     (if mx_writer m then None
      else if excl then (if mx_readers m = 0 then Some (m\<lparr>mx_writer := True\<rparr>) else None)
      else Some (m\<lparr>mx_readers := Suc (mx_readers m)\<rparr>))"

definition unlock_for :: "bool \<Rightarrow> shared_mutex \<Rightarrow> shared_mutex" where
  "unlock_for excl m = (if excl then m\<lparr>mx_writer := False\<rparr> else m\<lparr>mx_readers := mx_readers m - 1\<rparr>)"

subsection \<open>Threads\<close>

text \<open>
  A queue entry is a posted task with the caller and the number of the future it will fulfil.  A future holds the
  result and, for the account below, what the task met.  \<open>w_idle\<close>, \<open>dc_begin\<close>, \<open>dc_envs\<close>, \<open>db_serial\<close> and
  \<open>db_answers\<close> are history: nothing the code does depends on them.
\<close>

record db_worker =
  w_store :: KvStore
  w_queue :: "(nat \<times> nat \<times> shard_task) list"
  w_idle :: "time_point list"

record db_caller =
  dc_call :: db_call
  dc_script :: script
  dc_futures :: "(db_reply \<times> task_env) option list"
  dc_begin :: nat
  dc_envs :: "task_env list"

text \<open>
  The serial account: a call (or, for a call over several keys, the part for one of them) that takes effect now,
  by which caller, with the tasks it ran and its result; or an expiry pass of one worker.
\<close>

datatype db_event = Served nat kv_call "task_env list" db_reply | Idled nat time_point

record db_system =
  db_workers :: "db_worker list"
  db_lock :: shared_mutex
  db_callers :: "db_caller option list"
  db_serial :: "db_event list"
  db_answers :: "(nat \<times> db_call \<times> db_reply \<times> nat \<times> nat) list"

definition new_db_system :: "KvStore list \<Rightarrow> nat \<Rightarrow> db_system" where
  "new_db_system d threads =
     \<lparr>db_workers = map (\<lambda>s. \<lparr>w_store = s, w_queue = [], w_idle = []\<rparr>) d, db_lock = \<lparr>mx_readers = 0, mx_writer = False\<rparr>,
      db_callers = replicate threads None, db_serial = [], db_answers = []\<rparr>"

text \<open>The calls of which a call over several keys is made.\<close>

fun parts :: "db_call \<Rightarrow> kv_call list" where
  "parts Stats_call = []"
| "parts (Call (DeleteC keys)) = map (\<lambda>key. DeleteC [key]) keys"
| "parts (Call (ExistsC keys)) = map (\<lambda>key. ExistsC [key]) keys"
| "parts (Call c) = [c]"

definition part_of :: "db_caller \<Rightarrow> nat \<Rightarrow> kv_call option" where
  "part_of cs j =
     (let m = length (dc_envs cs) + j in if m < length (parts (dc_call cs)) then Some (parts (dc_call cs) ! m) else None)"

datatype db_action =
    LockFor nat db_call
  | PostNext nat
  | Resume nat
  | ReturnFrom nat
  | Turn nat kv_env time_point

definition do_lock :: "hash_function \<Rightarrow> nat \<Rightarrow> db_call \<Rightarrow> db_system \<Rightarrow> db_system option" where
  "do_lock hash c call s =
     (if c < length (db_callers s) \<and> Option.is_none (db_callers s ! c) \<and> client_call call
      then (case lock_for (exclusive call) (db_lock s) of
              None \<Rightarrow> None
            | Some m \<Rightarrow>
                Some (s\<lparr>db_lock := m,
                   db_callers := (db_callers s)[c := Some \<lparr>dc_call = call,
                     dc_script = db_script hash (length (db_workers s)) call, dc_futures = [],
                     dc_begin = length (db_serial s), dc_envs = []\<rparr>]\<rparr>))
      else None)"

definition caller :: "nat \<Rightarrow> db_system \<Rightarrow> db_caller option" where
  "caller c s = (if c < length (db_callers s) then db_callers s ! c else None)"

definition do_post :: "nat \<Rightarrow> db_system \<Rightarrow> db_system option" where
  "do_post c s =
     (case caller c s of
        None \<Rightarrow> None
      | Some cs \<Rightarrow>
          (case dc_script cs of
             Return _ \<Rightarrow> None
           | Round ps _ \<Rightarrow>
               (let j = length (dc_futures cs)
                in if j < length ps
                   then (let (i, task) = ps ! j; w = db_workers s ! i
                         in Some (s\<lparr>db_workers := (db_workers s)[i := w\<lparr>w_queue := w_queue w @ [(c, j, task)]\<rparr>],
                              db_callers := (db_callers s)[c := Some (cs\<lparr>dc_futures := dc_futures cs @ [None]\<rparr>)]\<rparr>))
                   else None)))"

text \<open>All futures of the round are there.\<close>

definition do_resume :: "nat \<Rightarrow> db_system \<Rightarrow> db_system option" where
  "do_resume c s =
     (case caller c s of
        None \<Rightarrow> None
      | Some cs \<Rightarrow>
          (case dc_script cs of
             Return _ \<Rightarrow> None
           | Round ps continue \<Rightarrow>
               if length (dc_futures cs) = length ps \<and> list_all (\<lambda>f. \<not> Option.is_none f) (dc_futures cs)
               then Some (s\<lparr>db_callers := (db_callers s)[c :=
                      Some (cs\<lparr>dc_script := continue (map (fst \<circ> the) (dc_futures cs)), dc_futures := [],
                        dc_envs := dc_envs cs @ map (snd \<circ> the) (dc_futures cs)\<rparr>)]\<rparr>)
               else None))"

definition idle_events :: "db_worker list \<Rightarrow> db_event list" where
  "idle_events ws = concat (map (\<lambda>i. map (Idled i) (w_idle (ws ! i))) [0..<length ws])"

definition do_return :: "nat \<Rightarrow> db_system \<Rightarrow> db_system option" where
  "do_return c s =
     (case caller c s of
        None \<Rightarrow> None
      | Some cs \<Rightarrow>
          (case dc_script cs of
             Round _ _ \<Rightarrow> None
           | Return r \<Rightarrow>
               (let excl = exclusive (dc_call cs);
                    serial = db_serial s @ (case dc_call cs of
                        Call call \<Rightarrow> if excl then Served c call (dc_envs cs) r # idle_events (db_workers s) else []
                      | Stats_call \<Rightarrow> [])
                in Some (s\<lparr>db_lock := unlock_for excl (db_lock s), db_callers := (db_callers s)[c := None],
                     db_workers := (if excl then map (\<lambda>w. w\<lparr>w_idle := []\<rparr>) (db_workers s) else db_workers s),
                     db_serial := serial,
                     db_answers := db_answers s @ [(c, dc_call cs, r, dc_begin cs, length serial)]\<rparr>))))"

text \<open>A turn of the worker of shard \<open>i\<close>: the first task, if there is one, then a pass of \<open>ActiveExpire\<close>.\<close>

definition do_turn :: "nat \<Rightarrow> kv_env \<Rightarrow> time_point \<Rightarrow> db_system \<Rightarrow> db_system option" where
  "do_turn i e t s =
     (if i < length (db_workers s)
      then (let w = db_workers s ! i; quiet = mx_writer (db_lock s)
            in case w_queue w of
                 [] \<Rightarrow>
                   Some (s\<lparr>db_workers := (db_workers s)[i := w\<lparr>w_store := expire_pass t (w_store w),
                          w_idle := (if quiet then w_idle w @ [t] else w_idle w)\<rparr>],
                        db_serial := db_serial s @ (if quiet then [] else [Idled i t])\<rparr>)
               | (c, j, task) # rest \<Rightarrow>
                   (case caller c s of
                      None \<Rightarrow> None
                    | Some cs \<Rightarrow>
                        (let te = \<lparr>passes = w_idle w, kenv = e\<rparr>; (r, st) = task e (w_store w);
                             served = (case part_of cs j of None \<Rightarrow> [] | Some p \<Rightarrow> [Served c p [te] r])
                         in Some (s\<lparr>db_workers := (db_workers s)[i := \<lparr>w_store = expire_pass t st, w_queue = rest,
                                   w_idle = (if quiet then [t] else [])\<rparr>],
                                db_callers := (db_callers s)[c := Some (cs\<lparr>dc_futures := (dc_futures cs)[j := Some (r, te)]\<rparr>)],
                                db_serial := db_serial s @ (if quiet then [] else served @ [Idled i t])\<rparr>))))
      else None)"

fun db_do :: "hash_function \<Rightarrow> db_action \<Rightarrow> db_system \<Rightarrow> db_system option" where
  "db_do hash (LockFor c call) s = do_lock hash c call s"
| "db_do hash (PostNext c) s = do_post c s"
| "db_do hash (Resume c) s = do_resume c s"
| "db_do hash (ReturnFrom c) s = do_return c s"
| "db_do hash (Turn i e t) s = do_turn i e t s"

end
