(* ===== verification/Sharded_Linearization.thy ===== *)
theory Sharded_Linearization
  imports Sharded_Concurrency
begin

text \<open>
  Every run of the concurrent sharded database has a serial account: the stores and the results are those of calls made
  one after another, each taking effect between the moment its caller took the lock and the moment it returned.
\<close>

subsection \<open>A script run alone\<close>

fun submit_round :: "(nat \<Rightarrow> task_env) \<Rightarrow> nat \<Rightarrow> (nat \<times> shard_task) list \<Rightarrow> KvStore list \<Rightarrow> db_reply list \<times> KvStore list" where
  "submit_round te n [] d = ([], d)"
| "submit_round te n ((i, f) # ps) d =
     (let (r, d1) = Submit (te n) i f d; (rs, d2) = submit_round te (Suc n) ps d1 in (r # rs, d2))"

primrec run_script :: "script \<Rightarrow> (nat \<Rightarrow> task_env) \<Rightarrow> nat \<Rightarrow> KvStore list \<Rightarrow> db_reply \<times> KvStore list" where
  "run_script (Return r) te n d = (r, d)"
| "run_script (Round ps continue) te n d =
     (let (rs, d1) = submit_round te n ps d in run_script (continue rs) te (n + length ps) d1)"

fun sh_call :: "hash_function \<Rightarrow> call_env \<Rightarrow> kv_call \<Rightarrow> KvStore list \<Rightarrow> db_reply \<times> KvStore list" where
  "sh_call hash ce (GetC k) d = map_prod GetR id (sh_Get hash ce k d)"
| "sh_call hash ce (SetC req) d = map_prod WriteR id (sh_Set hash ce req d)"
| "sh_call hash ce (MSetC kvs) d = map_prod WriteR id (sh_MSet hash ce kvs d)"
| "sh_call hash ce (DeleteC ks) d = map_prod IntR id (sh_Delete hash ce ks d)"
| "sh_call hash ce (ExistsC ks) d = map_prod IntR id (sh_Exists hash ce ks d)"
| "sh_call hash ce (ExpireC k ttl) d = map_prod BoolR id (sh_Expire hash ce k ttl d)"
| "sh_call hash ce (TtlC k) d = map_prod IntR id (sh_TtlSeconds hash ce k d)"
| "sh_call hash ce (IncrementC k n) d = map_prod IncrementR id (sh_Increment hash ce k n d)"
| "sh_call hash ce SnapshotC d = map_prod EntriesR id (sh_Snapshot ce d)"
| "sh_call hash ce c d = (UnitR, sh_run hash ce c d)"

lemma snd_sh_call [simp]: "snd (sh_call hash ce c d) = sh_run hash ce c d"
  by (cases c) simp_all

lemma Submit_map: "Submit te i (\<lambda>e s. map_prod g id (f e s)) d = map_prod g id (Submit te i f d)"
  by (simp add: Submit_def run_task_def split_def map_prod_def Let_def)

lemma run_checkpoints:
  "run_script (checkpoint_script is copies continue) te n d =
     (let (cs, m, d1) = take_checkpoints te n is d in run_script (continue (copies @ cs)) te m d1)"
proof (induction "is" arbitrary: copies n d)
  case (Cons i "is")
  obtain c d1 where "Submit (te n) i copy_store d = (c, d1)" by fastforce
  then show ?case using Cons by (simp add: Submit_map split: prod.split)
qed simp

lemma Submit_unit: "Submit te i (\<lambda>e s. (UnitR, snd (f e s))) d = (UnitR, snd (Submit te i f d))"
  by (simp add: Submit_def run_task_def split_def Let_def)

lemma run_rollback:
  "snd (submit_round te n (map (\<lambda>(index, c). (index, \<lambda>e s. (UnitR, snd (restore_store c e s)))) copies) d) =
    rollback te n copies d"
  by (induction copies arbitrary: n d) (auto simp: Submit_unit split_def Let_def)

lemma run_apply:
  "run_script (apply_script groups copies is) te n d =
     (case mset_apply te n groups is d of
        (Inr _, d1) \<Rightarrow> (WriteR kOk, d1)
      | (Inl (result, m), d1) \<Rightarrow> (WriteR result, rollback te m copies d1))"
proof (induction "is" arbitrary: n d)
  case (Cons i "is")
  obtain w d1 where one: "Submit (te n) i (\<lambda>e. kv_MSet (env_copy e) (env_updates e) (env_map e) (groups ! i)) d = (w, d1)"
    by fastforce
  then have mapped: "Submit (te n) i
      (\<lambda>e s. map_prod WriteR id (kv_MSet (env_copy e) (env_updates e) (env_map e) (groups ! i) s)) d = (WriteR w, d1)"
    using Submit_map [of "te n" i WriteR "\<lambda>e. kv_MSet (env_copy e) (env_updates e) (env_map e) (groups ! i)" d] by simp
  obtain res d2 where rec: "mset_apply te (Suc n) groups is d1 = (res, d2)" by fastforce
  show ?case
  proof (cases "w = kOk")
    case True
    with Cons.IH [of "Suc n" d1] one mapped rec show ?thesis by simp
  next
    case False
    with one mapped run_rollback [of te "Suc n" copies d1] show ?thesis by (simp add: rollback_script_def split_def)
  qed
qed simp

lemma submit_all_map:
  "submit_all te n (\<lambda>e s. map_prod g id (f e s)) d = map_prod (map g) id (submit_all te n f d)"
  by (induction d arbitrary: n) (simp_all add: run_task_def split_def Let_def map_prod_def)

lemma submit_all_snd:
  "(\<And>e s. snd (f e s) = snd (g e s)) \<Longrightarrow> snd (submit_all te n f d) = snd (submit_all te n g d)"
  by (induction d arbitrary: n) (simp_all add: run_task_def split_def Let_def)

lemma submit_round_all:
  "submit_round te (length pre) (map (\<lambda>i. (i, f)) [length pre..<length pre + length d]) (pre @ d) =
     (let (rs, d1) = submit_all te (length pre) f d in (rs, pre @ d1))"
proof (induction d arbitrary: pre)
  case (Cons s d)
  obtain r s1 where one: "run_task (te (length pre)) f s = (r, s1)" by fastforce
  have "[length pre..<length pre + length (s # d)] = length pre # [length (pre @ [s1])..<length (pre @ [s1]) + length d]"
    by (simp add: upt_rec)
  then show ?case
    using Cons.IH [of "pre @ [s1]"] one by (simp add: Submit_def split_def Let_def)
qed simp

lemmas run_every_shard = submit_round_all [where pre = "[]", simplified]

lemma run_key_script:
  "run_script (key_script hash n [c] combine []) te m d = (let (r, d1) = Submit (te m) (call_shard hash n c) (call_task c) d in (combine [r], d1))"
  by (simp add: split_def Let_def)

text \<open>The scripts are the calls of \<open>Sharded_Database\<close>.\<close>

lemma groups_of_mset_groups: "groups_of hash (length d) kvs = mset_groups hash d kvs"
  by (simp add: groups_of_def mset_groups_def ShardForKey_def)

lemma run_MSet_script: "run_script (db_script hash (length d) (Call (MSetC kvs))) te 0 d = map_prod WriteR id (sh_MSet hash ce kvs d)"
  if "c_task ce = te"
  using that unfolding db_script.simps groups_of_mset_groups Let_def
  by (simp add: run_checkpoints run_apply sh_MSet_def Let_def split: prod.split sum.split)

lemma run_exclusive_script:
  assumes "exclusive (Call c)"
  shows "run_script (db_script hash (length d) (Call c)) (c_task ce) 0 d = sh_call hash ce c d"
proof (cases c)
  case (MSetC kvs)
  then show ?thesis by (simp add: run_MSet_script del: db_script.simps)
next
  case SnapshotC
  then show ?thesis
    by (simp add: every_shard_def run_every_shard submit_all_map sh_Snapshot_def split_def Let_def comp_def)
next
  case ClearC
  then show ?thesis
    using submit_all_snd [of "\<lambda>e s. (UnitR, kv_Clear s)" "\<lambda>e s. ((), kv_Clear s)" "c_task ce" 0 d]
    by (simp add: every_shard_def run_every_shard sh_Clear_def split_def Let_def)
qed (use assms in simp_all)

lemma call_Submit:
  "p \<in> set (parts (Call c)) \<Longrightarrow> \<not> exclusive (Call c) \<Longrightarrow> client_call (Call c) \<Longrightarrow>
    sh_call hash ce p d = Submit (c_task ce 0) (call_shard hash (length d) p) (call_task p) d"
  by (cases c)
    (auto simp: sh_Get_def sh_Set_def sh_Delete_def sh_Exists_def sh_Expire_def sh_TtlSeconds_def sh_Increment_def call_shard_def
      ShardForKey_def Submit_def run_task_def split_def map_prod_def Let_def)

subsection \<open>The serial account\<close>

definition no_task :: task_env where
  "no_task = \<lparr>passes = [], kenv = \<lparr>env_now = 0, env_now2 = 0, env_copy = (\<lambda>_ _. 0), env_updates = (\<lambda>_ _. 0), env_map = (\<lambda>_ _. 0)\<rparr>\<rparr>"

definition call_of_tasks :: "task_env list \<Rightarrow> call_env" where
  "call_of_tasks envs =
     \<lparr>c_start = env_now (kenv (case envs of [] \<Rightarrow> no_task | te # _ \<Rightarrow> te)),
      c_end = env_now2 (kenv (if envs = [] then no_task else last envs)),
      c_task = (\<lambda>j. if j < length envs then envs ! j else no_task)\<rparr>"

fun event_stores :: "hash_function \<Rightarrow> db_event \<Rightarrow> KvStore list \<Rightarrow> KvStore list" where
  "event_stores hash (Served c p envs r) d = sh_run hash (call_of_tasks envs) p d"
| "event_stores hash (Idled i t) d = d[i := expire_pass t (d ! i)]"

definition serial_stores :: "hash_function \<Rightarrow> db_event list \<Rightarrow> KvStore list \<Rightarrow> KvStore list" where
  "serial_stores hash es d = fold (event_stores hash) es d"

text \<open>Every call of the account has the result it has when it is made at its place.\<close>

fun serial_ok :: "hash_function \<Rightarrow> db_event list \<Rightarrow> KvStore list \<Rightarrow> bool" where
  "serial_ok hash [] d = True"
| "serial_ok hash (Idled i t # es) d = serial_ok hash es (event_stores hash (Idled i t) d)"
| "serial_ok hash (Served c p envs r # es) d \<longleftrightarrow>
     r = fst (sh_call hash (call_of_tasks envs) p d) \<and> serial_ok hash es (event_stores hash (Served c p envs r) d)"

lemma serial_stores_append [simp]: "serial_stores hash (es @ fs) d = serial_stores hash fs (serial_stores hash es d)"
  by (simp add: serial_stores_def)

lemma serial_stores_simps [simp]:
  "serial_stores hash [] d = d" "serial_stores hash (e # es) d = serial_stores hash es (event_stores hash e d)"
  by (simp_all add: serial_stores_def)

lemma serial_ok_append [simp]:
  "serial_ok hash (es @ fs) d \<longleftrightarrow> serial_ok hash es d \<and> serial_ok hash fs (serial_stores hash es d)"
  by (induction es d rule: serial_ok.induct) auto

text \<open>What a caller has been served since some place of the account.\<close>

fun own_event :: "nat \<Rightarrow> db_event \<Rightarrow> (kv_call \<times> db_reply) list" where
  "own_event c (Served c' p envs r) = (if c' = c then [(p, r)] else [])"
| "own_event c (Idled i t) = []"

definition own :: "nat \<Rightarrow> db_event list \<Rightarrow> (kv_call \<times> db_reply) list" where
  "own c es = concat (map (own_event c) es)"

lemma own_simps [simp]: "own c [] = []" "own c (e # es) = own_event c e @ own c es" "own c (es @ fs) = own c es @ own c fs"
  by (simp_all add: own_def)

fun combine_of :: "db_call \<Rightarrow> db_reply list \<Rightarrow> db_reply" where
  "combine_of (Call (DeleteC _)) = sum_int"
| "combine_of (Call (ExistsC _)) = sum_int"
| "combine_of _ = hd"

text \<open>The result of a call follows from what it was served: the call itself, or one call for each of its keys.\<close>

definition justified :: "db_call \<Rightarrow> db_reply \<Rightarrow> (kv_call \<times> db_reply) list \<Rightarrow> bool" where
  "justified call r evs \<longleftrightarrow> map fst evs = parts call \<and> (call = Stats_call \<or> r = combine_of call (map snd evs))"

lemma db_script_shared:
  "\<not> exclusive (Call call) \<Longrightarrow> client_call (Call call) \<Longrightarrow>
    db_script hash n (Call call) = key_script hash n (parts (Call call)) (combine_of (Call call)) []"
  by (cases call) simp_all

lemma idle_events_own [simp]: "own c (idle_events ws) = []"
proof -
  have "own c (map (Idled i) ts) = []" for i ts by (induction ts) simp_all
  then have "own c (concat (map (\<lambda>i. map (Idled i) (f i)) xs)) = []" for f xs by (induction xs) simp_all
  then show ?thesis by (simp add: idle_events_def)
qed

subsection \<open>Passes left over\<close>

lemma serial_Idled:
  "serial_ok hash (map (Idled i) ts) d"
  "i < length d \<Longrightarrow> serial_stores hash (map (Idled i) ts) d = d[i := fold expire_pass ts (d ! i)]"
  by (induction ts arbitrary: d) simp_all

lemma serial_idle:
  assumes "n \<le> length d" and "length ws = length d"
  shows "serial_ok hash (concat (map (\<lambda>i. map (Idled i) (w_idle (ws ! i))) [0..<n])) d"
    and "serial_stores hash (concat (map (\<lambda>i. map (Idled i) (w_idle (ws ! i))) [0..<n])) d =
      map (\<lambda>i. if i < n then fold expire_pass (w_idle (ws ! i)) (d ! i) else d ! i) [0..<length d]"
proof -
  have "serial_ok hash (concat (map (\<lambda>i. map (Idled i) (w_idle (ws ! i))) [0..<n])) d \<and>
    serial_stores hash (concat (map (\<lambda>i. map (Idled i) (w_idle (ws ! i))) [0..<n])) d =
      map (\<lambda>i. if i < n then fold expire_pass (w_idle (ws ! i)) (d ! i) else d ! i) [0..<length d]"
    using assms(1)
  proof (induction n)
    case 0
    then show ?case by (simp add: map_nth)
  next
    case (Suc n)
    then show ?case by (auto simp: serial_Idled intro!: nth_equalityI simp: nth_list_update less_Suc_eq)
  qed
  then show "serial_ok hash (concat (map (\<lambda>i. map (Idled i) (w_idle (ws ! i))) [0..<n])) d"
    "serial_stores hash (concat (map (\<lambda>i. map (Idled i) (w_idle (ws ! i))) [0..<n])) d =
      map (\<lambda>i. if i < n then fold expire_pass (w_idle (ws ! i)) (d ! i) else d ! i) [0..<length d]" by blast+
qed

lemma serial_idle_events:
  assumes "length ws = length d"
  shows "serial_ok hash (idle_events ws) d"
    and "serial_stores hash (idle_events ws) d = map (\<lambda>i. fold expire_pass (w_idle (ws ! i)) (d ! i)) [0..<length d]"
  using serial_idle [of "length ws" d ws hash] assms by (auto simp: idle_events_def)

subsection \<open>Rounds\<close>

text \<open>The rounds of a script name each shard at most once.\<close>

primrec script_ok :: "nat \<Rightarrow> script \<Rightarrow> bool" where
  "script_ok n (Return r) = True"
| "script_ok n (Round ps continue) \<longleftrightarrow> distinct (map fst ps) \<and> (\<forall>p \<in> set ps. fst p < n) \<and> (\<forall>rs. script_ok n (continue rs))"

lemma key_script_ok: "0 < n \<Longrightarrow> script_ok n (key_script hash n cs combine got)"
  by (induction cs arbitrary: got) (simp_all add: call_shard_def)

lemma checkpoint_script_ok:
  "\<forall>i \<in> set is. i < n \<Longrightarrow> (\<And>cs. map fst cs = is \<Longrightarrow> script_ok n (continue (copies @ cs))) \<Longrightarrow>
    script_ok n (checkpoint_script is copies continue)"
  by (induction "is" arbitrary: copies) simp_all

lemma apply_script_ok:
  "\<forall>i \<in> set is. i < n \<Longrightarrow> distinct (map fst copies) \<Longrightarrow> \<forall>p \<in> set copies. fst p < n \<Longrightarrow>
    script_ok n (apply_script groups copies is)"
  by (induction "is") (auto simp: rollback_script_def comp_def split_def)

lemma db_script_ok:
  assumes "0 < n"
  shows "script_ok n (db_script hash n call)"
proof (cases "(hash, n, call)" rule: db_script.cases)
  case (1 hash n kvs)
  let ?touched = "touched_shards (groups_of hash n kvs)"
  have t: "distinct ?touched" "\<forall>i \<in> set ?touched. i < n" by (auto simp: touched_shards_def groups_of_def)
  have ok: "script_ok n (apply_script (groups_of hash n kvs) cs ?touched)" if "map fst cs = ?touched" for cs
  proof (rule apply_script_ok [OF t(2)])
    show "distinct (map fst cs)" unfolding that by (rule t(1))
    have "\<forall>i \<in> set (map fst cs). i < n" unfolding that by (rule t(2))
    then show "\<forall>p \<in> set cs. fst p < n" by simp
  qed
  have "script_ok n (checkpoint_script ?touched [] (\<lambda>cs. apply_script (groups_of hash n kvs) cs ?touched))"
    by (rule checkpoint_script_ok [OF t(2)]) (simp add: ok)
  with 1 show ?thesis by (simp add: Let_def)
qed (use assms in \<open>simp_all add: key_script_ok every_shard_def comp_def del: key_script.simps\<close>)

text \<open>What the tasks of a round that have run by now made of shard \<open>i\<close>.\<close>

fun shard_after :: "(nat \<times> shard_task) list \<Rightarrow> (db_reply \<times> task_env) option list \<Rightarrow> nat \<Rightarrow> KvStore \<Rightarrow> KvStore" where
  "shard_after ((k, task) # ps) (Some (r, te) # fs) i s = shard_after ps fs i (if k = i then snd (run_task te task s) else s)"
| "shard_after (p # ps) (None # fs) i s = shard_after ps fs i s"
| "shard_after _ _ i s = s"

lemma nth_shard: "j < length ps \<Longrightarrow> fst (ps ! j) \<in> fst ` set ps"
  by simp

lemma shard_after_other: "i \<notin> fst ` set ps \<Longrightarrow> shard_after ps fs i s = s"
  by (induction ps fs i s rule: shard_after.induct) auto

lemma shard_after_post: "shard_after ps (fs @ [None]) i s = shard_after ps fs i s"
proof (induction ps arbitrary: fs s)
  case Nil
  then show ?case by (cases fs) simp_all
next
  case (Cons p ps)
  show ?case
  proof (cases fs)
    case Nil
    then show ?thesis by (cases ps) simp_all
  next
    case f: (Cons f fs')
    then show ?thesis using Cons.IH by (cases p; cases f) auto
  qed
qed

lemma shard_after_waiting:
  "distinct (map fst ps) \<Longrightarrow> j < length fs \<Longrightarrow> j < length ps \<Longrightarrow> fs ! j = None \<Longrightarrow> shard_after ps fs (fst (ps ! j)) s = s"
proof (induction ps fs "fst (ps ! j)" s arbitrary: j rule: shard_after.induct)
  case (1 k task ps r te fs s)
  then show ?case using nth_shard [of "j - 1" ps] by (cases j) auto
next
  case (2 p ps fs s)
  then show ?case by (cases j) (auto simp: shard_after_other)
qed simp_all

lemma shard_after_update:
  "distinct (map fst ps) \<Longrightarrow> j < length fs \<Longrightarrow> j < length ps \<Longrightarrow> fs ! j = None \<Longrightarrow>
    shard_after ps (fs[j := Some (r, te)]) i s =
      (if i = fst (ps ! j) then snd (run_task te (snd (ps ! j)) s) else shard_after ps fs i s)"
proof (induction ps fs i s arbitrary: j rule: shard_after.induct)
  case (1 k task ps r te fs i s)
  then show ?case using nth_shard [of "j - 1" ps] by (cases j) auto
next
  case (2 p ps fs i s)
  then show ?case by (cases j; cases p) (auto simp: shard_after_other)
qed simp_all

text \<open>A round run alone gives the same stores and, since it names no shard twice, the same results.\<close>

lemma submit_round_stores:
  assumes "length fs = length ps" and "None \<notin> set fs" and "\<forall>j < length ps. te (n + j) = snd (the (fs ! j))" and "\<forall>p \<in> set ps. fst p < length d"
  shows "length (snd (submit_round te n ps d)) = length d \<and>
    (\<forall>i < length d. snd (submit_round te n ps d) ! i = shard_after ps fs i (d ! i))"
  using assms
proof (induction ps arbitrary: fs n d)
  case (Cons p ps)
  obtain k task where p: "p = (k, task)" by fastforce
  obtain r te1 fs1 where fs: "fs = Some (r, te1) # fs1" using Cons.prems(1,2) by (cases fs; cases "hd fs") auto
  have te1: "te n = te1" using Cons.prems(3) fs by force
  let ?d = "snd (Submit (te n) k task d)"
  have d: "?d = d[k := snd (run_task te1 task (d ! k))]" by (simp add: Submit_def te1 split_def Let_def)
  have "\<forall>j < length ps. te (Suc n + j) = snd (the (fs1 ! j))" using Cons.prems(3) fs by fastforce
  then have "length (snd (submit_round te (Suc n) ps ?d)) = length d \<and>
    (\<forall>i < length d. snd (submit_round te (Suc n) ps ?d) ! i = shard_after ps fs1 i (?d ! i))"
    using Cons.IH [of fs1 "Suc n" ?d] Cons.prems fs d by simp
  then show ?case using p fs d Cons.prems(4) by (auto simp: split_def Let_def nth_list_update)
qed simp

lemma submit_round_results:
  assumes "distinct (map fst ps)" and "\<forall>p \<in> set ps. fst p < length d"
  shows "length (fst (submit_round te n ps d)) = length ps \<and>
    (\<forall>j < length ps. fst (submit_round te n ps d) ! j = fst (run_task (te (n + j)) (snd (ps ! j)) (d ! fst (ps ! j))))"
  using assms
proof (induction ps arbitrary: n d)
  case (Cons p ps)
  obtain k task where p: "p = (k, task)" by fastforce
  let ?d = "snd (Submit (te n) k task d)"
  have d: "?d = d[k := snd (run_task (te n) task (d ! k))]" by (simp add: Submit_def split_def Let_def)
  from Cons.IH [of ?d "Suc n"] Cons.prems p d
  have IH: "length (fst (submit_round te (Suc n) ps ?d)) = length ps \<and>
    (\<forall>j < length ps. fst (submit_round te (Suc n) ps ?d) ! j = fst (run_task (te (Suc n + j)) (snd (ps ! j)) (?d ! fst (ps ! j))))"
    by simp
  have "?d ! fst (ps ! j) = d ! fst (ps ! j)" if "j < length ps" for j
  proof -
    have "k \<noteq> fst (ps ! j)" using Cons.prems(1) p nth_shard [OF that] by auto
    then show ?thesis using d by simp
  qed
  with IH show ?case using p by (auto simp: split_def Let_def nth_Cons Submit_def split: nat.split)
qed simp

end
