(* ===== verification/Sharded_Serializability.thy ===== *)
theory Sharded_Serializability
  imports Sharded_Linearization
begin

text \<open>
  The invariant of the concurrent sharded database and the theorem it gives.  Under a shared lock every task is a
  call of the serial account at the moment it runs.  Under the exclusive lock nobody else has a task: the stores are those of
  the script run alone so far, up to expiry passes that no task of the call has met yet.
\<close>

subsection \<open>The invariant\<close>

definition inside :: "bool \<Rightarrow> db_system \<Rightarrow> nat set" where
  "inside b s = {c. \<exists>cs. caller c s = Some cs \<and> exclusive (dc_call cs) = b}"

definition lock_inv :: "db_system \<Rightarrow> bool" where
  "lock_inv s \<longleftrightarrow> mx_readers (db_lock s) = card (inside False s) \<and>
     (if mx_writer (db_lock s) then inside False s = {} \<and> (\<exists>c. inside True s = {c}) else inside True s = {})"

definition waiting :: "db_system \<Rightarrow> nat \<Rightarrow> nat \<Rightarrow> nat \<Rightarrow> shard_task \<Rightarrow> bool" where
  "waiting s c j i task \<longleftrightarrow> (\<exists>cs ps continue. caller c s = Some cs \<and> dc_script cs = Round ps continue \<and>
     j < length (dc_futures cs) \<and> dc_futures cs ! j = None \<and> ps ! j = (i, task))"

definition queue_inv :: "db_system \<Rightarrow> bool" where
  "queue_inv s \<longleftrightarrow> (\<forall>i < length (db_workers s).
     distinct (map (\<lambda>q. (fst q, fst (snd q))) (w_queue (db_workers s ! i))) \<and>
     (\<forall>c j task. (c, j, task) \<in> set (w_queue (db_workers s ! i)) \<longleftrightarrow> waiting s c j i task))"

definition finished :: "db_caller \<Rightarrow> db_reply list" where
  "finished cs = map (fst \<circ> the) (filter (\<lambda>f. f \<noteq> None) (dc_futures cs))"

definition served_inv :: "hash_function \<Rightarrow> nat \<Rightarrow> (kv_call \<times> db_reply) list \<Rightarrow> db_caller \<Rightarrow> bool" where
  "served_inv hash n evs cs \<longleftrightarrow>
     (if exclusive (dc_call cs) then evs = []
      else if dc_call cs = Stats_call then evs = [] \<and> (dc_script cs = db_script hash n Stats_call \<or> (\<exists>r. dc_script cs = Return r))
      else (\<exists>got. length got = length (dc_envs cs) \<and>
              dc_script cs = key_script hash n (drop (length got) (parts (dc_call cs))) (combine_of (dc_call cs)) got \<and>
              map fst evs = take (length got + length (finished cs)) (parts (dc_call cs)) \<and> map snd evs = got @ finished cs \<and>
              length got + length (finished cs) \<le> length (parts (dc_call cs))))"

definition caller_inv :: "hash_function \<Rightarrow> nat \<Rightarrow> db_event list \<Rightarrow> nat \<Rightarrow> db_caller \<Rightarrow> bool" where
  "caller_inv hash n es c cs \<longleftrightarrow> dc_begin cs \<le> length es \<and> client_call (dc_call cs) \<and> script_ok n (dc_script cs) \<and>
     (case dc_script cs of Return _ \<Rightarrow> dc_futures cs = [] | Round ps _ \<Rightarrow> length (dc_futures cs) \<le> length ps) \<and>
     served_inv hash n (own c (drop (dc_begin cs) es)) cs"

primrec round_of :: "script \<Rightarrow> (nat \<times> shard_task) list" where
  "round_of (Return r) = []"
| "round_of (Round ps continue) = ps"

text \<open>\<open>d0\<close>: the stores when the lock was taken; \<open>d\<close>: at the start of the round.\<close>

definition solo_at :: "hash_function \<Rightarrow> KvStore list \<Rightarrow> db_worker list \<Rightarrow> db_caller \<Rightarrow> KvStore list \<Rightarrow> bool" where
  "solo_at hash d0 ws cs d \<longleftrightarrow> length d = length ws \<and>
     (\<forall>te. (\<forall>j < length (dc_envs cs). te j = dc_envs cs ! j) \<longrightarrow>
        run_script (db_script hash (length ws) (dc_call cs)) te 0 d0 = run_script (dc_script cs) te (length (dc_envs cs)) d) \<and>
     (\<forall>i < length ws. w_store (ws ! i) =
        fold expire_pass (w_idle (ws ! i)) (shard_after (round_of (dc_script cs)) (dc_futures cs) i (d ! i))) \<and>
     (\<forall>j < length (dc_futures cs). \<forall>r te. dc_futures cs ! j = Some (r, te) \<longrightarrow>
        r = fst (run_task te (snd (round_of (dc_script cs) ! j)) (d ! fst (round_of (dc_script cs) ! j))))"

definition stores_inv :: "hash_function \<Rightarrow> KvStore list \<Rightarrow> db_system \<Rightarrow> bool" where
  "stores_inv hash d0 s \<longleftrightarrow>
     (let d = serial_stores hash (db_serial s) d0
      in length d = length (db_workers s) \<and>
         (if mx_writer (db_lock s) then \<forall>c cs. caller c s = Some cs \<longrightarrow> (\<exists>d1. solo_at hash d (db_workers s) cs d1)
          else map w_store (db_workers s) = d \<and> (\<forall>w \<in> set (db_workers s). w_idle w = [])))"

definition answer_ok :: "db_event list \<Rightarrow> nat \<times> db_call \<times> db_reply \<times> nat \<times> nat \<Rightarrow> bool" where
  "answer_ok es a = (case a of (c, call, r, b, e) \<Rightarrow> b \<le> e \<and> e \<le> length es \<and> justified call r (own c (drop b (take e es))))"

definition db_inv :: "hash_function \<Rightarrow> KvStore list \<Rightarrow> db_system \<Rightarrow> bool" where
  "db_inv hash d0 s \<longleftrightarrow> db_workers s \<noteq> [] \<and> lock_inv s \<and> queue_inv s \<and>
     (\<forall>c cs. caller c s = Some cs \<longrightarrow> caller_inv hash (length (db_workers s)) (db_serial s) c cs) \<and>
     stores_inv hash d0 s \<and> serial_ok hash (db_serial s) d0 \<and> (\<forall>a \<in> set (db_answers s). answer_ok (db_serial s) a)"

subsection \<open>Consequences\<close>

lemma caller_Some: "caller c s = Some cs \<Longrightarrow> c < length (db_callers s) \<and> db_callers s ! c = Some cs"
  by (auto simp: caller_def split: if_splits)

lemma caller_update:
  "db_callers s' = (db_callers s)[c := x] \<Longrightarrow> c < length (db_callers s) \<Longrightarrow> caller c' s' = (if c' = c then x else caller c' s)"
  by (simp add: caller_def)

lemma caller_same: "db_callers s' = db_callers s \<Longrightarrow> caller c s' = caller c s"
  by (simp add: caller_def)

lemma finite_inside [simp]: "finite (inside b s)"
proof (rule finite_subset)
  show "inside b s \<subseteq> {..<length (db_callers s)}" by (auto simp: inside_def dest: caller_Some)
qed simp

lemma exclusive_iff_writer: "lock_inv s \<Longrightarrow> caller c s = Some cs \<Longrightarrow> exclusive (dc_call cs) = mx_writer (db_lock s)"
  by (auto simp: lock_inv_def inside_def split: if_splits)

lemma only_writer:
  assumes "lock_inv s" and "mx_writer (db_lock s)" and "caller c s = Some cs" and "caller c' s = Some cs'"
  shows "c' = c"
proof -
  have "c \<in> inside True s" "c' \<in> inside True s"
    using assms exclusive_iff_writer [OF assms(1)] by (auto simp: inside_def)
  with assms(1,2) show ?thesis by (auto simp: lock_inv_def)
qed

lemma nobody_inside:
  assumes "lock_inv s" and "\<not> mx_writer (db_lock s)" and "mx_readers (db_lock s) = 0"
  shows "caller c s = None"
proof (rule ccontr)
  assume "caller c s \<noteq> None"
  then obtain cs where "caller c s = Some cs" by auto
  then have "c \<in> inside (exclusive (dc_call cs)) s" by (auto simp: inside_def)
  with assms show False by (cases "exclusive (dc_call cs)") (auto simp: lock_inv_def)
qed

text \<open>A caller that goes on with the same call leaves the lock as it is.\<close>

lemma inside_update:
  assumes "caller c s = Some cs" and "db_callers s' = (db_callers s)[c := Some cs']" and "dc_call cs' = dc_call cs"
  shows "inside b s' = inside b s"
proof -
  have "caller c' s' = (if c' = c then Some cs' else caller c' s)" for c'
    using caller_update [OF assms(2)] caller_Some [OF assms(1)] by simp
  then show ?thesis using assms(1,3) by (auto simp: inside_def)
qed

lemma lock_inv_update:
  assumes "lock_inv s" and "caller c s = Some cs" and "db_callers s' = (db_callers s)[c := Some cs']" and "dc_call cs' = dc_call cs"
    and "db_lock s' = db_lock s"
  shows "lock_inv s'"
  using assms(1) inside_update [OF assms(2-4)] by (simp add: lock_inv_def assms(5))

text \<open>The account only grows; what others were served does not matter.\<close>

lemma caller_inv_grow:
  "caller_inv hash n es c cs \<Longrightarrow> own c fs = [] \<Longrightarrow> caller_inv hash n (es @ fs) c cs"
  by (simp add: caller_inv_def)

lemma answer_ok_grow: "answer_ok es a \<Longrightarrow> answer_ok (es @ fs) a"
  by (auto simp: answer_ok_def split: prod.splits)

lemma stores_length: "stores_inv hash d0 s \<Longrightarrow> length (serial_stores hash (db_serial s) d0) = length (db_workers s)"
  by (simp add: stores_inv_def Let_def)

lemma stores_writer:
  "stores_inv hash d0 s \<Longrightarrow> mx_writer (db_lock s) \<Longrightarrow> caller c s = Some cs \<Longrightarrow>
    \<exists>d1. solo_at hash (serial_stores hash (db_serial s) d0) (db_workers s) cs d1"
  by (simp add: stores_inv_def Let_def)

lemma stores_quiet:
  "stores_inv hash d0 s \<Longrightarrow> \<not> mx_writer (db_lock s) \<Longrightarrow>
    map w_store (db_workers s) = serial_stores hash (db_serial s) d0 \<and> (\<forall>w \<in> set (db_workers s). w_idle w = [])"
  by (simp add: stores_inv_def Let_def)

lemma stores_writerI:
  assumes "mx_writer (db_lock s)" and "length (serial_stores hash (db_serial s) d0) = length (db_workers s)"
    and "\<And>c' cs'. caller c' s = Some cs' \<Longrightarrow> cs' = cs" and "solo_at hash (serial_stores hash (db_serial s) d0) (db_workers s) cs d1"
  shows "stores_inv hash d0 s"
  using assms unfolding stores_inv_def Let_def by auto

lemma stores_quietI:
  assumes "\<not> mx_writer (db_lock s)" and "map w_store (db_workers s) = serial_stores hash (db_serial s) d0"
    and "\<forall>w \<in> set (db_workers s). w_idle w = []"
  shows "stores_inv hash d0 s"
  using assms unfolding stores_inv_def Let_def by (simp add: assms(2) [symmetric])

lemma idle_update: "\<forall>w \<in> set ws. w_idle w = [] \<Longrightarrow> w_idle w' = [] \<Longrightarrow> \<forall>w \<in> set (ws[i := w']). w_idle w = []"
  by (auto dest!: set_update_subset_insert [THEN subsetD])

subsection \<open>Taking the lock\<close>

lemma shard_after_none [simp]: "shard_after ps [] i s = s"
  by (cases ps) simp_all

lemma new_caller_inv:
  assumes "client_call call" and "0 < n"
  shows "caller_inv hash n es c \<lparr>dc_call = call, dc_script = db_script hash n call, dc_futures = [], dc_begin = length es, dc_envs = []\<rparr>"
proof -
  have "served_inv hash n [] \<lparr>dc_call = call, dc_script = db_script hash n call, dc_futures = [], dc_begin = length es, dc_envs = []\<rparr>"
  proof (cases call)
    case (Call k)
    with assms(1) show ?thesis by (auto simp: served_inv_def finished_def db_script_shared simp del: db_script.simps)
  qed (simp add: served_inv_def)
  with assms db_script_ok [OF assms(2), of hash call] show ?thesis
    by (simp add: caller_inv_def del: db_script.simps split: script.split)
qed

lemma db_invD:
  assumes "db_inv hash d0 s"
  shows "0 < length (db_workers s)" and "lock_inv s" and "queue_inv s" and "stores_inv hash d0 s"
    and "serial_ok hash (db_serial s) d0" and "a \<in> set (db_answers s) \<Longrightarrow> answer_ok (db_serial s) a"
    and "caller c s = Some cs \<Longrightarrow> caller_inv hash (length (db_workers s)) (db_serial s) c cs"
  using assms by (simp_all add: db_inv_def)

lemma do_lock_inv:
  assumes inv: "db_inv hash d0 s" and step: "do_lock hash c call s = Some s'"
  shows "db_inv hash d0 s'"
proof -
  let ?n = "length (db_workers s)"
  let ?cs = "\<lparr>dc_call = call, dc_script = db_script hash ?n call, dc_futures = [], dc_begin = length (db_serial s), dc_envs = []\<rparr>"
  obtain m where c: "c < length (db_callers s)" "db_callers s ! c = None" "client_call call"
    and m: "lock_for (exclusive call) (db_lock s) = Some m"
    and s': "s' = s\<lparr>db_lock := m, db_callers := (db_callers s)[c := Some ?cs]\<rparr>"
    using step by (auto simp: do_lock_def Option.is_none_def split: if_splits option.splits)
  have f: "db_workers s' = db_workers s" "db_lock s' = m" "db_serial s' = db_serial s" "db_answers s' = db_answers s"
    "db_callers s' = (db_callers s)[c := Some ?cs]" by (simp_all add: s')
  have cl: "caller c' s' = (if c' = c then Some ?cs else caller c' s)" for c' by (rule caller_update [OF f(5) c(1)])
  have none: "caller c s = None" using c by (simp add: caller_def)
  have ins: "inside b s' = (if exclusive call = b then insert c (inside b s) else inside b s)" for b
    using none by (auto simp: inside_def cl)
  have "c \<notin> inside b s" for b using none by (simp add: inside_def)
  then have "lock_inv s'"
    using db_invD(2) [OF inv] m unfolding lock_inv_def ins f(2) by (auto simp: lock_for_def split: if_splits)
  moreover have "waiting s' = waiting s" using none by (auto simp: waiting_def cl fun_eq_iff)
  then have "queue_inv s'" using db_invD(3) [OF inv] by (simp add: queue_inv_def f)
  moreover have "caller_inv hash ?n (db_serial s) c' cs'" if "caller c' s' = Some cs'" for c' cs'
    using that db_invD(7) [OF inv] new_caller_inv [OF c(3) db_invD(1) [OF inv], of hash "db_serial s" c]
    by (auto simp: cl split: if_splits)
  moreover have "stores_inv hash d0 s'"
  proof (cases "exclusive call")
    case True
    then have free: "\<not> mx_writer (db_lock s)" "mx_readers (db_lock s) = 0" "mx_writer m"
      using m by (auto simp: lock_for_def split: if_splits)
    have nobody: "caller c' s = None" for c' by (rule nobody_inside [OF db_invD(2) [OF inv] free(1,2)])
    note quiet = stores_quiet [OF db_invD(4) [OF inv] free(1)]
    then have "\<forall>w \<in> set (db_workers s). w_idle w = []" by (rule conjunct2)
    then have "solo_at hash (map w_store (db_workers s)) (db_workers s) ?cs (map w_store (db_workers s))"
      by (auto simp: solo_at_def simp del: db_script.simps)
    with quiet have solo: "solo_at hash (serial_stores hash (db_serial s') d0) (db_workers s') ?cs (map w_store (db_workers s))"
      unfolding f by argo
    show ?thesis
      by (rule stores_writerI [OF _ _ _ solo])
        (use free nobody in \<open>auto simp: cl f stores_length [OF db_invD(4) [OF inv]] split: if_splits simp del: db_script.simps\<close>)
  next
    case False
    then have "\<not> mx_writer (db_lock s)" "\<not> mx_writer m" using m by (auto simp: lock_for_def split: if_splits)
    with db_invD(4) [OF inv] show ?thesis by (simp add: stores_inv_def f Let_def)
  qed
  ultimately show ?thesis using db_invD(1,5,6) [OF inv] by (simp add: db_inv_def f)
qed

subsection \<open>Posting a task\<close>

lemma finished_post [simp]: "finished (cs\<lparr>dc_futures := dc_futures cs @ [None]\<rparr>) = finished cs"
  by (simp add: finished_def)

lemma served_inv_post [simp]:
  "served_inv hash n evs (cs\<lparr>dc_futures := dc_futures cs @ [None]\<rparr>) = served_inv hash n evs cs"
  unfolding served_inv_def by simp

lemma do_post_inv:
  assumes inv: "db_inv hash d0 s" and step: "do_post c s = Some s'"
  shows "db_inv hash d0 s'"
proof -
  let ?n = "length (db_workers s)"
  obtain cs ps continue i task where c: "caller c s = Some cs" and sc: "dc_script cs = Round ps continue"
    and j: "length (dc_futures cs) < length ps" and p: "ps ! length (dc_futures cs) = (i, task)"
    and s': "s' = s\<lparr>db_workers := (db_workers s)[i := (db_workers s ! i)\<lparr>w_queue := w_queue (db_workers s ! i) @ [(c, length (dc_futures cs), task)]\<rparr>],
      db_callers := (db_callers s)[c := Some (cs\<lparr>dc_futures := dc_futures cs @ [None]\<rparr>)]\<rparr>"
    using step by (auto simp: do_post_def Let_def split: option.splits script.splits if_splits prod.splits)
  let ?j = "length (dc_futures cs)" and ?cs = "cs\<lparr>dc_futures := dc_futures cs @ [None]\<rparr>"
  have f: "db_lock s' = db_lock s" "db_serial s' = db_serial s" "db_answers s' = db_answers s"
    "db_callers s' = (db_callers s)[c := Some ?cs]"
    "db_workers s' = (db_workers s)[i := (db_workers s ! i)\<lparr>w_queue := w_queue (db_workers s ! i) @ [(c, ?j, task)]\<rparr>]"
    by (simp_all add: s')
  have cl: "caller c' s' = (if c' = c then Some ?cs else caller c' s)" for c'
    using caller_update [OF f(4)] caller_Some [OF c] by simp
  note ci = db_invD(7) [OF inv c]
  have i: "i < ?n" using ci sc p nth_mem [OF j] by (auto simp: caller_inv_def)
  have lock: "lock_inv s'" by (rule lock_inv_update [OF db_invD(2) [OF inv] c f(4)]) (simp_all add: f)
  have w: "waiting s' c' j' i' task' \<longleftrightarrow> waiting s c' j' i' task' \<or> (c', j', i', task') = (c, ?j, i, task)" for c' j' i' task'
    using c sc p by (auto simp: waiting_def cl nth_append less_Suc_eq split: if_splits)
  have new: "\<not> waiting s c ?j i' task'" for i' task' using c by (auto simp: waiting_def)
  have "queue_inv s'"
    unfolding queue_inv_def
  proof (intro allI impI)
    fix i' assume i': "i' < length (db_workers s')"
    then have q: "distinct (map (\<lambda>q. (fst q, fst (snd q))) (w_queue (db_workers s ! i')))"
      "\<And>c j task. (c, j, task) \<in> set (w_queue (db_workers s ! i')) \<longleftrightarrow> waiting s c j i' task"
      using db_invD(3) [OF inv] by (simp_all add: queue_inv_def f)
    have "(c, ?j) \<notin> (\<lambda>q. (fst q, fst (snd q))) ` set (w_queue (db_workers s ! i'))" using q(2) new by force
    with q i i' w show "distinct (map (\<lambda>q. (fst q, fst (snd q))) (w_queue (db_workers s' ! i'))) \<and>
        (\<forall>c j task. (c, j, task) \<in> set (w_queue (db_workers s' ! i')) \<longleftrightarrow> waiting s' c j i' task)"
      by (auto simp: f nth_list_update)
  qed
  moreover have "caller_inv hash ?n (db_serial s) c ?cs"
    using ci sc j by (simp add: caller_inv_def)
  then have "caller_inv hash ?n (db_serial s) c' cs'" if "caller c' s' = Some cs'" for c' cs'
    using that db_invD(7) [OF inv] by (auto simp: cl split: if_splits)
  moreover have "stores_inv hash d0 s'"
  proof (cases "mx_writer (db_lock s)")
    case True
    obtain d1 where d1: "solo_at hash (serial_stores hash (db_serial s) d0) (db_workers s) cs d1"
      using stores_writer [OF db_invD(4) [OF inv] True c] by blast
    have "solo_at hash (serial_stores hash (db_serial s') d0) (db_workers s') ?cs d1"
      using d1 i by (auto simp: solo_at_def f nth_list_update shard_after_post nth_append less_Suc_eq)
    then show ?thesis
      by (rule stores_writerI [rotated -1])
        (use True only_writer [OF db_invD(2) [OF inv] True c] in
          \<open>auto simp: cl f stores_length [OF db_invD(4) [OF inv]] split: if_splits\<close>)
  next
    case False
    note quiet = stores_quiet [OF db_invD(4) [OF inv] False]
    have "map w_store (db_workers s') = map w_store (db_workers s)"
      by (rule nth_equalityI) (use i in \<open>auto simp: f nth_list_update\<close>)
    moreover have "\<forall>w \<in> set (db_workers s'). w_idle w = []"
      unfolding f using quiet i by (intro idle_update) simp_all
    ultimately show ?thesis using False quiet by (intro stores_quietI) (simp_all add: f)
  qed
  ultimately show ?thesis using lock db_invD(1,5,6) [OF inv] by (simp add: db_inv_def f)
qed

subsection \<open>Going on with the results\<close>

lemma futures_there: "list_all (\<lambda>f. \<not> Option.is_none f) fs \<longleftrightarrow> None \<notin> set fs"
proof -
  have "Option.is_none f \<longleftrightarrow> f = None" for f :: "'a option" by (cases f) simp_all
  then show ?thesis by (metis list_all_iff)
qed

lemma solo_resume:
  assumes solo: "solo_at hash d0 ws cs d" and sc: "dc_script cs = Round ps continue" and ok: "script_ok (length ws) (dc_script cs)"
    and all: "length (dc_futures cs) = length ps" "None \<notin> set (dc_futures cs)"
  shows "\<exists>d'. solo_at hash d0 ws (cs\<lparr>dc_script := continue (map (fst \<circ> the) (dc_futures cs)), dc_futures := [],
    dc_envs := dc_envs cs @ map (snd \<circ> the) (dc_futures cs)\<rparr>) d'"
proof -
  let ?fs = "dc_futures cs" and ?m = "length (dc_envs cs)" and ?envs = "dc_envs cs @ map (snd \<circ> the) (dc_futures cs)"
  let ?d' = "map (\<lambda>i. shard_after ps ?fs i (d ! i)) [0..<length d]"
  have len: "length d = length ws" using solo by (simp add: solo_at_def)
  have ps: "distinct (map fst ps)" "\<forall>p \<in> set ps. fst p < length d" using ok sc len by simp_all
  have res: "fst (the (?fs ! j)) = fst (run_task (snd (the (?fs ! j))) (snd (ps ! j)) (d ! fst (ps ! j)))" if "j < length ps" for j
  proof -
    have "?fs ! j \<noteq> None" using all that nth_mem [of j ?fs] by metis
    then obtain r te where "?fs ! j = Some (r, te)" by force
    then show ?thesis using solo sc that all(1) by (simp add: solo_at_def)
  qed
  have "run_script (db_script hash (length ws) (dc_call cs)) te 0 d0 = run_script (continue (map (fst \<circ> the) ?fs)) te (length ?envs) ?d'"
    if te: "\<forall>j < length ?envs. te j = ?envs ! j" for te
  proof -
    have "te j = dc_envs cs ! j" if "j < ?m" for j using te that by (simp add: nth_append)
    then have run: "run_script (db_script hash (length ws) (dc_call cs)) te 0 d0 = run_script (Round ps continue) te ?m d"
      using solo sc by (simp add: solo_at_def)
    have tes: "te (?m + j) = snd (the (?fs ! j))" if "j < length ps" for j
      using te [rule_format, of "?m + j"] that all(1) by (simp add: nth_append)
    have "snd (submit_round te ?m ps d) = ?d'"
      using submit_round_stores [OF all, of te ?m d] tes ps(2) by (intro nth_equalityI) simp_all
    moreover have "fst (submit_round te ?m ps d) = map (fst \<circ> the) ?fs"
      using submit_round_results [OF ps, of te ?m] tes res all(1) by (intro nth_equalityI) simp_all
    ultimately have "submit_round te ?m ps d = (map (fst \<circ> the) ?fs, ?d')" by (metis prod.collapse)
    with run all(1) show ?thesis by simp
  qed
  moreover have "w_store (ws ! i) = fold expire_pass (w_idle (ws ! i)) (?d' ! i)" if "i < length ws" for i
    using solo sc that len by (simp add: solo_at_def)
  ultimately have "solo_at hash d0 ws (cs\<lparr>dc_script := continue (map (fst \<circ> the) ?fs), dc_futures := [], dc_envs := ?envs\<rparr>) ?d'"
    using len by (simp add: solo_at_def del: length_append map_append)
  then show ?thesis by blast
qed

text \<open>A call on keys in the middle of its work.\<close>

lemma served_shared:
  assumes "served_inv hash n evs cs" and "\<not> exclusive (dc_call cs)" and "dc_call cs \<noteq> Stats_call"
  obtains got where "length got = length (dc_envs cs)"
    and "dc_script cs = key_script hash n (drop (length got) (parts (dc_call cs))) (combine_of (dc_call cs)) got"
    and "map fst evs = take (length got + length (finished cs)) (parts (dc_call cs))" and "map snd evs = got @ finished cs"
    and "length got + length (finished cs) \<le> length (parts (dc_call cs))"
  using assms by (auto simp: served_inv_def)

lemma served_resume:
  assumes inv: "served_inv hash n evs cs" and sc: "dc_script cs = Round ps continue"
    and all: "length (dc_futures cs) = length ps" "None \<notin> set (dc_futures cs)"
  shows "served_inv hash n evs (cs\<lparr>dc_script := continue (map (fst \<circ> the) (dc_futures cs)), dc_futures := [],
    dc_envs := dc_envs cs @ map (snd \<circ> the) (dc_futures cs)\<rparr>)" (is "served_inv _ _ _ ?cs")
proof (cases "exclusive (dc_call cs) \<or> dc_call cs = Stats_call")
  case True
  then show ?thesis using inv sc by (auto simp: served_inv_def every_shard_def)
next
  case False
  let ?parts = "parts (dc_call cs)"
  obtain got where got: "length got = length (dc_envs cs)"
    "dc_script cs = key_script hash n (drop (length got) ?parts) (combine_of (dc_call cs)) got"
    "map fst evs = take (length got + length (finished cs)) ?parts" "map snd evs = got @ finished cs"
    "length got + length (finished cs) \<le> length ?parts" by (rule served_shared [OF inv]) (use False in simp_all)
  obtain p rest where drop: "drop (length got) ?parts = p # rest" using got(2) sc by (cases "drop (length got) ?parts") auto
  have ps: "length ps = 1" "continue = (\<lambda>rs. key_script hash n rest (combine_of (dc_call cs)) (got @ rs))"
    using got(2) sc drop by auto
  then obtain r te where fs: "dc_futures cs = [Some (r, te)]"
    using all by (cases "dc_futures cs"; cases "hd (dc_futures cs)") auto
  have "drop (Suc (length got)) ?parts = rest" using drop by (metis drop_Suc drop_tl list.sel(3) tl_drop)
  with got fs ps False show ?thesis
    by (auto simp: served_inv_def finished_def intro!: exI [of _ "got @ [r]"])
qed

lemma do_resume_inv:
  assumes inv: "db_inv hash d0 s" and step: "do_resume c s = Some s'"
  shows "db_inv hash d0 s'"
proof -
  let ?n = "length (db_workers s)"
  obtain cs ps continue where c: "caller c s = Some cs" and sc: "dc_script cs = Round ps continue"
    and all: "length (dc_futures cs) = length ps" "None \<notin> set (dc_futures cs)"
    and s': "s' = s\<lparr>db_callers := (db_callers s)[c := Some (cs\<lparr>dc_script := continue (map (fst \<circ> the) (dc_futures cs)),
      dc_futures := [], dc_envs := dc_envs cs @ map (snd \<circ> the) (dc_futures cs)\<rparr>)]\<rparr>"
    using step by (auto simp: do_resume_def futures_there split: option.splits script.splits if_splits)
  let ?cs = "cs\<lparr>dc_script := continue (map (fst \<circ> the) (dc_futures cs)), dc_futures := [],
    dc_envs := dc_envs cs @ map (snd \<circ> the) (dc_futures cs)\<rparr>"
  have f: "db_lock s' = db_lock s" "db_serial s' = db_serial s" "db_answers s' = db_answers s"
    "db_callers s' = (db_callers s)[c := Some ?cs]" "db_workers s' = db_workers s" by (simp_all add: s')
  have cl: "caller c' s' = (if c' = c then Some ?cs else caller c' s)" for c'
    using caller_update [OF f(4)] caller_Some [OF c] by simp
  note ci = db_invD(7) [OF inv c]
  have lock: "lock_inv s'" by (rule lock_inv_update [OF db_invD(2) [OF inv] c f(4)]) (simp_all add: f)
  have "\<not> waiting s c j i task" for j i task
    unfolding waiting_def using c all by (metis nth_mem option.inject)
  then have "waiting s' = waiting s" by (auto simp: waiting_def cl fun_eq_iff split: if_splits)
  then have queue: "queue_inv s'" using db_invD(3) [OF inv] by (simp add: queue_inv_def f)
  have "script_ok ?n (continue (map (fst \<circ> the) (dc_futures cs)))" using ci sc by (simp add: caller_inv_def)
  then have "caller_inv hash ?n (db_serial s) c ?cs"
    using ci served_resume [OF _ sc all, of hash ?n] by (simp add: caller_inv_def split: script.split)
  then have callers: "caller_inv hash ?n (db_serial s) c' cs'" if "caller c' s' = Some cs'" for c' cs'
    using that db_invD(7) [OF inv] by (auto simp: cl split: if_splits)
  have "stores_inv hash d0 s'"
  proof (cases "mx_writer (db_lock s)")
    case True
    obtain d1 where "solo_at hash (serial_stores hash (db_serial s) d0) (db_workers s) cs d1"
      using stores_writer [OF db_invD(4) [OF inv] True c] by blast
    from solo_resume [OF this sc _ all] ci obtain d2 where
      "solo_at hash (serial_stores hash (db_serial s') d0) (db_workers s') ?cs d2" unfolding caller_inv_def f by blast
    then show ?thesis
      by (rule stores_writerI [rotated -1])
        (use True only_writer [OF db_invD(2) [OF inv] True c] in
          \<open>auto simp: cl f stores_length [OF db_invD(4) [OF inv]] split: if_splits\<close>)
  next
    case False
    with stores_quiet [OF db_invD(4) [OF inv] False] show ?thesis by (intro stores_quietI) (simp_all add: f)
  qed
  with lock queue callers show ?thesis using db_invD(1,5,6) [OF inv] by (simp add: db_inv_def f)
qed

subsection \<open>A turn without a task\<close>

lemma do_turn_idle_inv:
  assumes inv: "db_inv hash d0 s" and i: "i < length (db_workers s)" and q: "w_queue (db_workers s ! i) = []"
    and step: "do_turn i e t s = Some s'"
  shows "db_inv hash d0 s'"
proof -
  let ?w = "db_workers s ! i" and ?quiet = "mx_writer (db_lock s)"
  let ?w' = "?w\<lparr>w_store := expire_pass t (w_store ?w), w_idle := (if ?quiet then w_idle ?w @ [t] else w_idle ?w)\<rparr>"
  let ?new = "if ?quiet then [] else [Idled i t]"
  have s': "s' = s\<lparr>db_workers := (db_workers s)[i := ?w'], db_serial := db_serial s @ ?new\<rparr>"
    using step i q by (simp add: do_turn_def Let_def)
  have f: "db_lock s' = db_lock s" "db_serial s' = db_serial s @ ?new" "db_answers s' = db_answers s"
    "db_callers s' = db_callers s" "db_workers s' = (db_workers s)[i := ?w']" by (simp_all add: s')
  have cl: "caller c s' = caller c s" for c by (rule caller_same [OF f(4)])
  have "inside b s' = inside b s" for b by (simp add: inside_def cl)
  then have lock: "lock_inv s'" using db_invD(2) [OF inv] by (simp add: lock_inv_def f)
  have "w_queue (db_workers s' ! i') = w_queue (db_workers s ! i')" for i' by (simp add: f nth_update)
  then have queue: "queue_inv s'" using db_invD(3) [OF inv] by (simp add: queue_inv_def waiting_def cl f)
  have "own c ?new = []" for c by simp
  then have callers: "caller_inv hash (length (db_workers s)) (db_serial s') c cs" if "caller c s' = Some cs" for c cs
    using db_invD(7) [OF inv] that by (simp add: cl f caller_inv_grow)
  have stores: "stores_inv hash d0 s'" and ser: "serial_ok hash (db_serial s') d0"
  proof -
    show "stores_inv hash d0 s'"
    proof (cases ?quiet)
      case True
      have "\<exists>d1. solo_at hash (serial_stores hash (db_serial s') d0) (db_workers s') cs d1" if c: "caller c s' = Some cs" for c cs
      proof -
        obtain d1 where "solo_at hash (serial_stores hash (db_serial s) d0) (db_workers s) cs d1"
          using stores_writer [OF db_invD(4) [OF inv] True] c by (auto simp: cl)
        then have "solo_at hash (serial_stores hash (db_serial s') d0) (db_workers s') cs d1"
          using i True by (simp add: solo_at_def f nth_list_update)
        then show ?thesis by blast
      qed
      then show ?thesis
        using True stores_length [OF db_invD(4) [OF inv]] unfolding stores_inv_def Let_def by (simp add: f)
    next
      case False
      note quiet = stores_quiet [OF db_invD(4) [OF inv] False]
      have "map w_store (db_workers s') = (map w_store (db_workers s))[i := expire_pass t (map w_store (db_workers s) ! i)]"
        using i by (simp add: f map_update)
      then have "map w_store (db_workers s') = serial_stores hash (db_serial s') d0"
        using quiet False by (simp add: f)
      moreover have "\<forall>w \<in> set (db_workers s'). w_idle w = []"
        unfolding f using quiet i False by (intro idle_update) simp_all
      ultimately show ?thesis using False by (intro stores_quietI) (simp_all add: f)
    qed
    show "serial_ok hash (db_serial s') d0" using db_invD(5) [OF inv] by (simp add: f)
  qed
  show ?thesis
    using lock queue callers stores ser db_invD(1,6) [OF inv] by (simp add: db_inv_def f answer_ok_grow)
qed

subsection \<open>A turn with a task\<close>

lemma served_run:
  assumes inv: "served_inv hash n evs cs" and shared: "\<not> exclusive (dc_call cs)" "client_call (dc_call cs)"
    and sc: "dc_script cs = Round ps continue" and j: "j < length (dc_futures cs)" "dc_futures cs ! j = None"
    and len: "length (dc_futures cs) \<le> length ps" and p: "ps ! j = (i, task)"
    and te: "te = \<lparr>passes = [], kenv = e\<rparr>" and run: "task e (d ! i) = (r, st)" and d: "length d = n"
    and new: "new = (case part_of cs j of None \<Rightarrow> [] | Some p \<Rightarrow> [Served c p [te] r])"
  shows "served_inv hash n (evs @ own c new) (cs\<lparr>dc_futures := (dc_futures cs)[j := Some (r, te)]\<rparr>) \<and>
    serial_ok hash new d \<and> serial_stores hash new d = d[i := st]"
proof (cases "dc_call cs")
  case Stats_call
  with inv sc have "ps = map (\<lambda>index. (index, \<lambda>e s. (StatsR (kv_Size s, kv_MemoryUsage s), s))) [0..<n]"
    by (auto simp: served_inv_def every_shard_def)
  then have "st = d ! i" using p run j(1) len by auto
  then show ?thesis using Stats_call inv new sc by (simp add: part_of_def served_inv_def)
next
  case (Call call)
  let ?parts = "parts (dc_call cs)"
  obtain got where got: "length got = length (dc_envs cs)"
    "dc_script cs = key_script hash n (drop (length got) ?parts) (combine_of (dc_call cs)) got"
    "map fst evs = take (length got + length (finished cs)) ?parts" "map snd evs = got @ finished cs"
    "length got + length (finished cs) \<le> length ?parts" by (rule served_shared [OF inv shared(1)]) (simp add: Call)
  obtain q rest where drop: "drop (length got) ?parts = q # rest" using got(2) sc by (cases "drop (length got) ?parts") auto
  then have q: "length got < length ?parts" "?parts ! length got = q"
    by (metis drop_eq_Nil list.distinct(1) not_le, metis Cons_nth_drop_Suc drop_eq_Nil list.inject list.distinct(1) not_le)
  have ps: "ps = [(call_shard hash n q, call_task q)]" using got(2) sc drop by simp
  then have j0: "j = 0" "dc_futures cs = [None]" using j len by (cases "dc_futures cs"; simp)+
  have served: "new = [Served c q [te] r]" using new got(1) q j0(1) by (simp add: part_of_def Let_def)
  have "sh_call hash (call_of_tasks [te]) q d = Submit (c_task (call_of_tasks [te]) 0) (call_shard hash (length d) q) (call_task q) d"
    using q Call shared by (intro call_Submit [of q call]) (auto simp: set_conv_nth)
  also have "\<dots> = (r, d[i := st])"
    using ps p j0(1) run te d by (simp add: call_of_tasks_def Submit_def run_task_def)
  finally have call: "sh_call hash (call_of_tasks [te]) q d = (r, d[i := st])" .
  then have "sh_run hash (call_of_tasks [te]) q d = d[i := st]" by (metis snd_conv snd_sh_call)
  moreover have "take (Suc (length got)) ?parts = take (length got) ?parts @ [q]" using q by (simp add: take_Suc_conv_app_nth)
  ultimately show ?thesis
    using got shared Call j0 q sc call by (auto simp: served served_inv_def finished_def)
qed

lemma solo_run:
  assumes solo: "solo_at hash d0 ws cs d" and sc: "dc_script cs = Round ps continue" and ok: "script_ok (length ws) (dc_script cs)"
    and j: "j < length (dc_futures cs)" "dc_futures cs ! j = None" "length (dc_futures cs) \<le> length ps" and p: "ps ! j = (i, task)"
    and run: "task e (w_store (ws ! i)) = (r, st)" and te: "te = \<lparr>passes = w_idle (ws ! i), kenv = e\<rparr>"
  shows "solo_at hash d0 (ws[i := \<lparr>w_store = expire_pass t st, w_queue = rest, w_idle = [t]\<rparr>])
    (cs\<lparr>dc_futures := (dc_futures cs)[j := Some (r, te)]\<rparr>) d"
proof -
  have dist: "distinct (map fst ps)" and i: "i < length ws"
    using ok sc p j nth_mem [of j ps] by auto
  have jp: "j < length ps" using j by simp
  have "w_store (ws ! i) = fold expire_pass (w_idle (ws ! i)) (d ! i)"
    using solo sc i shard_after_waiting [OF dist j(1) jp j(2), of "d ! i"] p by (simp add: solo_at_def)
  then have rt: "run_task te task (d ! i) = (r, st)" using run te by (simp add: run_task_def)
  have after: "shard_after ps ((dc_futures cs)[j := Some (r, te)]) i' s =
      (if i' = i then snd (run_task te task s) else shard_after ps (dc_futures cs) i' s)" for i' s
    using shard_after_update [OF dist j(1) jp j(2)] p by simp
  show ?thesis
    using solo sc i rt p j(1) by (auto simp: solo_at_def after nth_list_update)
qed

lemma queue_first:
  "queue_inv s \<Longrightarrow> i < length (db_workers s) \<Longrightarrow> w_queue (db_workers s ! i) = (c, j, task) # rest \<Longrightarrow> waiting s c j i task"
  unfolding queue_inv_def by (metis list.set_intros(1))

lemma queue_run:
  assumes inv: "queue_inv s" and i: "i < length (db_workers s)" and q: "w_queue (db_workers s ! i) = (c, j, task) # rest"
    and c: "caller c s = Some cs" and f: "db_callers s' = (db_callers s)[c := Some (cs\<lparr>dc_futures := (dc_futures cs)[j := Some x]\<rparr>)]"
    and w: "db_workers s' = (db_workers s)[i := w]" "w_queue w = rest"
  shows "queue_inv s'"
proof -
  let ?key = "\<lambda>q. (fst q, fst (snd q)) :: nat \<times> nat"
  have dist: "distinct (map ?key (w_queue (db_workers s ! i')))"
    and mem: "(c', j', task') \<in> set (w_queue (db_workers s ! i')) \<longleftrightarrow> waiting s c' j' i' task'"
    if "i' < length (db_workers s)" for i' c' j' task' using inv that by (simp_all add: queue_inv_def)
  have cl: "caller c' s' = (if c' = c then Some (cs\<lparr>dc_futures := (dc_futures cs)[j := Some x]\<rparr>) else caller c' s)" for c'
    using caller_update [OF f] caller_Some [OF c] by simp
  have wt: "waiting s' c' j' i' task' \<longleftrightarrow> waiting s c' j' i' task' \<and> (c', j') \<noteq> (c, j)" for c' j' i' task'
    using c by (auto simp: waiting_def cl nth_update split: if_splits)
  have cj: "waiting s c j i task" by (rule queue_first [OF inv i q])
  have fresh: "(c, j) \<notin> ?key ` set rest" using dist [OF i] q by simp
  show ?thesis
    unfolding queue_inv_def
  proof (intro allI impI conjI)
    fix i' assume "i' < length (db_workers s')"
    then have i': "i' < length (db_workers s)" by (simp add: w)
    show "distinct (map ?key (w_queue (db_workers s' ! i')))"
      using dist [OF i'] dist [OF i] q i by (simp add: w nth_list_update)
    fix c' j' task'
    show "((c', j', task') \<in> set (w_queue (db_workers s' ! i'))) = waiting s' c' j' i' task'"
    proof (cases "i' = i")
      case True
      have "(c', j', task') \<in> set rest \<longleftrightarrow> (c', j', task') \<in> set (w_queue (db_workers s ! i)) \<and> (c', j') \<noteq> (c, j)"
        using fresh q by (force simp: image_iff)
      then show ?thesis using True i by (simp add: w wt mem [OF i])
    next
      case False
      then have "\<not> waiting s c j i' task'" using cj by (auto simp: waiting_def)
      with False show ?thesis by (auto simp: w wt mem [OF i'])
    qed
  qed
qed

lemma do_turn_task_inv:
  assumes inv: "db_inv hash d0 s" and i: "i < length (db_workers s)" and q: "w_queue (db_workers s ! i) = (c, j, task) # rest"
    and step: "do_turn i e t s = Some s'"
  shows "db_inv hash d0 s'"
proof -
  let ?n = "length (db_workers s)" and ?w = "db_workers s ! i" and ?quiet = "mx_writer (db_lock s)"
  from queue_first [OF db_invD(3) [OF inv] i q] obtain cs ps continue where c: "caller c s = Some cs" and sc: "dc_script cs = Round ps continue"
    and j: "j < length (dc_futures cs)" "dc_futures cs ! j = None" and p: "ps ! j = (i, task)" by (auto simp: waiting_def)
  obtain r st where run: "task e (w_store ?w) = (r, st)" by fastforce
  define te where "te = \<lparr>passes = w_idle ?w, kenv = e\<rparr>"
  define new where "new = (case part_of cs j of None \<Rightarrow> [] | Some p \<Rightarrow> [Served c p [te] r])"
  let ?cs = "cs\<lparr>dc_futures := (dc_futures cs)[j := Some (r, te)]\<rparr>"
  let ?w' = "\<lparr>w_store = expire_pass t st, w_queue = rest, w_idle = (if ?quiet then [t] else [])\<rparr>"
  let ?es = "if ?quiet then [] else new @ [Idled i t]"
  have s': "s' = s\<lparr>db_workers := (db_workers s)[i := ?w'], db_callers := (db_callers s)[c := Some ?cs], db_serial := db_serial s @ ?es\<rparr>"
    using step i q c run unfolding new_def te_def by (simp add: do_turn_def Let_def)
  have f: "db_lock s' = db_lock s" "db_serial s' = db_serial s @ ?es" "db_answers s' = db_answers s"
    "db_callers s' = (db_callers s)[c := Some ?cs]" "db_workers s' = (db_workers s)[i := ?w']" by (simp_all add: s')
  have cl: "caller c' s' = (if c' = c then Some ?cs else caller c' s)" for c'
    using caller_update [OF f(4)] caller_Some [OF c] by simp
  note ci = db_invD(7) [OF inv c]
  have len: "length (dc_futures cs) \<le> length ps" using ci sc by (simp add: caller_inv_def)
  have lock: "lock_inv s'" by (rule lock_inv_update [OF db_invD(2) [OF inv] c f(4)]) (simp_all add: f)
  have queue: "queue_inv s'" by (rule queue_run [OF db_invD(3) [OF inv] i q c f(4,5)]) simp
  have others: "own c' ?es = []" if "c' \<noteq> c" for c' using that by (auto simp: new_def split: option.split)
  have excl: "exclusive (dc_call cs) = ?quiet" by (rule exclusive_iff_writer [OF db_invD(2) [OF inv] c])
  have main: "served_inv hash ?n (own c (drop (dc_begin cs) (db_serial s)) @ own c ?es) ?cs \<and> stores_inv hash d0 s' \<and>
    serial_ok hash (db_serial s') d0"
  proof (cases ?quiet)
    case True
    obtain d1 where "solo_at hash (serial_stores hash (db_serial s) d0) (db_workers s) cs d1"
      using stores_writer [OF db_invD(4) [OF inv] True c] by blast
    from solo_run [OF this sc _ j len p run te_def, of t rest] ci True
    have "solo_at hash (serial_stores hash (db_serial s') d0) (db_workers s') ?cs d1" by (simp add: caller_inv_def f)
    then have "stores_inv hash d0 s'"
      by (rule stores_writerI [rotated -1])
        (use True only_writer [OF db_invD(2) [OF inv] True c] in
          \<open>auto simp: cl f stores_length [OF db_invD(4) [OF inv]] split: if_splits\<close>)
    with ci excl True db_invD(5) [OF inv] show ?thesis by (simp add: caller_inv_def served_inv_def f)
  next
    case False
    note quiet = stores_quiet [OF db_invD(4) [OF inv] False]
    let ?d = "serial_stores hash (db_serial s) d0"
    have d: "length ?d = ?n" "?d ! i = w_store ?w" using quiet i by (metis length_map, metis nth_map)
    have idle: "te = \<lparr>passes = [], kenv = e\<rparr>" using quiet i by (simp add: te_def)
    have "served_inv hash ?n (own c (drop (dc_begin cs) (db_serial s)) @ own c new) ?cs \<and>
        serial_ok hash new ?d \<and> serial_stores hash new ?d = ?d[i := st]"
      using ci excl False by (intro served_run [OF _ _ _ sc j len p idle _ d(1) new_def]) (simp_all add: caller_inv_def d run)
    moreover have "map w_store (db_workers s') = ?d[i := expire_pass t st]" using quiet by (simp add: f map_update)
    moreover have "\<forall>w \<in> set (db_workers s'). w_idle w = []"
      unfolding f using quiet False by (intro idle_update) simp_all
    ultimately show ?thesis
      using False db_invD(5) [OF inv] d i by (auto simp: f intro!: stores_quietI)
  qed
  have "caller_inv hash ?n (db_serial s') c ?cs" using ci main sc by (simp add: caller_inv_def f)
  then have callers: "caller_inv hash ?n (db_serial s') c' cs'" if "caller c' s' = Some cs'" for c' cs'
    using that db_invD(7) [OF inv] others by (auto simp: cl f caller_inv_grow split: if_splits)
  show ?thesis
    using lock queue callers main db_invD(1,6) [OF inv] by (simp add: db_inv_def f answer_ok_grow)
qed

subsection \<open>Returning\<close>

lemma solo_return:
  assumes solo: "solo_at hash d0 ws cs d" and sc: "dc_script cs = Return r" and excl: "exclusive (dc_call cs)" "dc_call cs = Call call"
    and futures: "dc_futures cs = []" and len: "length d0 = length ws"
  shows "sh_call hash (call_of_tasks (dc_envs cs)) call d0 = (r, d)"
    and "serial_stores hash (idle_events ws) d = map w_store ws"
proof -
  have "run_script (db_script hash (length ws) (dc_call cs)) (c_task (call_of_tasks (dc_envs cs))) 0 d0 = (r, d)"
    using solo sc by (simp add: solo_at_def call_of_tasks_def)
  then show "sh_call hash (call_of_tasks (dc_envs cs)) call d0 = (r, d)"
    using run_exclusive_script [of call hash d0] excl len by simp
  have "length d = length ws" and "\<forall>i < length ws. w_store (ws ! i) = fold expire_pass (w_idle (ws ! i)) (d ! i)"
    using solo futures by (simp_all add: solo_at_def)
  then show "serial_stores hash (idle_events ws) d = map w_store ws"
    by (intro nth_equalityI) (simp_all add: serial_idle_events(2))
qed

lemma served_return:
  assumes "served_inv hash n evs cs" and "dc_script cs = Return r" and "\<not> exclusive (dc_call cs)" and "dc_futures cs = []"
  shows "justified (dc_call cs) r evs"
proof (cases "dc_call cs = Stats_call")
  case True
  with assms show ?thesis by (simp add: served_inv_def justified_def)
next
  case False
  let ?parts = "parts (dc_call cs)"
  obtain got where got: "dc_script cs = key_script hash n (drop (length got) ?parts) (combine_of (dc_call cs)) got"
    "map fst evs = take (length got + length (finished cs)) ?parts" "map snd evs = got @ finished cs"
    by (rule served_shared [OF assms(1,3) False])
  have "finished cs = []" using assms(4) by (simp add: finished_def)
  moreover have "drop (length got) ?parts = []" using assms(2) got(1) by (cases "drop (length got) ?parts") auto
  ultimately show ?thesis using got assms(2) by (auto simp: justified_def)
qed

lemma do_return_inv:
  assumes inv: "db_inv hash d0 s" and step: "do_return c s = Some s'"
  shows "db_inv hash d0 s'"
proof -
  let ?n = "length (db_workers s)"
  obtain cs r where c: "caller c s = Some cs" and sc: "dc_script cs = Return r"
    using step by (auto simp: do_return_def split: option.splits script.splits)
  let ?excl = "exclusive (dc_call cs)"
  define new where "new = (case dc_call cs of
      Call call \<Rightarrow> if ?excl then Served c call (dc_envs cs) r # idle_events (db_workers s) else [] | Stats_call \<Rightarrow> [])"
  have f: "db_lock s' = unlock_for ?excl (db_lock s)" "db_serial s' = db_serial s @ new" "db_callers s' = (db_callers s)[c := None]"
    "db_workers s' = (if ?excl then map (\<lambda>w. w\<lparr>w_idle := []\<rparr>) (db_workers s) else db_workers s)"
    "db_answers s' = db_answers s @ [(c, dc_call cs, r, dc_begin cs, length (db_serial s @ new))]"
    using step c sc by (auto simp: do_return_def new_def Let_def)
  have cl: "caller c' s' = (if c' = c then None else caller c' s)" for c'
    using caller_update [OF f(3)] caller_Some [OF c] by simp
  note ci = db_invD(7) [OF inv c]
  have fut: "dc_futures cs = []" using ci sc by (simp add: caller_inv_def)
  have excl: "?excl = mx_writer (db_lock s)" by (rule exclusive_iff_writer [OF db_invD(2) [OF inv] c])
  have ins: "inside b s' = inside b s - {c}" for b by (auto simp: inside_def cl)
  have cin: "c \<in> inside ?excl s" using c by (simp add: inside_def)
  have "lock_inv s'"
    using db_invD(2) [OF inv] cin excl unfolding lock_inv_def ins f(1)
    by (auto simp: unlock_for_def card_Diff_singleton split: if_splits)
  moreover have "waiting s' = waiting s" using c sc by (auto simp: waiting_def cl fun_eq_iff split: if_splits)
  then have "queue_inv s'" using db_invD(3) [OF inv] by (simp add: queue_inv_def f)
  moreover have "own c' new = []" if "c' \<noteq> c" for c' using that by (auto simp: new_def split: db_call.split)
  then have "caller_inv hash ?n (db_serial s') c' cs'" if "caller c' s' = Some cs'" for c' cs'
    using that db_invD(7) [OF inv] by (auto simp: cl f caller_inv_grow split: if_splits)
  moreover have "stores_inv hash d0 s' \<and> serial_ok hash (db_serial s') d0 \<and>
    justified (dc_call cs) r (own c (drop (dc_begin cs) (db_serial s @ new)))"
  proof (cases ?excl)
    case True
    then obtain call where call: "dc_call cs = Call call" by (cases "dc_call cs") auto
    let ?d = "serial_stores hash (db_serial s) d0"
    obtain d1 where solo: "solo_at hash ?d (db_workers s) cs d1"
      using stores_writer [OF db_invD(4) [OF inv] _ c] excl True by blast
    note ret = solo_return [OF solo sc True call fut stores_length [OF db_invD(4) [OF inv]]]
    then have "sh_run hash (call_of_tasks (dc_envs cs)) call ?d = d1" by (metis snd_conv snd_sh_call)
    moreover have "length d1 = ?n" using solo by (simp add: solo_at_def)
    ultimately have "serial_stores hash new ?d = map w_store (db_workers s)" "serial_ok hash new ?d"
      using ret True call serial_idle_events(1) [of "db_workers s" d1] by (simp_all add: new_def)
    moreover have "own c (drop (dc_begin cs) (db_serial s)) = []" "dc_begin cs \<le> length (db_serial s)"
      using ci True by (simp_all add: caller_inv_def served_inv_def)
    then have "own c (drop (dc_begin cs) (db_serial s @ new)) = [(call, r)]" using True call by (simp add: new_def)
    moreover have "parts (Call call) = [call]" "combine_of (Call call) = hd" using True call by (cases call; simp)+
    ultimately show ?thesis
      using True call db_invD(5) [OF inv]
      by (auto simp: justified_def f unlock_for_def comp_def intro!: stores_quietI)
  next
    case False
    then have "new = []" by (auto simp: new_def split: db_call.split)
    moreover have "justified (dc_call cs) r (own c (drop (dc_begin cs) (db_serial s)))"
      using ci by (intro served_return [OF _ sc False fut, of hash ?n]) (simp add: caller_inv_def)
    ultimately show ?thesis
      using False excl stores_quiet [OF db_invD(4) [OF inv]] db_invD(5) [OF inv]
      by (auto simp: f unlock_for_def intro!: stores_quietI)
  qed
  ultimately show ?thesis
    using ci db_invD(1,6) [OF inv] by (auto simp: db_inv_def f answer_ok_grow caller_inv_def answer_ok_def [of _ "(c, _)"])
qed

interpretation db_machine: inductive_invariant "db_do hash" "db_inv hash d0" for hash d0
proof
  fix s a s'
  assume inv: "db_inv hash d0 s" and step: "db_do hash a s = Some s'"
  show "db_inv hash d0 s'"
  proof (cases a)
    case (Turn i e t)
    then have turn: "do_turn i e t s = Some s'" and i: "i < length (db_workers s)"
      using step by (auto simp: do_turn_def split: if_splits)
    show ?thesis
    proof (cases "w_queue (db_workers s ! i)")
      case Nil
      then show ?thesis by (rule do_turn_idle_inv [OF inv i _ turn])
    next
      case (Cons q rest)
      then show ?thesis by (cases q) (auto intro: do_turn_task_inv [OF inv i _ turn])
    qed
  qed (use step in \<open>auto intro: do_lock_inv [OF inv] do_post_inv [OF inv] do_resume_inv [OF inv] do_return_inv [OF inv]\<close>)
qed

subsection \<open>Every run has a serial account\<close>

lemma new_db_inv:
  assumes "d0 \<noteq> []"
  shows "db_inv hash d0 (new_db_system d0 threads)"
proof -
  have none: "caller c (new_db_system d0 threads) = None" for c by (simp add: caller_def new_db_system_def)
  have "\<not> waiting (new_db_system d0 threads) c j i task" for c j i task by (simp add: waiting_def none)
  with none assms show ?thesis
    by (simp add: db_inv_def lock_inv_def inside_def queue_inv_def) (simp add: new_db_system_def stores_inv_def comp_def)
qed

text \<open>A step that brings some call forward: not a new call, and not an idle turn.\<close>

definition brings_forward :: "db_action \<Rightarrow> db_system \<Rightarrow> bool" where
  "brings_forward a s = (case a of LockFor _ _ \<Rightarrow> False | Turn i _ _ \<Rightarrow> w_queue (db_workers s ! i) \<noteq> [] | _ \<Rightarrow> True)"

lemma worker_turn_enabled:
  assumes "queue_inv s" and "i < length (db_workers s)" and "w_queue (db_workers s ! i) \<noteq> []"
  shows "\<exists>s'. do_turn i e t s = Some s'"
proof -
  obtain c j task rest where q: "w_queue (db_workers s ! i) = (c, j, task) # rest"
    using assms(3) by (cases "w_queue (db_workers s ! i)") auto
  with queue_first [OF assms(1,2) this] assms(2) show ?thesis
    by (auto simp: do_turn_def Let_def waiting_def split: prod.split)
qed

lemma caller_not_stuck:
  assumes inv: "db_inv hash d0 s" and c: "caller c s = Some cs"
  shows "\<exists>a s'. db_do hash a s = Some s' \<and> brings_forward a s"
proof (cases "dc_script cs")
  case (Return r)
  then have "do_return c s \<noteq> None" using c by (simp add: do_return_def Let_def)
  then show ?thesis by (intro exI [of _ "ReturnFrom c"]) (auto simp: brings_forward_def)
next
  case (Round ps continue)
  note ci = db_invD(7) [OF inv c]
  consider (post) "length (dc_futures cs) < length ps" | (resume) "length (dc_futures cs) = length ps" "None \<notin> set (dc_futures cs)"
    | (wait) j where "j < length (dc_futures cs)" "dc_futures cs ! j = None"
    using ci Round by (fastforce simp: caller_inv_def in_set_conv_nth)
  then show ?thesis
  proof cases
    case post
    then have "do_post c s \<noteq> None" using c Round by (simp add: do_post_def Let_def split: prod.split)
    then show ?thesis by (intro exI [of _ "PostNext c"]) (auto simp: brings_forward_def)
  next
    case resume
    then have "do_resume c s \<noteq> None" using c Round by (simp add: do_resume_def futures_there)
    then show ?thesis by (intro exI [of _ "Resume c"]) (auto simp: brings_forward_def)
  next
    case wait
    obtain i task where p: "ps ! j = (i, task)" by fastforce
    have "j < length ps" using wait ci Round by (simp add: caller_inv_def)
    then have i: "i < length (db_workers s)" using ci Round p nth_mem [of j ps] by (auto simp: caller_inv_def)
    have "waiting s c j i task" using c Round wait p by (auto simp: waiting_def)
    then have q: "w_queue (db_workers s ! i) \<noteq> []" using db_invD(3) [OF inv] i by (auto simp: queue_inv_def)
    from worker_turn_enabled [OF db_invD(3) [OF inv] i this] obtain s' where "do_turn i (kenv no_task) 0 s = Some s'" by blast
    with q show ?thesis by (intro exI [of _ "Turn i (kenv no_task) 0"]) (auto simp: brings_forward_def)
  qed
qed

text \<open>The stores of the account are stores of \<open>sh_reachable\<close>, so everything shown for sequences of calls holds of them.\<close>

lemma serial_reachable:
  "\<forall>c p envs r. Served c p envs r \<in> set es \<longrightarrow> addressable p \<Longrightarrow> sh_reachable hash d0 d \<Longrightarrow> sh_reachable hash d0 (serial_stores hash es d)"
proof (induction es arbitrary: d)
  case (Cons e es)
  have "sh_reachable hash d0 (event_stores hash e d)"
  proof (cases e)
    case (Served c p envs r)
    then show ?thesis using Cons.prems sh_reachable.call [OF Cons.prems(2), of p "call_of_tasks envs"] by auto
  next
    case (Idled i t)
    then show ?thesis using sh_reachable.call [OF Cons.prems(2), of "ActiveExpireC i" "\<lparr>c_start = t, c_end = t, c_task = \<lambda>_. no_task\<rparr>"] by simp
  qed
  moreover have "\<forall>c p envs r. Served c p envs r \<in> set es \<longrightarrow> addressable p"
    using Cons.prems(1) by (meson list.set_intros(2))
  ultimately show ?case using Cons.IH [of "event_stores hash e d"] unfolding serial_stores_simps by blast
qed simp

text \<open>
  C5. Callers of the sharded database do not disturb each other.  Whatever the order in which any number of threads take
  \<open>transaction_mutex_\<close>, post tasks, wait and return, and in which the workers of the shards take their turns, there is a
  serial account of the run: calls made one after another, with the passes of \<open>ActiveExpire\<close> between them, in which
  every call has exactly the result it has when it is made alone at its place.  While no writer holds the lock the
  stores are those of the account.  Every call that returned took effect inside its own interval, from the place \<open>b\<close> of the account
  when it got the lock to the place \<open>e\<close> when it gave it back: \<open>MSet\<close>, \<open>Snapshot\<close>, \<open>Clear\<close> and every call on one key as one
  call, with the result it returned; \<open>Delete\<close> and \<open>Exists\<close> of several keys as one call for each key, in order, whose
  results they add.  And a thread inside a call is never stuck: some thread or worker can bring a call forward.
\<close>

theorem concurrent_calls_linearize:
  assumes "d0 \<noteq> []" and "reaches (db_do hash) (new_db_system d0 threads) s"
  shows "serial_ok hash (db_serial s) d0 \<and>
    (\<not> mx_writer (db_lock s) \<longrightarrow> map w_store (db_workers s) = serial_stores hash (db_serial s) d0) \<and>
    (\<forall>(c, call, r, b, e) \<in> set (db_answers s). b \<le> e \<and> e \<le> length (db_serial s) \<and>
       justified call r (own c (drop b (take e (db_serial s))))) \<and>
    (\<forall>c cs. caller c s = Some cs \<longrightarrow> (\<exists>a s'. db_do hash a s = Some s' \<and> brings_forward a s))"
proof -
  have inv: "db_inv hash d0 s" by (rule db_machine.on_reaches [OF assms(2) new_db_inv [OF assms(1)]])
  moreover have "\<forall>(c, call, r, b, e) \<in> set (db_answers s). b \<le> e \<and> e \<le> length (db_serial s) \<and>
      justified call r (own c (drop b (take e (db_serial s))))"
    using db_invD(6) [OF inv] by (auto simp: answer_ok_def)
  ultimately show ?thesis
    using stores_quiet [OF db_invD(4) [OF inv]] db_invD(5) [OF inv] caller_not_stuck [OF inv] by blast
qed

text \<open>Two threads: a \<open>Delete\<close> of two keys, and a \<open>Set\<close> of the second key between its two tasks.\<close>

definition sample_run :: "db_action list" where
  "sample_run = (let e = kenv no_task; set_b = Call (sample_set ''bb'' ''2'' None) in
     [LockFor 0 (Call (DeleteC [''a'', ''bb''])), LockFor 1 set_b, PostNext 0, Turn 1 e 0, PostNext 1, Resume 0,
      Turn 0 e 0, PostNext 0, Resume 1, Turn 0 e 0, ReturnFrom 1, Resume 0, ReturnFrom 0])"

theorem concurrent_calls_linearize_witness:
  "map_option (\<lambda>s. (map (\<lambda>(c, call, r, b, e). (c, r, b, e)) (db_answers s),
      map w_store (db_workers s) = serial_stores sample_hash (db_serial s) sample_shards,
      \<forall>(c, call, r, b, e) \<in> set (db_answers s). justified call r (own c (drop b (take e (db_serial s))))))
     (run_actions (db_do sample_hash) sample_run (new_db_system sample_shards 2))
   = Some ([(1, WriteR kOk, 0, 6), (0, IntR 2, 0, 6)], True, True)"
proof -
  let ?run = "run_actions (db_do sample_hash) sample_run (new_db_system sample_shards 2)"
  have "map_option (\<lambda>s. (map (\<lambda>(c, call, r, b, e). (c, r, b, e)) (db_answers s), mx_writer (db_lock s))) ?run =
      Some ([(1, WriteR kOk, 0, 6), (0, IntR 2, 0, 6)], False)" by code_simp
  then obtain s where s: "?run = Some s" "map (\<lambda>(c, call, r, b, e). (c, r, b, e)) (db_answers s) = [(1, WriteR kOk, 0, 6), (0, IntR 2, 0, 6)]"
    "\<not> mx_writer (db_lock s)" by auto
  have "sample_shards \<noteq> []" using sample_shards_wf by (simp add: sh_wf_def)
  from concurrent_calls_linearize [OF this run_actions_reaches [OF s(1)]] s show ?thesis by auto
qed

end
