(* ===== verification/Concurrent_Execution.thy ===== *)
theory Concurrent_Execution
  imports Recovery Sharded_Serializability "HOL-Library.Sublist"
begin

text \<open>
  \<open>CommandExecutor::Execute\<close> on several threads at once (src/src/command/command_executor.cpp).  The workers of the
  dispatcher share one executor, which has no lock of its own: between the checks, the handler and the mutation callback of one
  command the other threads may run.  A handler is one step here; \<open>Sharded_Serializability\<close> shows that calls of the
  database by several threads have a serial account.
\<close>

subsection \<open>The stages of a command\<close>

definition effective :: "'d CommandSpec \<Rightarrow> Value \<Rightarrow> bool" where
  "effective command response \<longleftrightarrow> mutating command \<and> \<not> is_error response \<and> response \<noteq> Null"

text \<open>Up to the handler: an error reply, or the command to run.\<close>

definition check_stage :: "'d CommandRegistry \<Rightarrow> 'p MutationHooks \<Rightarrow> string list \<Rightarrow> 'p \<Rightarrow> Value + 'd CommandSpec" where
  "check_stage registry hooks arguments p =
     (if arguments = [] then Inl (ErrorValue ''ERR empty command'')
      else case Find registry (Uppercase (hd arguments)) of
        None \<Rightarrow> Inl (ErrorValue (''ERR unknown command '' @ [CHR 0x27] @ hd arguments @ [CHR 0x27]))
      | Some command \<Rightarrow>
          if length arguments < minimum_arguments command \<or>
             (case maximum_arguments command of None \<Rightarrow> False | Some mx \<Rightarrow> length arguments > mx)
          then Inl (ArityError (name command))
          else if mutating command \<and> guard_fails hooks p then Inl (ErrorValue ''MISCONF persistence is unavailable'')
          else Inr command)"

text \<open>After it: the callback, and the result of \<open>Execute\<close>.\<close>

definition log_stage :: "'p MutationHooks \<Rightarrow> string list \<Rightarrow> Value \<Rightarrow> 'p \<Rightarrow> (std_exception + Value) \<times> 'p" where
  "log_stage hooks arguments response p =
     (case mutation_callback hooks of
        None \<Rightarrow> (Inr response, p)
      | Some callback \<Rightarrow> (case callback arguments p of (Inl ex, p') \<Rightarrow> (Inl ex, p') | (Inr _, p') \<Rightarrow> (Inr response, p')))"

text \<open>One thread alone: the stages are \<open>Execute\<close>.\<close>

lemma Execute_stages:
  "Execute registry hooks elapsed arguments d p m =
     (case check_stage registry hooks arguments p of
        Inl v \<Rightarrow> (Inr v, d, p, finish elapsed v m)
      | Inr command \<Rightarrow>
          (let (response, d') = handler command arguments d;
               (result, p') = (if effective command response then log_stage hooks arguments response p else (Inr response, p))
           in (result, d', p', case result of Inl _ \<Rightarrow> m | Inr v \<Rightarrow> finish elapsed v m)))"
  by (auto simp: Execute_def check_stage_def effective_def log_stage_def Let_def split: option.split prod.split sum.split)

subsection \<open>Several threads\<close>

datatype stage = Idle_thread | Checked "string list" | Handled "string list" Value

text \<open>
  \<open>ops n\<close> is the database as the \<open>n\<close>-th handler sees it.  \<open>ex_runs\<close>, \<open>ex_logged\<close> and \<open>ex_replies\<close> are history: the handlers that ran, with
  the database before and after, the commands handed to the callback, with their threads, and what \<open>Execute\<close> returned or threw.
\<close>

record 'd handler_run =
  run_thread :: nat
  run_number :: nat
  run_arguments :: "string list"
  run_before :: 'd
  run_reply :: Value
  run_after :: 'd

record ('d, 'p) executing =
  ex_database :: 'd
  ex_persistence :: 'p
  ex_metrics :: "Metrics option"
  ex_threads :: "stage list"
  ex_handled :: nat
  ex_runs :: "'d handler_run list"
  ex_logged :: "(nat \<times> string list) list"
  ex_replies :: "(nat \<times> (std_exception + Value)) list"

text \<open>A step of thread \<open>t\<close> carries the microseconds since \<open>Execute\<close> began, which \<open>finish\<close> reports if the call ends with it.\<close>

datatype exec_action = Check nat "string list" uint64 | Handle nat uint64 | Log nat uint64

definition reply :: "nat \<Rightarrow> uint64 \<Rightarrow> Value \<Rightarrow> ('d, 'p) executing \<Rightarrow> ('d, 'p) executing" where
  "reply t elapsed v s = s\<lparr>ex_metrics := finish elapsed v (ex_metrics s), ex_replies := ex_replies s @ [(t, Inr v)]\<rparr>"

definition do_check ::
    "(nat \<Rightarrow> nat \<Rightarrow> 'd Database) \<Rightarrow> 'p MutationHooks \<Rightarrow> nat \<Rightarrow> string list \<Rightarrow> uint64 \<Rightarrow> ('d, 'p) executing \<Rightarrow> ('d, 'p) executing option" where
  "do_check ops hooks t arguments elapsed s =
     (if t < length (ex_threads s)
      then (case ex_threads s ! t of
              Idle_thread \<Rightarrow>
                (case check_stage (executor_registry (ops (ex_handled s))) hooks arguments (ex_persistence s) of
                   Inl v \<Rightarrow> Some (reply t elapsed v s)
                 | Inr _ \<Rightarrow> Some (s\<lparr>ex_threads := (ex_threads s)[t := Checked arguments]\<rparr>))
            | _ \<Rightarrow> None)
      else None)"

definition do_handle ::
    "(nat \<Rightarrow> nat \<Rightarrow> 'd Database) \<Rightarrow> nat \<Rightarrow> uint64 \<Rightarrow> ('d, 'p) executing \<Rightarrow> ('d, 'p) executing option" where
  "do_handle ops t elapsed s =
     (if t < length (ex_threads s)
      then (case ex_threads s ! t of
              Checked arguments \<Rightarrow>
                (case Find (executor_registry (ops (ex_handled s))) (Uppercase (hd arguments)) of
                   None \<Rightarrow> None
                 | Some command \<Rightarrow>
                     (let (response, d) = handler command arguments (ex_database s);
                          s1 = s\<lparr>ex_database := d, ex_handled := Suc (ex_handled s),
                            ex_runs := ex_runs s @ [\<lparr>run_thread = t, run_number = ex_handled s, run_arguments = arguments,
                              run_before = ex_database s, run_reply = response, run_after = d\<rparr>]\<rparr>
                      in if effective command response
                         then Some (s1\<lparr>ex_threads := (ex_threads s)[t := Handled arguments response]\<rparr>)
                         else Some (reply t elapsed response (s1\<lparr>ex_threads := (ex_threads s)[t := Idle_thread]\<rparr>))))
            | _ \<Rightarrow> None)
      else None)"

text \<open>An exception of the callback leaves \<open>Execute\<close> before \<open>finish\<close>.\<close>

definition do_log :: "'p MutationHooks \<Rightarrow> nat \<Rightarrow> uint64 \<Rightarrow> ('d, 'p) executing \<Rightarrow> ('d, 'p) executing option" where
  "do_log hooks t elapsed s =
     (if t < length (ex_threads s)
      then (case ex_threads s ! t of
              Handled arguments response \<Rightarrow>
                (let (result, p) = log_stage hooks arguments response (ex_persistence s);
                     s1 = s\<lparr>ex_persistence := p, ex_threads := (ex_threads s)[t := Idle_thread], ex_logged := ex_logged s @ [(t, arguments)]\<rparr>
                 in Some (case result of
                            Inl ex \<Rightarrow> s1\<lparr>ex_replies := ex_replies s @ [(t, Inl ex)]\<rparr>
                          | Inr v \<Rightarrow> reply t elapsed v s1))
            | _ \<Rightarrow> None)
      else None)"

fun exec_do ::
    "(nat \<Rightarrow> nat \<Rightarrow> 'd Database) \<Rightarrow> 'p MutationHooks \<Rightarrow> exec_action \<Rightarrow> ('d, 'p) executing \<Rightarrow> ('d, 'p) executing option" where
  "exec_do ops hooks (Check t arguments elapsed) s = do_check ops hooks t arguments elapsed s"
| "exec_do ops hooks (Handle t elapsed) s = do_handle ops t elapsed s"
| "exec_do ops hooks (Log t elapsed) s = do_log hooks t elapsed s"

definition new_executing :: "nat \<Rightarrow> 'd \<Rightarrow> 'p \<Rightarrow> Metrics option \<Rightarrow> ('d, 'p) executing" where
  "new_executing threads d p m =
     \<lparr>ex_database = d, ex_persistence = p, ex_metrics = m, ex_threads = replicate threads Idle_thread, ex_handled = 0, ex_runs = [],
      ex_logged = [], ex_replies = []\<rparr>"

subsection \<open>Every change is logged once\<close>

definition of_thread :: "nat \<Rightarrow> (nat \<times> 'a) list \<Rightarrow> 'a list" where
  "of_thread t xs = map snd (filter (\<lambda>p. fst p = t) xs)"

lemma of_thread_append [simp]: "of_thread t (xs @ ys) = of_thread t xs @ of_thread t ys" "of_thread t [] = []"
  "of_thread t [(t', x)] = (if t' = t then [x] else [])"
  by (simp_all add: of_thread_def)

definition owed :: "nat \<Rightarrow> ('d, 'p) executing \<Rightarrow> string list list" where
  "owed t s = (if t < length (ex_threads s) then (case ex_threads s ! t of Handled arguments _ \<Rightarrow> [arguments] | _ \<Rightarrow> []) else [])"

text \<open>A run of a handler that clients can see, \<open>T n\<close> being the end of the \<open>n\<close>-th, and one whose reply reports success.\<close>

definition changes :: "hash_function \<Rightarrow> (nat \<Rightarrow> time_point) \<Rightarrow> KvStore list handler_run \<Rightarrow> bool" where
  "changes hash T run \<longleftrightarrow> (\<exists>u \<ge> T (run_number run). sh_view hash u (run_after run) \<noteq> sh_view hash u (run_before run))"

definition succeeded :: "'d handler_run \<Rightarrow> bool" where
  "succeeded run \<longleftrightarrow> \<not> is_error (run_reply run) \<and> run_reply run \<noteq> Null"

definition runs_of :: "nat \<Rightarrow> ('d handler_run \<Rightarrow> bool) \<Rightarrow> ('d, 'p) executing \<Rightarrow> string list list" where
  "runs_of t P s = map run_arguments (filter (\<lambda>run. run_thread run = t \<and> P run) (ex_runs s))"

text \<open>The runs follow each other from \<open>d\<close> to \<open>d'\<close>.\<close>

fun linked :: "'d \<Rightarrow> 'd handler_run list \<Rightarrow> 'd \<Rightarrow> bool" where
  "linked d [] d' \<longleftrightarrow> d = d'"
| "linked d (run # rest) d' \<longleftrightarrow> run_before run = d \<and> linked (run_after run) rest d'"

lemma linked_snoc: "linked d runs d1 \<Longrightarrow> run_before run = d1 \<Longrightarrow> linked d (runs @ [run]) (run_after run)"
  by (induction d runs d1 rule: linked.induct) simp_all

text \<open>\<open>d0\<close> and \<open>p0\<close>: the database and the persistence layer at the start.\<close>

definition logged_inv ::
    "hash_function \<Rightarrow> (nat \<Rightarrow> time_point) \<Rightarrow> (string list \<Rightarrow> 'p \<Rightarrow> (std_exception + unit) \<times> 'p) \<Rightarrow> KvStore list \<Rightarrow> 'p \<Rightarrow>
     (KvStore list, 'p) executing \<Rightarrow> bool" where
  "logged_inv hash T callback d0 p0 s \<longleftrightarrow> sh_wf (ex_database s) \<and> linked d0 (ex_runs s) (ex_database s) \<and>
     ex_persistence s = fold (\<lambda>(t, arguments) p. snd (callback arguments p)) (ex_logged s) p0 \<and>
     (\<forall>t. subseq (runs_of t (changes hash T) s) (of_thread t (ex_logged s) @ owed t s) \<and>
          subseq (of_thread t (ex_logged s) @ owed t s) (runs_of t succeeded s))"

lemma log_stage_persistence: "mutation_callback hooks = Some callback \<Longrightarrow> snd (log_stage hooks arguments response p) = snd (callback arguments p)"
  by (simp add: log_stage_def split: prod.split sum.split)

lemma reply_fields [simp]:
  "ex_persistence (reply t elapsed v s) = ex_persistence s" "ex_threads (reply t elapsed v s) = ex_threads s"
  "ex_runs (reply t elapsed v s) = ex_runs s" "ex_logged (reply t elapsed v s) = ex_logged s"
  "ex_database (reply t elapsed v s) = ex_database s" "ex_handled (reply t elapsed v s) = ex_handled s"
  by (simp_all add: reply_def)

text \<open>What a step of a thread does to the fields the invariant reads.\<close>

lemma do_check_cases:
  assumes "do_check ops hooks t arguments elapsed s = Some s'"
  obtains v where "s' = reply t elapsed v s"
  | "t < length (ex_threads s)" "ex_threads s ! t = Idle_thread" "s' = s\<lparr>ex_threads := (ex_threads s)[t := Checked arguments]\<rparr>"
  using assms by (auto simp: do_check_def split: if_splits stage.splits sum.splits)

lemma do_handle_cases:
  assumes "do_handle ops t elapsed s = Some s'"
  obtains arguments command response where "t < length (ex_threads s)" "ex_threads s ! t = Checked arguments"
    "Find (executor_registry (ops (ex_handled s))) (Uppercase (hd arguments)) = Some command"
    "handler command arguments (ex_database s) = (response, ex_database s')"
    "ex_persistence s' = ex_persistence s" "ex_logged s' = ex_logged s"
    "ex_threads s' = (ex_threads s)[t := if effective command response then Handled arguments response else Idle_thread]"
    "ex_runs s' = ex_runs s @ [\<lparr>run_thread = t, run_number = ex_handled s, run_arguments = arguments,
       run_before = ex_database s, run_reply = response, run_after = ex_database s'\<rparr>]"
  using assms by (auto simp: do_handle_def Let_def split: if_splits stage.splits option.splits prod.splits)

lemma do_log_cases:
  assumes "do_log hooks t elapsed s = Some s'"
  obtains arguments response where "t < length (ex_threads s)" "ex_threads s ! t = Handled arguments response"
    "ex_persistence s' = snd (log_stage hooks arguments response (ex_persistence s))" "ex_logged s' = ex_logged s @ [(t, arguments)]"
    "ex_threads s' = (ex_threads s)[t := Idle_thread]" "ex_runs s' = ex_runs s" "ex_database s' = ex_database s"
proof -
  obtain arguments response where t: "t < length (ex_threads s)" "ex_threads s ! t = Handled arguments response"
    using assms by (auto simp: do_log_def split: if_splits stage.splits)
  show thesis
    by (rule that [OF t]; use assms t in \<open>cases "log_stage hooks arguments response (ex_persistence s)"\<close>)
      (auto simp: do_log_def Let_def split: sum.splits)
qed

lemma owed_update:
  assumes "t < length (ex_threads s)" "ex_threads s' = (ex_threads s)[t := st]"
  shows "owed t' s' = (if t' = t then (case st of Handled arguments _ \<Rightarrow> [arguments] | _ \<Rightarrow> []) else owed t' s)"
  using assms by (simp add: owed_def)

lemma runs_of_same: "ex_runs s' = ex_runs s \<Longrightarrow> runs_of t P s' = runs_of t P s"
  by (simp add: runs_of_def)

lemma handle_logged:
  assumes env: "\<forall>n. commands_ok (env n) (T n)" and inv: "logged_inv hash T callback d0 p0 s"
    and step: "do_handle (\<lambda>n i. sharded_database hash (env n i)) t elapsed s = Some s'"
  shows "logged_inv hash T callback d0 p0 s'"
  using step
proof (cases rule: do_handle_cases)
  case (1 arguments command response)
  let ?run = "\<lparr>run_thread = t, run_number = ex_handled s, run_arguments = arguments, run_before = ex_database s,
    run_reply = response, run_after = ex_database s'\<rparr>"
  have mem: "command \<in> set (command_table (\<lambda>i. sharded_database hash (env (ex_handled s) i)))" using registered [OF 1(3)] by blast
  have ok: "envs_ok call_valid c_start c_end (env (ex_handled s)) (T (ex_handled s))" using env by (simp add: commands_ok_def)
  have wf: "sh_wf (ex_database s)" using inv by (simp add: logged_inv_def)
  have safe: "harmless sh_wf (sh_view hash) (T (ex_handled s)) (mutating command) (ex_database s) response (ex_database s')"
    by (rule sharded.handler_harmless [OF ok wf mem 1(4)])
  have quiet: "effective command response" if "changes hash T ?run"
    using that safe by (auto simp: changes_def harmless_def unchanged_def effective_def)
  have good: "succeeded ?run" if "effective command response" using that by (simp add: effective_def succeeded_def)
  have free: "owed t s = []" using 1(1,2) by (simp add: owed_def)
  have own: "owed t' s' = (if t' = t \<and> effective command response then [arguments] else owed t' s)" for t'
    using owed_update [OF 1(1) 1(7), of t'] free by simp
  have runs: "runs_of t' P s' = runs_of t' P s @ (if t' = t \<and> P ?run then [arguments] else [])" for t' P
    by (auto simp: runs_of_def 1(8))
  have "subseq (runs_of t' (changes hash T) s') (of_thread t' (ex_logged s') @ owed t' s') \<and>
      subseq (of_thread t' (ex_logged s') @ owed t' s') (runs_of t' succeeded s')" for t'
  proof -
    have old: "subseq (runs_of t' (changes hash T) s) (of_thread t' (ex_logged s) @ owed t' s)"
      "subseq (of_thread t' (ex_logged s) @ owed t' s) (runs_of t' succeeded s)"
      using inv by (simp_all add: logged_inv_def)
    show ?thesis
    proof (cases "t' = t")
      case True
      with old free quiet good show ?thesis
        by (auto simp: own runs 1(6) intro: subseq_rev_drop_many list_emb_append_mono)
    next
      case False
      with old show ?thesis by (simp add: own runs 1(6))
    qed
  qed
  moreover have "linked d0 (ex_runs s') (ex_database s')"
    using inv linked_snoc [of d0 "ex_runs s" "ex_database s" ?run] by (simp add: logged_inv_def 1(8))
  ultimately show ?thesis
    using inv safe by (simp add: logged_inv_def 1(5,6) harmless_def)
qed

lemma exec_do_logged:
  assumes hooks: "mutation_callback hooks = Some callback" and env: "\<forall>n. commands_ok (env n) (T n)"
    and inv: "logged_inv hash T callback d0 p0 s"
    and step: "exec_do (\<lambda>n i. sharded_database hash (env n i)) hooks a s = Some s'"
  shows "logged_inv hash T callback d0 p0 s'"
proof (cases a)
  case (Check t arguments elapsed)
  then have "do_check (\<lambda>n i. sharded_database hash (env n i)) hooks t arguments elapsed s = Some s'" using step by simp
  then show ?thesis
  proof (cases rule: do_check_cases)
    case (1 v)
    then have "owed t' s' = owed t' s" "runs_of t' P s' = runs_of t' P s" for t' P by (simp_all add: owed_def runs_of_def)
    with 1 show ?thesis using inv by (simp add: logged_inv_def)
  next
    case 2
    have "owed t' s' = owed t' s" for t' using 2 owed_update [OF 2(1), of s' "Checked arguments" t'] by (simp add: owed_def)
    moreover have "runs_of t' P s' = runs_of t' P s" for t' P by (simp add: runs_of_def 2(3))
    ultimately show ?thesis using inv 2 by (simp add: logged_inv_def)
  qed
next
  case (Handle t elapsed)
  then show ?thesis using handle_logged [OF env inv, of t elapsed s'] step by simp
next
  case (Log t elapsed)
  then have "do_log hooks t elapsed s = Some s'" using step by simp
  then show ?thesis
  proof (cases rule: do_log_cases)
    case (1 arguments response)
    have "owed t s = [arguments]" using 1 by (simp add: owed_def)
    then have "of_thread t' (ex_logged s') @ owed t' s' = of_thread t' (ex_logged s) @ owed t' s" for t'
      by (simp add: 1(4) owed_update [OF 1(1) 1(5)])
    then show ?thesis using inv 1(3-7) by (simp add: logged_inv_def runs_of_same [OF 1(6)] log_stage_persistence [OF hooks])
  qed
qed

interpretation executor_machine: inductive_invariant
  "exec_do (\<lambda>n i. sharded_database hash (env n i)) hooks"
  "\<lambda>s. mutation_callback hooks = Some callback \<and> (\<forall>n. commands_ok (env n) (T n)) \<and> logged_inv hash T callback d0 p0 s"
  for hash env hooks callback T d0 p0
  by unfold_locales (auto intro: exec_do_logged)

text \<open>
  C36. Every visible change of every thread is logged exactly once.  Any number of threads run commands on one executor over the sharded
  database, in any interleaving of checks, handlers and mutation callbacks (a handler being one step).  Then the database is what the
  handlers made of it one after another; the persistence layer has seen exactly the calls of the callback in the order of the log; and for
  every thread, the commands whose handler changed what clients can see are, in their order, among the commands it has handed to the
  callback and the one it still owes, and these are, in their order and each run at most once, among the commands whose handler
  reported success.
\<close>

theorem concurrent_commands_logged_once:
  assumes "mutation_callback hooks = Some callback" and "\<forall>n. commands_ok (env n) (T n)" and "sh_wf d0"
    and "reaches (exec_do (\<lambda>n i. sharded_database hash (env n i)) hooks) (new_executing threads d0 p0 m) s"
  shows "linked d0 (ex_runs s) (ex_database s) \<and>
    ex_persistence s = fold (\<lambda>(t, arguments) p. snd (callback arguments p)) (ex_logged s) p0 \<and>
    (\<forall>t. subseq (runs_of t (changes hash T) s) (of_thread t (ex_logged s) @ owed t s) \<and>
         subseq (of_thread t (ex_logged s) @ owed t s) (runs_of t succeeded s))"
proof -
  have "logged_inv hash T callback d0 p0 (new_executing threads d0 p0 m)"
    using assms(3) by (auto simp: logged_inv_def owed_def runs_of_def new_executing_def)
  with executor_machine.on_reaches [OF assms(4)] assms(1,2) have "logged_inv hash T callback d0 p0 s" by blast
  then show ?thesis by (simp add: logged_inv_def)
qed

subsection \<open>The order of the log\<close>

text \<open>
  Two threads set one key.  Both handlers run before the callbacks, which then run the other way round: memory has the value of the second
  command, and a restart from the log the value of the first.
\<close>

definition sample_ops :: "nat \<Rightarrow> nat \<Rightarrow> KvStore list Database" where
  "sample_ops n i = sharded_database sample_hash (sample_commands (int n) i)"

definition sample_threads :: "exec_action list" where
  "sample_threads = [Check 0 [''SET'', ''a'', ''1''] 2, Check 1 [''SET'', ''a'', ''2''] 3, Handle 0 5, Handle 1 6, Log 1 9, Log 0 12]"

definition sample_empty :: "KvStore list" where
  "sample_empty = projr (new_ShardedDatabase 2 1000 kNoEviction None)"

lemma sample_empty_wf: "sh_wf sample_empty"
  using new_database_keeps [of 2 1000 None sample_empty] by (simp add: sample_empty_def new_ShardedDatabase_def vector_limit_def)

lemma sample_thread_changes:
  "map_option (\<lambda>s. (ex_persistence s, ex_threads s, map (\<lambda>run. sh_view sample_hash (int (run_number run)) (run_after run) ''a'' \<noteq>
       sh_view sample_hash (int (run_number run)) (run_before run) ''a'') (ex_runs s), map run_thread (ex_runs s)))
     (run_actions (exec_do sample_ops sample_hooks) sample_threads (new_executing 2 sample_empty [] None)) =
   Some ([[''SET'', ''a'', ''2''], [''SET'', ''a'', ''1'']], [Idle_thread, Idle_thread], [True, True], [0, 1])"
  by code_simp

theorem concurrent_commands_logged_once_witness:
  "\<exists>s. run_actions (exec_do sample_ops sample_hooks) sample_threads (new_executing 2 sample_empty [] None) = Some s \<and>
     length (runs_of 1 (changes sample_hash int) s) = 1 \<and> subseq (runs_of 1 (changes sample_hash int) s) (of_thread 1 (ex_logged s))"
proof -
  let ?run = "run_actions (exec_do sample_ops sample_hooks) sample_threads (new_executing 2 sample_empty [] None)"
  from sample_thread_changes obtain s where s: "?run = Some s" "ex_threads s = [Idle_thread, Idle_thread]"
    "map (\<lambda>run. sh_view sample_hash (int (run_number run)) (run_after run) ''a'' \<noteq>
       sh_view sample_hash (int (run_number run)) (run_before run) ''a'') (ex_runs s) = [True, True]"
    "map run_thread (ex_runs s) = [0, 1]" by auto
  have all: "changes sample_hash int run" if "run \<in> set (ex_runs s)" for run
  proof -
    have "sh_view sample_hash (int (run_number run)) (run_after run) ''a'' \<noteq> sh_view sample_hash (int (run_number run)) (run_before run) ''a''"
      using that s(3) by (auto simp: map_eq_Cons_conv)
    then show ?thesis unfolding changes_def by (metis order.refl)
  qed
  have "filter (\<lambda>run. run_thread run = 1 \<and> changes sample_hash int run) (ex_runs s) = filter (\<lambda>run. run_thread run = 1) (ex_runs s)"
    using all by (intro filter_cong) auto
  then have one: "length (runs_of 1 (changes sample_hash int) s) = 1" using s(4) by (auto simp: runs_of_def map_eq_Cons_conv)
  have hooks: "mutation_callback sample_hooks = Some (\<lambda>args log. (Inr (), log @ [args]))" by (simp add: sample_hooks_def)
  have env: "\<forall>n. commands_ok (sample_commands (int n)) (int n)" by simp
  note main = concurrent_commands_logged_once [where T = int, OF hooks env sample_empty_wf
      run_actions_reaches [OF s(1) [unfolded sample_ops_def [abs_def]]], THEN conjunct2, THEN conjunct2, rule_format, of 1]
  have "owed 1 s = []" by (simp add: owed_def s(2))
  with main have "subseq (runs_of 1 (changes sample_hash int) s) (of_thread 1 (ex_logged s))" by simp
  with one s(1) show ?thesis by blast
qed

lemma log_order_differs:
  "map_option (\<lambda>s. (sh_view sample_hash 5 (ex_database s) ''a'',
       sh_view sample_hash 5 (fst (snd (snd (replay_all (replay_command sample_ops (\<lambda>_. 0)) (ex_persistence s) 0 (0, sample_empty, None))))) ''a''))
     (run_actions (exec_do sample_ops sample_hooks) sample_threads (new_executing 2 sample_empty [] None)) =
   Some (Some (''2'', None), Some (''1'', None))"
  by code_simp

end
